(* ===== verification/Prelude.thy ===== *)
theory Prelude
  imports Main "HOL-Library.Word"
begin

text \<open>
  Shared vocabulary of the development: the machine integers of the Rust sources, the
  outcome of a Rust call (a value, an error value or a panic), the checked and saturating
  integer operations of the standard library, and the generic facts on lists, options and
  outcomes that the component theories use.

  A Rust function that returns \<open>Result<T, E>\<close> and mutates nothing before its last
  fallible step is modelled as a function into \<open>('e, 'a) res\<close>. A function that may have
  mutated \<open>&mut self\<close> before it fails returns the outcome together with the state it left
  behind, \<open>('e, 'a) res \<times> 's\<close>, and is composed with \<open>bind_st\<close>.
\<close>

section \<open>Collections of facts\<close>

named_theorems res_simps \<open>unfolding of the outcome combinators\<close>
named_theorems checked_simps \<open>characterisations of checked and saturating arithmetic\<close>

section \<open>Machine integers\<close>

type_synonym u8 = "8 word"
type_synonym u16 = "16 word"
type_synonym u32 = "32 word"
type_synonym u64 = "64 word"

text \<open>\<open>checked_add\<close>: \<open>None\<close> when the sum does not fit the width.\<close>

definition checked_add :: "'a::len word \<Rightarrow> 'a word \<Rightarrow> 'a word option" where
  "checked_add x y = (if unat x + unat y < 2 ^ LENGTH('a) then Some (x + y) else None)"

text \<open>\<open>saturating_add\<close> and \<open>saturating_sub\<close>: clamp at the ends of the range.\<close>

definition saturating_add :: "'a::len word \<Rightarrow> 'a word \<Rightarrow> 'a word" where
  "saturating_add x y = (if unat x + unat y < 2 ^ LENGTH('a) then x + y else - 1)"

definition saturating_sub :: "'a::len word \<Rightarrow> 'a word \<Rightarrow> 'a word" where
  "saturating_sub x y = (if y \<le> x then x - y else 0)"

text \<open>\<open>to_le_bytes\<close>: the bytes of an integer, least significant first.\<close>

definition to_le_bytes :: "'a::len word \<Rightarrow> u8 list" where
  "to_le_bytes w = map (\<lambda>k. ucast (drop_bit (8 * k) w)) [0..<LENGTH('a) div 8]"

section \<open>Outcomes\<close>

datatype ('e, 'a) res = Ok 'a | Err 'e | Panic string

fun bind_res :: "('e, 'a) res \<Rightarrow> ('a \<Rightarrow> ('e, 'b) res) \<Rightarrow> ('e, 'b) res" where
  "bind_res (Ok x) f = f x"
| "bind_res (Err e) f = Err e"
| "bind_res (Panic m) f = Panic m"

fun map_err :: "('e \<Rightarrow> 'f) \<Rightarrow> ('e, 'a) res \<Rightarrow> ('f, 'a) res" where
  "map_err g (Ok x) = Ok x"
| "map_err g (Err e) = Err (g e)"
| "map_err g (Panic m) = Panic m"

definition ok_or :: "'a option \<Rightarrow> 'e \<Rightarrow> ('e, 'a) res" where
  "ok_or v e = (case v of None \<Rightarrow> Err e | Some x \<Rightarrow> Ok x)"

definition expect :: "'a option \<Rightarrow> string \<Rightarrow> ('e, 'a) res" where
  "expect v m = (case v of None \<Rightarrow> Panic m | Some x \<Rightarrow> Ok x)"

text \<open>
  The \<open>?\<close> operator on calls that return their final state: the state reached is kept
  whether or not the call succeeded.
\<close>

fun bind_st :: "('e, 'a) res \<times> 's \<Rightarrow> ('a \<Rightarrow> 's \<Rightarrow> ('e, 'b) res \<times> 's) \<Rightarrow> ('e, 'b) res \<times> 's" where
  "bind_st (Ok x, s) f = f x s"
| "bind_st (Err e, s) f = (Err e, s)"
| "bind_st (Panic m, s) f = (Panic m, s)"

text \<open>Plain \<open>+\<close> and \<open>-\<close>, which panic on overflow in a checked build.\<close>

definition add_or_panic :: "'a::len word \<Rightarrow> 'a word \<Rightarrow> ('e, 'a word) res" where
  "add_or_panic x y = (if unat x + unat y < 2 ^ LENGTH('a) then Ok (x + y) else Panic ''attempt to add with overflow'')"

definition sub_or_panic :: "'a::len word \<Rightarrow> 'a word \<Rightarrow> ('e, 'a word) res" where
  "sub_or_panic x y = (if y \<le> x then Ok (x - y) else Panic ''attempt to subtract with overflow'')"

text \<open>\<open>iter().map(f).collect::<Result<Vec<_>, _>>()\<close>: stops at the first failure.\<close>

fun collect_res :: "('a \<Rightarrow> ('e, 'b) res) \<Rightarrow> 'a list \<Rightarrow> ('e, 'b list) res" where
  "collect_res f [] = Ok []"
| "collect_res f (x # xs) =
     bind_res (f x) (\<lambda>y. bind_res (collect_res f xs) (\<lambda>ys. Ok (y # ys)))"

text \<open>A \<open>for\<close> loop whose body may return early with an error: the first failure wins.\<close>

fun for_res :: "('a \<Rightarrow> ('e, unit) res) \<Rightarrow> 'a list \<Rightarrow> ('e, unit) res" where
  "for_res f [] = Ok ()"
| "for_res f (x # xs) = bind_res (f x) (\<lambda>_. for_res f xs)"

text \<open>\<open>xs[i]\<close>: panics out of range.\<close>

definition index_vec :: "'a list \<Rightarrow> nat \<Rightarrow> ('e, 'a) res" where
  "index_vec xs i = (if i < length xs then Ok (xs ! i) else Panic ''index out of bounds'')"

text \<open>Decimal rendering of an unsigned integer, as \<open>{}\<close> prints it.\<close>

fun show_nat :: "nat \<Rightarrow> string" where
  "show_nat n = (if n < 10 then [char_of (48 + n)] else show_nat (n div 10) @ [char_of (48 + n mod 10)])"

declare show_nat.simps [simp del]

section \<open>Facts on outcomes\<close>

lemma bind_res_eq_Ok [res_simps]:
  "bind_res r f = Ok y \<longleftrightarrow> (\<exists>x. r = Ok x \<and> f x = Ok y)"
  by (cases r) auto

lemma bind_res_eq_Err [res_simps]:
  "bind_res r f = Err e \<longleftrightarrow> r = Err e \<or> (\<exists>x. r = Ok x \<and> f x = Err e)"
  by (cases r) auto

lemma bind_res_eq_Panic [res_simps]:
  "bind_res r f = Panic m \<longleftrightarrow> r = Panic m \<or> (\<exists>x. r = Ok x \<and> f x = Panic m)"
  by (cases r) auto

lemma map_err_eq [res_simps]:
  "map_err g r = Ok x \<longleftrightarrow> r = Ok x"
  "map_err g r = Panic m \<longleftrightarrow> r = Panic m"
  "map_err g r = Err e \<longleftrightarrow> (\<exists>e'. r = Err e' \<and> e = g e')"
  by (cases r; auto)+

lemma ok_or_simps [simp]:
  "ok_or None e = Err e" "ok_or (Some x) e = Ok x"
  by (simp_all add: ok_or_def)

lemma ok_or_eq [res_simps]:
  "ok_or v e = Ok x \<longleftrightarrow> v = Some x"
  "ok_or v e = Err e' \<longleftrightarrow> v = None \<and> e' = e"
  "ok_or v e \<noteq> Panic m"
  by (cases v; auto)+

lemma expect_simps [simp]:
  "expect None m = Panic m" "expect (Some x) m = Ok x"
  by (simp_all add: expect_def)

lemma expect_eq [res_simps]:
  "expect v m = Ok x \<longleftrightarrow> v = Some x"
  "expect v m = Panic m' \<longleftrightarrow> v = None \<and> m' = m"
  "expect v m \<noteq> Err e"
  by (cases v; auto)+

lemma index_vec_eq [res_simps]:
  "index_vec xs i = Ok x \<longleftrightarrow> i < length xs \<and> x = xs ! i"
  "index_vec xs i = Panic m \<longleftrightarrow> length xs \<le> i \<and> m = ''index out of bounds''"
  "index_vec xs i \<noteq> Err e"
  by (auto simp: index_vec_def)

lemma bind_st_Ok:
  "bind_st rs f = (Ok y, t) \<longleftrightarrow> (\<exists>x s. rs = (Ok x, s) \<and> f x s = (Ok y, t))"
  by (cases rs; cases "fst rs") auto

lemma bind_st_eq:
  "bind_st rs f = (r, t) \<longleftrightarrow> (\<exists>x s. rs = (Ok x, s) \<and> f x s = (r, t))
     \<or> (\<exists>e. rs = (Err e, t) \<and> r = Err e) \<or> (\<exists>m. rs = (Panic m, t) \<and> r = Panic m)"
  by (cases rs; cases "fst rs") auto

lemma collect_res_Ok_iff:
  "collect_res f xs = Ok ys \<longleftrightarrow>
     length ys = length xs \<and> (\<forall>i < length xs. f (xs ! i) = Ok (ys ! i))"
proof (induction xs arbitrary: ys)
  case (Cons x xs)
  show ?case
    by (cases ys) (auto simp: res_simps Cons.IH nth_Cons split: nat.splits)
qed auto

lemma collect_res_map:
  "(\<And>x. x \<in> set xs \<Longrightarrow> f x = Ok (g x)) \<Longrightarrow> collect_res f xs = Ok (map g xs)"
  by (induction xs) auto

lemma collect_res_total:
  "(\<And>x. x \<in> set xs \<Longrightarrow> \<exists>y. f x = Ok y) \<Longrightarrow> \<exists>ys. collect_res f xs = Ok ys"
  by (induction xs) (force simp: res_simps)+

lemma collect_res_Err:
  "collect_res f xs = Err e \<Longrightarrow> \<exists>x \<in> set xs. f x = Err e"
  by (induction xs) (auto simp: res_simps)

lemma collect_res_only_Err:
  "(\<And>x. x \<in> set xs \<Longrightarrow> (\<exists>y. f x = Ok y) \<or> f x = Err e) \<Longrightarrow> \<exists>x \<in> set xs. f x = Err e \<Longrightarrow> collect_res f xs = Err e"
  by (induction xs) force+

lemma collect_res_no_Panic:
  "(\<And>x m. x \<in> set xs \<Longrightarrow> f x \<noteq> Panic m) \<Longrightarrow> collect_res f xs \<noteq> Panic m"
  by (induction xs) (auto simp: res_simps)

lemma for_res_Ok_iff: "for_res f xs = Ok () \<longleftrightarrow> (\<forall>x \<in> set xs. f x = Ok ())"
  by (induction xs) (auto simp: res_simps)

lemma for_res_Err: "for_res f xs = Err e \<Longrightarrow> \<exists>x \<in> set xs. f x = Err e"
  by (induction xs) (auto simp: res_simps)

lemma for_res_no_Panic:
  "(\<And>x m. x \<in> set xs \<Longrightarrow> f x \<noteq> Panic m) \<Longrightarrow> for_res f xs \<noteq> Panic m"
  by (induction xs) (auto simp: res_simps)

section \<open>Facts on machine integers\<close>

lemma add_or_panic_eq [res_simps]:
  "add_or_panic x y = Ok z \<longleftrightarrow> unat x + unat y < 2 ^ LENGTH('a) \<and> z = x + (y :: 'a::len word)"
  by (auto simp: add_or_panic_def)

lemma sub_or_panic_eq [res_simps]: "sub_or_panic x y = Ok z \<longleftrightarrow> y \<le> x \<and> z = x - y"
  by (auto simp: sub_or_panic_def)

lemma checked_add_Some [checked_simps]:
  "checked_add x (y :: 'a::len word) = Some z \<longleftrightarrow>
     unat x + unat y < 2 ^ LENGTH('a) \<and> z = x + y"
  by (auto simp: checked_add_def)

lemma checked_add_None [checked_simps]:
  "checked_add x (y :: 'a::len word) = None \<longleftrightarrow> 2 ^ LENGTH('a) \<le> unat x + unat y"
  by (auto simp: checked_add_def not_less)

lemma unat_add_no_overflow:
  "unat x + unat y < 2 ^ LENGTH('a) \<Longrightarrow> unat (x + y :: 'a::len word) = unat x + unat y"
  by (simp add: unat_word_ariths)

lemma unat_Suc_below: "x < y \<Longrightarrow> unat (x + 1 :: 'a::len word) = Suc (unat x)"
proof -
  assume "x < y"
  then have "Suc (unat x) < 2 ^ LENGTH('a)"
    by (intro le_less_trans[OF _ unsigned_less[of y]]) (simp add: word_less_nat_alt Suc_le_eq)
  then show ?thesis using unat_add_no_overflow[of x 1] by simp
qed

lemma unat_saturating_add [checked_simps]:
  "unat (saturating_add x y :: 'a::len word) = min (unat x + unat y) (2 ^ LENGTH('a) - 1)"
  by (auto simp: saturating_add_def unat_add_no_overflow unsigned_minus_1_eq_mask mask_eq_exp_minus_1 min_def)

lemma unat_saturating_sub [checked_simps]:
  "unat (saturating_sub x y :: 'a::len word) = unat x - unat y"
  by (auto simp: saturating_sub_def unat_sub word_le_nat_alt)

lemma length_to_le_bytes [simp]: "length (to_le_bytes (w :: 'a::len word)) = LENGTH('a) div 8"
  by (simp add: to_le_bytes_def)

lemma to_le_bytes_inject:
  assumes "8 dvd LENGTH('a)"
  shows "to_le_bytes (v :: 'a::len word) = to_le_bytes w \<longleftrightarrow> v = w"
proof
  assume eq: "to_le_bytes v = to_le_bytes w"
  show "v = w"
  proof (rule bit_word_eqI)
    fix n assume n: "n < LENGTH('a)"
    then have k: "n div 8 < LENGTH('a) div 8"
      using assms by (auto elim!: dvdE simp: div_less_iff_less_mult)
    have "to_le_bytes v ! (n div 8) = to_le_bytes w ! (n div 8)" using eq by simp
    then have "(ucast (drop_bit (8 * (n div 8)) v) :: u8) = ucast (drop_bit (8 * (n div 8)) w)"
      using k by (simp add: to_le_bytes_def)
    then have "bit (ucast (drop_bit (8 * (n div 8)) v) :: u8) (n mod 8)
        = bit (ucast (drop_bit (8 * (n div 8)) w) :: u8) (n mod 8)" by simp
    then show "bit v n = bit w n"
      by (simp add: bit_simps)
  qed
qed simp

lemma unat_ucast_u32_u64 [simp]: "unat (ucast (w :: u32) :: u64) = unat w"
proof -
  have "unat w < 2 ^ LENGTH(32)" by (rule unsigned_less)
  then show ?thesis by (simp add: unsigned_ucast_eq take_bit_nat_eq_self)
qed

lemma unat_ucast_u64_u32: "unat w < 2 ^ 32 \<Longrightarrow> unat (ucast (w :: u64) :: u32) = unat w"
  by (simp add: unsigned_ucast_eq take_bit_nat_eq_self)

end
