(* ===== verification/Float64.thy ===== *)
theory Float64
  imports Prelude Complex_Main "HOL-Library.Log_Nat"
begin

text \<open>
  The \<open>f64\<close> of the Rust sources: an IEEE 754 binary64 value given by its 64 bits, with the
  operations of the language and of its standard library that the sources use. Everything
  is computed on naturals and integers, so the definitions evaluate.

  Every finite \<open>f64\<close> is an integer multiple of \<open>2 ^ -1074\<close>. For the magnitude bits \<open>g\<close>
  (the low 63 bits), \<open>scaled g\<close> is that multiple. Rounding to nearest, ties to even, takes a
  fraction \<open>n / d\<close> in units of \<open>2 ^ -1074\<close> back to magnitude bits. The operations compute
  the exact result as a fraction and round once, which is how IEEE 754 defines them.
  A NaN result is the quiet NaN with an empty payload (Rust leaves its payload open).
\<close>

section \<open>Bits\<close>

datatype f64 = F64 (to_bits: u64)

definition sign_bit :: "f64 \<Rightarrow> bool" where
  "sign_bit x \<longleftrightarrow> 2 ^ 63 \<le> unat (to_bits x)"

definition mag :: "f64 \<Rightarrow> nat" where
  "mag x = unat (to_bits x) mod 2 ^ 63"

text \<open>The magnitude bits of infinity: exponent field 2047, fraction 0.\<close>

definition inf_mag :: nat where
  "inf_mag = 0x7FF0000000000000"

definition mk_f64 :: "bool \<Rightarrow> nat \<Rightarrow> f64" where
  "mk_f64 s g = F64 (word_of_nat (if s then 2 ^ 63 + g else g))"

definition is_nan :: "f64 \<Rightarrow> bool" where
  "is_nan x \<longleftrightarrow> inf_mag < mag x"

definition is_inf :: "f64 \<Rightarrow> bool" where
  "is_inf x \<longleftrightarrow> mag x = inf_mag"

definition is_finite :: "f64 \<Rightarrow> bool" where
  "is_finite x \<longleftrightarrow> mag x < inf_mag"

definition f_nan :: f64 where "f_nan = F64 0x7FF8000000000000"
definition f_inf :: f64 where "f_inf = F64 0x7FF0000000000000"
definition f_neg_inf :: f64 where "f_neg_inf = F64 0xFFF0000000000000"
definition f_zero :: f64 where "f_zero = F64 0"
definition f_one :: f64 where "f_one = F64 0x3FF0000000000000"

section \<open>Comparison\<close>

text \<open>
  The numeric order of non-NaN values is the order of the signed magnitude bits; the two
  zeros share the key 0. Every comparison with a NaN is false.
\<close>

definition skey :: "f64 \<Rightarrow> int" where
  "skey x = (if sign_bit x then - int (mag x) else int (mag x))"

definition f_lt :: "f64 \<Rightarrow> f64 \<Rightarrow> bool" where
  "f_lt x y \<longleftrightarrow> \<not> is_nan x \<and> \<not> is_nan y \<and> skey x < skey y"

definition f_le :: "f64 \<Rightarrow> f64 \<Rightarrow> bool" where
  "f_le x y \<longleftrightarrow> \<not> is_nan x \<and> \<not> is_nan y \<and> skey x \<le> skey y"

definition f_eq :: "f64 \<Rightarrow> f64 \<Rightarrow> bool" where
  "f_eq x y \<longleftrightarrow> \<not> is_nan x \<and> \<not> is_nan y \<and> skey x = skey y"

text \<open>\<open>f64::total_cmp\<close> orders by the bits as a signed integer with the low 63 bits of
  negative values flipped.\<close>

definition total_key :: "f64 \<Rightarrow> int" where
  "total_key x = (if sign_bit x then - 1 - int (mag x) else int (mag x))"

text \<open>
  \<open>f64::min\<close> and \<open>f64::max\<close> ignore a NaN operand. For zeros of opposite sign Rust leaves
  open which operand is returned; the model returns the second.
\<close>

definition f_min :: "f64 \<Rightarrow> f64 \<Rightarrow> f64" where
  "f_min x y = (if is_nan x then y else if is_nan y then x else if f_lt x y then x else y)"

definition f_max :: "f64 \<Rightarrow> f64 \<Rightarrow> f64" where
  "f_max x y = (if is_nan x then y else if is_nan y then x else if f_lt y x then x else y)"

text \<open>\<open>f64::clamp\<close> with bounds that satisfy its assertion; NaN is passed through.\<close>

definition f_clamp :: "f64 \<Rightarrow> f64 \<Rightarrow> f64 \<Rightarrow> f64" where
  "f_clamp x lo hi = (let x = (if f_lt x lo then lo else x) in if f_lt hi x then hi else x)"

section \<open>Rounding\<close>

definition scaled :: "nat \<Rightarrow> nat" where
  "scaled g = (let e = g div 2 ^ 52; f = g mod 2 ^ 52
               in if e = 0 then f else (2 ^ 52 + f) * 2 ^ (e - 1))"

text \<open>Nearest integer to \<open>n / d\<close>, ties to even.\<close>

definition rne :: "nat \<Rightarrow> nat \<Rightarrow> nat" where
  "rne n d = (let q = n div d; r = n mod d
              in if d < 2 * r \<or> (2 * r = d \<and> odd q) then q + 1 else q)"

text \<open>
  Magnitude bits of the double nearest to \<open>n / d\<close> units, before the overflow check: \<open>k\<close> is
  the exponent shift that leaves a 53-bit significand, and a significand that rounds up to
  \<open>2 ^ 53\<close> carries into the exponent field by plain addition.
\<close>

definition round_shift :: "nat \<Rightarrow> nat" where
  "round_shift q = floorlog 2 q - 53"

definition round_mag :: "nat \<Rightarrow> nat \<Rightarrow> nat" where
  "round_mag n d = (let k = round_shift (n div d) in k * 2 ^ 52 + rne n (d * 2 ^ k))"

definition round_f64 :: "bool \<Rightarrow> nat \<Rightarrow> nat \<Rightarrow> f64" where
  "round_f64 s n d = mk_f64 s (min inf_mag (round_mag n d))"

text \<open>A decimal literal \<open>n / d\<close> of the source.\<close>

definition f64_lit :: "nat \<Rightarrow> nat \<Rightarrow> f64" where
  "f64_lit n d = round_f64 False (n * 2 ^ 1074) d"

section \<open>Arithmetic\<close>

definition fval :: "f64 \<Rightarrow> int" where
  "fval x = (if sign_bit x then - int (scaled (mag x)) else int (scaled (mag x)))"

definition f_neg :: "f64 \<Rightarrow> f64" where
  "f_neg x = mk_f64 (\<not> sign_bit x) (mag x)"

definition f_abs :: "f64 \<Rightarrow> f64" where
  "f_abs x = mk_f64 False (mag x)"

definition f_add :: "f64 \<Rightarrow> f64 \<Rightarrow> f64" where
  "f_add x y =
     (if is_nan x \<or> is_nan y then f_nan
      else if is_inf x then (if is_inf y \<and> sign_bit x \<noteq> sign_bit y then f_nan else x)
      else if is_inf y then y
      else let s = fval x + fval y
           in if s = 0 then mk_f64 (sign_bit x \<and> sign_bit y) 0
              else round_f64 (s < 0) (nat \<bar>s\<bar>) 1)"

definition f_sub :: "f64 \<Rightarrow> f64 \<Rightarrow> f64" where
  "f_sub x y = f_add x (f_neg y)"

definition f_mul :: "f64 \<Rightarrow> f64 \<Rightarrow> f64" where
  "f_mul x y =
     (let s = (sign_bit x \<noteq> sign_bit y)
      in if is_nan x \<or> is_nan y then f_nan
         else if is_inf x \<or> is_inf y
         then (if mag x = 0 \<or> mag y = 0 then f_nan else mk_f64 s inf_mag)
         else round_f64 s (scaled (mag x) * scaled (mag y)) (2 ^ 1074))"

definition f_div :: "f64 \<Rightarrow> f64 \<Rightarrow> f64" where
  "f_div x y =
     (let s = (sign_bit x \<noteq> sign_bit y)
      in if is_nan x \<or> is_nan y then f_nan
         else if is_inf x then (if is_inf y then f_nan else mk_f64 s inf_mag)
         else if is_inf y then mk_f64 s 0
         else if mag y = 0 then (if mag x = 0 then f_nan else mk_f64 s inf_mag)
         else round_f64 s (scaled (mag x) * 2 ^ 1074) (scaled (mag y)))"

text \<open>
  Square root. In units of \<open>2 ^ -1074\<close> the root of \<open>m\<close> units is the root of \<open>m * 2 ^ 1074\<close>;
  \<open>rne_sqrt\<close> rounds \<open>sqrt n / 2 ^ k\<close> to the nearest integer, ties to even.
\<close>

fun isqrt :: "nat \<Rightarrow> nat" where
  "isqrt n = (if n = 0 then 0
              else let r = 2 * isqrt (n div 4) in if (r + 1) * (r + 1) \<le> n then r + 1 else r)"

declare isqrt.simps [simp del]

definition rne_sqrt :: "nat \<Rightarrow> nat \<Rightarrow> nat" where
  "rne_sqrt n k =
     (let q = isqrt (n div 4 ^ k); h = (2 * q + 1) * (2 * q + 1) * 4 ^ k
      in if h < 4 * n \<or> (h = 4 * n \<and> odd q) then q + 1 else q)"

definition f_sqrt :: "f64 \<Rightarrow> f64" where
  "f_sqrt x =
     (if is_nan x then f_nan
      else if mag x = 0 then x
      else if sign_bit x then f_nan
      else if is_inf x then x
      else let n = scaled (mag x) * 2 ^ 1074; k = round_shift (isqrt n)
           in mk_f64 False (min inf_mag (k * 2 ^ 52 + rne_sqrt n k)))"

section \<open>Conversions\<close>

text \<open>\<open>f64::from(u32)\<close> and \<open>u64 as f64\<close>: the nearest double.\<close>

definition f64_of_nat :: "nat \<Rightarrow> f64" where
  "f64_of_nat n = round_f64 False (n * 2 ^ 1074) 1"

text \<open>\<open>x.floor() as usize\<close>: the cast truncates, saturates, and sends NaN to 0.\<close>

definition f_floor_usize :: "f64 \<Rightarrow> nat" where
  "f_floor_usize x =
     (if is_nan x \<or> sign_bit x then 0
      else if is_inf x then 2 ^ 64 - 1
      else min (2 ^ 64 - 1) (scaled (mag x) div 2 ^ 1074))"

section \<open>Bit representation\<close>

lemma mag_less: "mag x < 2 ^ 63"
  by (simp add: mag_def)

lemma bits_mk: "g < 2 ^ 63 \<Longrightarrow> unat (to_bits (mk_f64 s g)) = (if s then 2 ^ 63 + g else g)"
  by (simp add: mk_f64_def unsigned_of_nat take_bit_nat_eq_self_iff)

lemma mag_mk [simp]: "g < 2 ^ 63 \<Longrightarrow> mag (mk_f64 s g) = g"
  by (simp add: mag_def bits_mk)

lemma sign_mk [simp]: "g < 2 ^ 63 \<Longrightarrow> sign_bit (mk_f64 s g) = s"
  by (simp add: sign_bit_def bits_mk)

lemma mk_sign_mag [simp]: "mk_f64 (sign_bit x) (mag x) = x"
proof (cases x)
  case (F64 w)
  have w: "unat w < 2 ^ 64" using unsigned_less[of w] by simp
  have "(if sign_bit x then 2 ^ 63 + mag x else mag x) = unat w"
    using w by (auto simp: F64 sign_bit_def mag_def mod_if)
  then have "mk_f64 (sign_bit x) (mag x) = F64 (word_of_nat (unat w))"
    unfolding mk_f64_def by (simp only:)
  then show ?thesis by (simp add: F64)
qed

lemma f64_eq_iff: "x = y \<longleftrightarrow> sign_bit x = sign_bit y \<and> mag x = mag y"
proof
  assume "sign_bit x = sign_bit y \<and> mag x = mag y"
  then have "mk_f64 (sign_bit x) (mag x) = mk_f64 (sign_bit y) (mag y)" by simp
  then show "x = y" by simp
qed simp

section \<open>The scaled value is strictly monotone in the magnitude bits\<close>

lemma scaled_0 [simp]: "scaled 0 = 0"
  by (simp add: scaled_def)

lemma mult_add_div_mod:
  "f < b \<Longrightarrow> (a * b + f) div b = (a :: nat)" "f < b \<Longrightarrow> (a * b + f) mod b = (f :: nat)"
  by simp_all

lemma scaled_cases:
  "g < 2 ^ 52 \<Longrightarrow> scaled g = g"
  "f < 2 ^ 52 \<Longrightarrow> scaled (Suc e * 2 ^ 52 + f) = (2 ^ 52 + f) * 2 ^ e"
proof -
  show "g < 2 ^ 52 \<Longrightarrow> scaled g = g" by (simp add: scaled_def)
  assume "f < 2 ^ 52"
  then have "(Suc e * 2 ^ 52 + f) div 2 ^ 52 = Suc e" "(Suc e * 2 ^ 52 + f) mod 2 ^ 52 = f"
    by (rule mult_add_div_mod)+
  then show "scaled (Suc e * 2 ^ 52 + f) = (2 ^ 52 + f) * 2 ^ e"
    unfolding scaled_def Let_def by simp
qed

lemma scaled_Suc: "scaled g < scaled (Suc g)"
proof (cases "Suc g mod 2 ^ 52 = 0")
  case True
  define e where "e = Suc g div 2 ^ 52"
  have Sg: "Suc g = e * 2 ^ 52" using True by (simp add: e_def mod_eq_0_iff_dvd)
  then obtain e' where e': "e = Suc e'" by (cases e) auto
  have g: "g = e' * 2 ^ 52 + (2 ^ 52 - 1)" using Sg e' by simp
  have s1: "scaled (Suc g) = 2 ^ 52 * 2 ^ e'"
    using scaled_cases(2)[of 0 e'] by (simp add: Sg e')
  show ?thesis
  proof (cases e')
    case 0
    then have "scaled g = g" by (intro scaled_cases(1)) (simp add: g)
    then show ?thesis using s1 by (simp add: 0 g)
  next
    case (Suc e'')
    have "scaled g = (2 ^ 52 + (2 ^ 52 - 1)) * 2 ^ e''"
      unfolding g Suc by (rule scaled_cases(2)) simp
    then show ?thesis by (simp add: s1 Suc)
  qed
next
  case False
  define e where "e = g div 2 ^ 52"
  define f where "f = g mod 2 ^ 52"
  have f: "f < 2 ^ 52" by (simp add: f_def)
  have g: "g = e * 2 ^ 52 + f" by (simp add: e_def f_def)
  have f1: "Suc f < 2 ^ 52"
  proof (rule ccontr)
    assume "\<not> Suc f < 2 ^ 52"
    then have "Suc f = 2 ^ 52" using f by simp
    then have "Suc g = Suc e * 2 ^ 52" by (simp add: g)
    then show False using False by (metis mod_mult_self2_is_0)
  qed
  show ?thesis
  proof (cases e)
    case 0
    then show ?thesis using f f1 by (simp add: g scaled_cases(1))
  next
    case (Suc e')
    have "scaled g = (2 ^ 52 + f) * 2 ^ e'" unfolding g Suc by (rule scaled_cases(2)[OF f])
    moreover have "scaled (Suc g) = (2 ^ 52 + Suc f) * 2 ^ e'"
      using scaled_cases(2)[OF f1, of e'] by (simp add: g Suc)
    ultimately show ?thesis by simp
  qed
qed

lemma strict_mono_scaled: "strict_mono scaled"
  by (simp add: strict_mono_Suc_iff scaled_Suc)

lemmas scaled_less = strict_mono_less [OF strict_mono_scaled]
lemmas scaled_le = strict_mono_less_eq [OF strict_mono_scaled]
lemmas scaled_eq = strict_mono_eq [OF strict_mono_scaled]

lemma scaled_eq_0 [simp]: "scaled g = 0 \<longleftrightarrow> g = 0"
  using scaled_eq[of g 0] by simp

lemma scaled_pos [simp]: "0 < scaled g \<longleftrightarrow> 0 < g"
  using scaled_less[of 0 g] by simp

lemma fval_less_iff: "fval x < fval y \<longleftrightarrow> skey x < skey y"
  using scaled_less[of "mag x" "mag y"] scaled_less[of "mag y" "mag x"]
    scaled_le[of 0 "mag x"] scaled_le[of 0 "mag y"]
  by (auto simp: fval_def skey_def)

lemma fval_le_iff: "fval x \<le> fval y \<longleftrightarrow> skey x \<le> skey y"
  using fval_less_iff[of y x] by linarith

section \<open>Rounding is exact on representable values and monotone\<close>

lemma rne_exact [simp]: "0 < d \<Longrightarrow> rne (q * d) d = q"
  by (simp add: rne_def)

lemma rne_bounds: "n div d \<le> rne n d" "rne n d \<le> n div d + 1"
  by (simp_all add: rne_def Let_def)

lemma rne_mono:
  assumes d: "0 < d" "0 < d'" and le: "n * d' \<le> n' * d"
  shows "rne n d \<le> rne n' d'"
proof -
  define q r q' r' where "q = n div d" and "r = n mod d" and "q' = n' div d'" and "r' = n' mod d'"
  have n: "n = q * d + r" "r < d" and n': "n' = q' * d' + r'" "r' < d'"
    using d by (simp_all add: q_def r_def q'_def r'_def)
  have qq: "q \<le> q'"
  proof (rule ccontr)
    assume "\<not> q \<le> q'"
    then have "Suc q' * (d * d') \<le> q * (d * d')" by (intro mult_right_mono) auto
    also have "\<dots> \<le> n * d'" by (simp add: n algebra_simps)
    also have "\<dots> \<le> n' * d" by (rule le)
    also have "\<dots> < Suc q' * (d * d')" using n' d by (simp add: algebra_simps)
    finally show False by simp
  qed
  show ?thesis
  proof (cases "q = q'")
    case False
    then have "rne n d \<le> q'" using rne_bounds(2)[of n d] qq by (simp add: q_def)
    also have "\<dots> \<le> rne n' d'" using rne_bounds(1) by (simp add: q'_def)
    finally show ?thesis .
  next
    case True
    have rr: "r * d' \<le> r' * d" using le True by (simp add: n n' algebra_simps)
    have "d' < 2 * r'" if "d < 2 * r"
    proof (rule ccontr)
      assume "\<not> d' < 2 * r'"
      then have "2 * r' * d \<le> d' * d" by simp
      then have "2 * (r' * d) \<le> d * d'" by (simp only: ac_simps)
      moreover have "d * d' < 2 * r * d'" using that d by simp
      then have "d * d' < 2 * (r * d')" by (simp only: ac_simps)
      ultimately show False using rr by linarith
    qed
    moreover have "d' \<le> 2 * r'" if "d = 2 * r"
    proof (rule ccontr)
      assume "\<not> d' \<le> 2 * r'"
      then have "2 * r' * d < d' * d" using d by simp
      then show False using rr that by (simp add: algebra_simps)
    qed
    ultimately show ?thesis
      using True unfolding rne_def Let_def q_def[symmetric] r_def[symmetric] q'_def[symmetric] r'_def[symmetric]
      by (cases "d' = 2 * r'") auto
  qed
qed

lemma round_shift_mono: "q \<le> q' \<Longrightarrow> round_shift q \<le> round_shift q'"
  unfolding round_shift_def by (intro diff_le_mono floorlog_mono)

lemma round_shift_upper: "q div 2 ^ round_shift q < 2 ^ 53"
proof -
  have "q < 2 ^ floorlog 2 q" by (cases "q = 0") (auto simp: floorlog_bounds)
  also have "\<dots> \<le> 2 ^ (53 + round_shift q)" by (intro power_increasing) (auto simp: round_shift_def)
  finally show ?thesis by (intro less_mult_imp_div_less) (simp add: power_add)
qed

lemma round_shift_lower:
  assumes "0 < round_shift q" shows "2 ^ 52 \<le> q div 2 ^ round_shift q"
proof -
  have q: "0 < q" using assms by (cases "q = 0") (auto simp: round_shift_def floorlog_def)
  have "2 ^ (52 + round_shift q) = (2::nat) ^ (floorlog 2 q - 1)"
    using assms by (simp add: round_shift_def)
  also have "\<dots> \<le> q" using q floorlog_bounds[of q 2] by simp
  finally show ?thesis by (simp add: less_eq_div_iff_mult_less_eq power_add)
qed

lemma round_mag_mono:
  assumes d: "0 < d" "0 < d'" and le: "n * d' \<le> n' * d"
  shows "round_mag n d \<le> round_mag n' d'"
proof -
  define k k' where "k = round_shift (n div d)" and "k' = round_shift (n' div d')"
  have "n div d * (d * d') \<le> n * d'" by (simp add: div_times_less_eq_dividend flip: mult.assoc)
  also note le
  finally have "(n div d * d') \<le> n'" using d by (simp add: ac_simps)
  then have qq: "n div d \<le> n' div d'" using d by (simp add: less_eq_div_iff_mult_less_eq)
  have kk: "k \<le> k'" unfolding k_def k'_def by (rule round_shift_mono[OF qq])
  show ?thesis
  proof (cases "k = k'")
    case True
    have "rne n (d * 2 ^ k) \<le> rne n' (d' * 2 ^ k)"
      using d le by (intro rne_mono) (auto simp flip: mult.assoc)
    then show ?thesis using True by (simp add: round_mag_def Let_def k_def k'_def)
  next
    case False
    then have k1: "k + 1 \<le> k'" using kk by simp
    have "n div (d * 2 ^ k) < 2 ^ 53"
      using round_shift_upper[of "n div d"] by (simp add: k_def div_mult2_eq)
    then have a: "rne n (d * 2 ^ k) \<le> 2 ^ 53"
      using rne_bounds(2)[of n "d * 2 ^ k"] by linarith
    have "2 ^ 52 \<le> n' div (d' * 2 ^ k')"
      using round_shift_lower[of "n' div d'"] k1 by (simp add: k'_def div_mult2_eq)
    then have b: "2 ^ 52 \<le> rne n' (d' * 2 ^ k')"
      using rne_bounds(1)[of n' "d' * 2 ^ k'"] by linarith
    have "(k + 1) * 2 ^ 52 \<le> k' * 2 ^ 52" using k1 by (rule mult_right_mono) simp
    then have "k * 2 ^ 52 + 2 ^ 53 \<le> k' * 2 ^ 52 + 2 ^ 52" by simp
    then show ?thesis using a b by (simp add: round_mag_def Let_def k_def k'_def)
  qed
qed

lemma round_mag_scaled [simp]: "round_mag (scaled g) 1 = g"
proof -
  define e f where "e = g div 2 ^ 52" and "f = g mod 2 ^ 52"
  have f: "f < 2 ^ 52" by (simp add: f_def)
  have g: "g = e * 2 ^ 52 + f" by (simp add: e_def f_def)
  show ?thesis
  proof (cases e)
    case 0
    then have "g < 2 ^ 52" using f g by simp
    then have "floorlog 2 g \<le> 53" by (intro floorlog_leI) auto
    moreover have "scaled g = g" using \<open>g < 2 ^ 52\<close> by (rule scaled_cases(1))
    ultimately show ?thesis by (simp add: round_mag_def round_shift_def rne_def)
  next
    case (Suc e')
    have s: "scaled g = (2 ^ 52 + f) * 2 ^ e'" unfolding g Suc by (rule scaled_cases(2)[OF f])
    have "floorlog 2 (2 ^ 52 + f) = 53"
      using f floorlog_leI[of "2 ^ 52 + f" 2 53] floorlog_ge_SucI[of 2 52 "2 ^ 52 + f"] by simp
    then have "floorlog 2 (scaled g) = 53 + e'"
      unfolding s by (subst floorlog_power) auto
    then have k: "round_shift (scaled g) = e'" by (simp add: round_shift_def)
    have "rne (scaled g) (2 ^ e') = 2 ^ 52 + f" unfolding s by (rule rne_exact) simp
    then show ?thesis using k g Suc by (simp add: round_mag_def)
  qed
qed

lemmas round_mag_scaled' [simp] = round_mag_scaled [unfolded One_nat_def]

lemma inf_mag_less: "inf_mag < 2 ^ 63"
  by (simp add: inf_mag_def)

lemma round_f64_simps [simp]:
  "mag (round_f64 s n d) = min inf_mag (round_mag n d)"
  "sign_bit (round_f64 s n d) = s"
  "\<not> is_nan (round_f64 s n d)"
  using inf_mag_less by (simp_all add: round_f64_def is_nan_def)

section \<open>Signed rounding and the arithmetic operations\<close>

text \<open>\<open>srnd z\<close> is the key of \<open>z\<close> units rounded to a double.\<close>

definition srnd :: "int \<Rightarrow> int" where
  "srnd z = sgn z * int (min inf_mag (round_mag (nat \<bar>z\<bar>) 1))"

lemma srnd_0 [simp]: "srnd 0 = 0"
  by (simp add: srnd_def)

lemma srnd_minus [simp]: "srnd (- z) = - srnd z"
  by (simp add: srnd_def sgn_minus)

lemma srnd_nonneg: "0 \<le> z \<Longrightarrow> 0 \<le> srnd z"
  by (auto simp: srnd_def sgn_if)

lemma srnd_mono_nonneg: "0 \<le> z \<Longrightarrow> z \<le> z' \<Longrightarrow> srnd z \<le> srnd z'"
proof (cases "z = 0")
  case False
  assume z: "0 \<le> z" "z \<le> z'"
  have "round_mag (nat z) 1 \<le> round_mag (nat z') 1"
    using z by (intro round_mag_mono) (auto simp: nat_le_iff)
  then show ?thesis using z False by (auto simp: srnd_def sgn_if)
qed (simp add: srnd_nonneg)

lemma srnd_mono: "z \<le> z' \<Longrightarrow> srnd z \<le> srnd z'"
proof -
  assume z: "z \<le> z'"
  consider "0 \<le> z" | "z < 0" "0 \<le> z'" | "z' < 0" using z by linarith
  then show ?thesis
  proof cases
    case 1 then show ?thesis using z by (rule srnd_mono_nonneg)
  next
    case 2
    then have "0 \<le> srnd (- z)" "0 \<le> srnd z'" by (simp_all add: srnd_nonneg del: srnd_minus)
    then show ?thesis by simp
  next
    case 3
    then have "srnd (- z') \<le> srnd (- z)" using z by (intro srnd_mono_nonneg) auto
    then show ?thesis by simp
  qed
qed

lemma is_finite_not_nan [simp]: "is_finite x \<Longrightarrow> \<not> is_nan x"
  and is_finite_not_inf [simp]: "is_finite x \<Longrightarrow> \<not> is_inf x"
  by (simp_all add: is_finite_def is_nan_def is_inf_def)

lemma srnd_fval [simp]: "is_finite x \<Longrightarrow> srnd (fval x) = skey x"
  by (auto simp: srnd_def fval_def skey_def is_finite_def sgn_if)

lemma fval_0_iff: "fval x = 0 \<longleftrightarrow> mag x = 0"
  by (simp add: fval_def)

lemma f_add_finite:
  assumes "is_finite x" "is_finite y"
  shows "\<not> is_nan (f_add x y)" "skey (f_add x y) = srnd (fval x + fval y)"
proof -
  let ?s = "fval x + fval y"
  have "f_add x y = (if ?s = 0 then mk_f64 (sign_bit x \<and> sign_bit y) 0
                     else round_f64 (?s < 0) (nat \<bar>?s\<bar>) 1)"
    using assms by (simp add: f_add_def Let_def)
  then show "\<not> is_nan (f_add x y)" "skey (f_add x y) = srnd ?s"
    by (auto simp: is_nan_def skey_def srnd_def sgn_if)
qed

lemma f_neg_simps [simp]:
  "sign_bit (f_neg x) \<longleftrightarrow> \<not> sign_bit x" "mag (f_neg x) = mag x"
  "is_nan (f_neg x) \<longleftrightarrow> is_nan x" "is_finite (f_neg x) \<longleftrightarrow> is_finite x"
  "is_inf (f_neg x) \<longleftrightarrow> is_inf x"
  "skey (f_neg x) = - skey x" "fval (f_neg x) = - fval x"
  using mag_less[of x]
  by (simp_all add: f_neg_def is_nan_def is_finite_def is_inf_def skey_def fval_def)

lemma f_sub_finite:
  assumes "is_finite x" "is_finite y"
  shows "\<not> is_nan (f_sub x y)" "skey (f_sub x y) = srnd (fval x - fval y)"
  using f_add_finite[of x "f_neg y"] assms by (simp_all add: f_sub_def)

lemma f_add_exact:
  assumes "is_finite x" "is_finite y" "is_finite z" "mag z \<noteq> 0" "fval x + fval y = fval z"
  shows "f_add x y = z"
proof -
  have "skey (f_add x y) = skey z" using assms by (simp add: f_add_finite)
  then show ?thesis using assms(4) by (auto simp: f64_eq_iff skey_def split: if_splits)
qed

lemma f_add_zero [simp]: "is_finite x \<Longrightarrow> mag x \<noteq> 0 \<Longrightarrow> mag z = 0 \<Longrightarrow> f_add x z = x"
  by (rule f_add_exact) (auto simp: is_finite_def inf_mag_def fval_def)

lemma f_lt_irrefl [simp]: "\<not> f_lt x x"
  by (simp add: f_lt_def)

lemma f_lt_trans: "f_lt x y \<Longrightarrow> f_lt y z \<Longrightarrow> f_lt x z"
  by (simp add: f_lt_def)

lemma f_lt_le_trans: "f_lt x y \<Longrightarrow> f_le y z \<Longrightarrow> f_lt x z"
  by (simp add: f_lt_def f_le_def)

lemma f_le_lt_trans: "f_le x y \<Longrightarrow> f_lt y z \<Longrightarrow> f_lt x z"
  by (simp add: f_lt_def f_le_def)

lemma f_le_trans: "f_le x y \<Longrightarrow> f_le y z \<Longrightarrow> f_le x z"
  by (simp add: f_le_def)

lemma f_add_increasing:
  assumes "is_finite x" "is_finite e" "0 \<le> skey e"
  shows "f_le x (f_add x e)"
proof -
  have "0 \<le> fval e" using assms(3) by (auto simp: skey_def fval_def split: if_splits)
  then have "srnd (fval x) \<le> srnd (fval x + fval e)" by (intro srnd_mono) simp
  then show ?thesis using assms by (simp add: f_le_def f_add_finite)
qed

lemma not_lt_le: "\<not> is_nan x \<Longrightarrow> \<not> is_nan y \<Longrightarrow> \<not> f_lt x y \<longleftrightarrow> f_le y x"
  by (auto simp: f_lt_def f_le_def)

section \<open>Quotients in the unit interval\<close>

lemma is_finite_skey: "is_finite x \<longleftrightarrow> \<bar>skey x\<bar> < int inf_mag"
  by (auto simp: is_finite_def skey_def)

lemma mag_f_one: "mag f_one = 0x3FF0000000000000" "\<not> sign_bit f_one"
  by (simp_all add: mag_def sign_bit_def f_one_def)

lemma scaled_one: "scaled 0x3FF0000000000000 = 2 ^ 1074"
proof -
  have "scaled (Suc 1022 * 2 ^ 52 + 0) = (2 ^ 52 + 0) * 2 ^ 1022"
    by (rule scaled_cases(2)) simp
  moreover have "Suc 1022 * 2 ^ 52 + 0 = (0x3FF0000000000000 :: nat)" by simp
  ultimately show ?thesis by (simp only: power_add[symmetric]) simp
qed

lemma f_one_finite [simp]: "is_finite f_one"
  by (simp add: is_finite_def mag_f_one inf_mag_def)

lemma f_div_unit:
  assumes x: "is_finite x" "0 \<le> skey x" and y: "is_finite y" "0 < skey y" and le: "skey x \<le> skey y"
  shows "is_finite (f_div x y)" "0 \<le> skey (f_div x y)" "skey (f_div x y) \<le> skey f_one"
proof -
  have my: "mag y \<noteq> 0" "\<not> sign_bit y" using y by (auto simp: skey_def split: if_splits)
  have mx: "mag x \<le> mag y" using x le my by (auto simp: skey_def split: if_splits)
  let ?q = "round_mag (scaled (mag x) * 2 ^ 1074) (scaled (mag y))"
  have div: "f_div x y = round_f64 (sign_bit x) (scaled (mag x) * 2 ^ 1074) (scaled (mag y))"
    using x y my by (simp add: f_div_def Let_def)
  have "?q \<le> round_mag (2 ^ 1074) 1"
    using mx my by (intro round_mag_mono) (auto simp: scaled_le)
  also have "\<dots> = mag f_one" unfolding mag_f_one by (metis round_mag_scaled scaled_one)
  finally have q: "?q \<le> mag f_one" .
  have s: "sign_bit x \<Longrightarrow> ?q = 0"
    using x by (auto simp: skey_def round_mag_def round_shift_def rne_def floorlog_def)
  show "is_finite (f_div x y)" using q by (simp add: div is_finite_def mag_f_one inf_mag_def)
  show "0 \<le> skey (f_div x y)" using s by (auto simp: div skey_def)
  show "skey (f_div x y) \<le> skey f_one" using q by (auto simp: div skey_def mag_f_one)
qed

lemma f_sub_mono_left:
  assumes "is_finite x" "is_finite y" "is_finite z" "skey x \<le> skey y"
  shows "skey (f_sub x z) \<le> skey (f_sub y z)"
  using assms by (simp add: f_sub_finite srnd_mono fval_le_iff[symmetric])

lemma f_sub_nonneg:
  assumes "is_finite x" "is_finite y" "skey y \<le> skey x"
  shows "0 \<le> skey (f_sub x y)"
  using assms by (simp add: f_sub_finite srnd_nonneg fval_le_iff)

section \<open>Square roots\<close>

lemma isqrt_bounds: "isqrt n * isqrt n \<le> n \<and> n < (isqrt n + 1) * (isqrt n + 1)"
proof (induction n rule: isqrt.induct)
  case (1 n)
  show ?case
  proof (cases "n = 0")
    case True
    then show ?thesis by (simp add: isqrt.simps)
  next
    case False
    define s where "s = isqrt (n div 4)"
    have s: "s * s \<le> n div 4" "n div 4 < (s + 1) * (s + 1)" using 1 False by (auto simp: s_def)
    have lo: "2 * s * (2 * s) \<le> n" using s(1) by simp
    have "n div 4 + 1 \<le> (s + 1) * (s + 1)" using s(2) by simp
    then have "n < 4 * ((s + 1) * (s + 1))" by linarith
    then have hi: "n < (2 * s + 2) * (2 * s + 2)" by (simp add: algebra_simps)
    show ?thesis using False lo hi by (subst (1 2 3 4) isqrt.simps) (auto simp: Let_def s_def[symmetric])
  qed
qed

lemma square_le_iff: "a * a \<le> b * (b :: nat) \<longleftrightarrow> a \<le> b"
  by (metis linorder_not_le mult_le_mono mult_strict_mono' zero_le)

lemma square_less_iff: "a * a < b * (b :: nat) \<longleftrightarrow> a < b"
  using square_le_iff[of b a] by (simp add: not_le[symmetric])

lemma isqrt_unique:
  assumes "r * r \<le> n" "n < (r + 1) * (r + 1)"
  shows "isqrt n = r"
proof -
  have "r * r < (isqrt n + 1) * (isqrt n + 1)" "isqrt n * isqrt n < (r + 1) * (r + 1)"
    using assms isqrt_bounds[of n] by (meson le_less_trans)+
  then show ?thesis unfolding square_less_iff by simp
qed

lemma isqrt_mono: "m \<le> n \<Longrightarrow> isqrt m \<le> isqrt n"
  using isqrt_bounds[of m] isqrt_bounds[of n] square_less_iff[of "isqrt m" "isqrt n + 1"] by linarith

lemma isqrt_square [simp]: "isqrt (s * s) = s"
  by (rule isqrt_unique) simp_all

lemma isqrt_div: "isqrt (n div (b * b)) = isqrt n div b" if "0 < b"
proof (rule isqrt_unique)
  let ?q = "isqrt n"
  have "?q div b * b * (?q div b * b) \<le> ?q * ?q" by (intro mult_le_mono) simp_all
  also have "\<dots> \<le> n" using isqrt_bounds by blast
  finally have "?q div b * (?q div b) * (b * b) \<le> n" by (simp only: ac_simps)
  then show "?q div b * (?q div b) \<le> n div (b * b)" using that by (simp add: less_eq_div_iff_mult_less_eq)
  have "?q + 1 \<le> (?q div b + 1) * b"
    using dividend_less_div_times[OF that, of ?q] by simp
  then have "(?q + 1) * (?q + 1) \<le> (?q div b + 1) * b * ((?q div b + 1) * b)" by (intro mult_le_mono)
  then have "n < (?q div b + 1) * (?q div b + 1) * (b * b)"
    using isqrt_bounds[of n] by (simp only: ac_simps) linarith
  then show "n div (b * b) < (?q div b + 1) * (?q div b + 1)" by (rule less_mult_imp_div_less)
qed

lemma four_power: "(4::nat) ^ k = 2 ^ k * 2 ^ k"
  by (simp flip: power_mult_distrib)

text \<open>Magnitude bits of the rounded root of \<open>n\<close>, before the overflow check.\<close>

definition round_sqrt :: "nat \<Rightarrow> nat" where
  "round_sqrt n = (let k = round_shift (isqrt n) in k * 2 ^ 52 + rne_sqrt n k)"

lemma rne_sqrt_bounds: "isqrt n div 2 ^ k \<le> rne_sqrt n k" "rne_sqrt n k \<le> isqrt n div 2 ^ k + 1"
  by (simp_all add: rne_sqrt_def Let_def four_power isqrt_div)

lemma rne_sqrt_mono: "n \<le> n' \<Longrightarrow> rne_sqrt n k \<le> rne_sqrt n' k"
proof -
  assume le: "n \<le> n'"
  define q q' where "q = isqrt (n div 4 ^ k)" and "q' = isqrt (n' div 4 ^ k)"
  have "q \<le> q'" unfolding q_def q'_def by (intro isqrt_mono div_le_mono le)
  moreover have "rne_sqrt n k \<le> q + 1" "q' \<le> rne_sqrt n' k"
    unfolding q_def q'_def by (simp_all add: rne_sqrt_def Let_def)
  moreover have "rne_sqrt n k \<le> rne_sqrt n' k" if eq: "q = q'"
  proof -
    define h where "h = (2 * q + 1) * (2 * q + 1) * 4 ^ k"
    have "rne_sqrt n k = (if h < 4 * n \<or> (h = 4 * n \<and> odd q) then q + 1 else q)"
      "rne_sqrt n' k = (if h < 4 * n' \<or> (h = 4 * n' \<and> odd q) then q + 1 else q)"
      unfolding rne_sqrt_def Let_def q_def[symmetric] q'_def[symmetric] eq[symmetric] h_def by (rule refl)+
    then show ?thesis using le by auto
  qed
  ultimately show ?thesis by (cases "q = q'") linarith+
qed

lemma round_sqrt_mono:
  assumes "n \<le> n'" shows "round_sqrt n \<le> round_sqrt n'"
proof -
  define k k' where "k = round_shift (isqrt n)" and "k' = round_shift (isqrt n')"
  have kk: "k \<le> k'" unfolding k_def k'_def by (intro round_shift_mono isqrt_mono assms)
  show ?thesis
  proof (cases "k = k'")
    case True
    then show ?thesis using rne_sqrt_mono[OF assms] unfolding round_sqrt_def Let_def k_def k'_def by simp
  next
    case False
    have "rne_sqrt n k \<le> 2 ^ 53"
      using rne_sqrt_bounds(2)[of n k] round_shift_upper[of "isqrt n"] unfolding k_def by linarith
    moreover have "2 ^ 52 \<le> rne_sqrt n' k'"
      using rne_sqrt_bounds(1)[of n' k'] round_shift_lower[of "isqrt n'"] False kk unfolding k'_def by linarith
    moreover have "(k + 1) * 2 ^ 52 \<le> k' * 2 ^ 52" using False kk by (intro mult_le_mono1) simp
    ultimately show ?thesis unfolding round_sqrt_def Let_def k_def[symmetric] k'_def[symmetric] by simp
  qed
qed

lemma rne_sqrt_square: "rne_sqrt (s * s) k = rne s (2 ^ k)"
proof -
  define q r b where "q = s div 2 ^ k" and "r = s mod 2 ^ k" and "b = (2::nat) ^ k"
  have s: "s = q * b + r" unfolding q_def r_def b_def by (rule div_mult_mod_eq[symmetric])
  have q': "isqrt (s * s div 4 ^ k) = q" by (simp add: four_power isqrt_div q_def)
  have h: "(2 * q + 1) * (2 * q + 1) * 4 ^ k = ((2 * q + 1) * b) * ((2 * q + 1) * b)"
    by (simp only: four_power b_def ac_simps)
  have s4: "4 * (s * s) = (2 * s) * (2 * s)" by simp
  have "(2 * q + 1) * b < 2 * s \<longleftrightarrow> b < 2 * r" "(2 * q + 1) * b = 2 * s \<longleftrightarrow> b = 2 * r"
    by (auto simp: s algebra_simps)
  moreover have "((2 * q + 1) * b) * ((2 * q + 1) * b) = (2 * s) * (2 * s) \<longleftrightarrow> (2 * q + 1) * b = 2 * s"
    by (metis square_less_iff linorder_neq_iff)
  moreover have "rne_sqrt (s * s) k = (if (2 * q + 1) * b * ((2 * q + 1) * b) < 2 * s * (2 * s)
      \<or> ((2 * q + 1) * b * ((2 * q + 1) * b) = 2 * s * (2 * s) \<and> odd q) then q + 1 else q)"
    unfolding rne_sqrt_def Let_def q' h s4 by (rule refl)
  moreover have "rne s (2 ^ k) = (if b < 2 * r \<or> (2 * r = b \<and> odd q) then q + 1 else q)"
    unfolding rne_def Let_def q_def r_def b_def by (rule refl)
  ultimately show ?thesis unfolding square_less_iff by (simp only: eq_commute[of "2 * r"])
qed

lemma round_sqrt_square: "round_sqrt (s * s) = round_mag s 1"
  by (simp add: round_sqrt_def round_mag_def Let_def rne_sqrt_square)

lemma f_sqrt_pos:
  assumes "is_finite x" "0 < skey x"
  shows "f_sqrt x = mk_f64 False (min inf_mag (round_sqrt (scaled (mag x) * 2 ^ 1074)))"
  using assms by (auto simp: f_sqrt_def round_sqrt_def Let_def skey_def split: if_splits)

lemma skey_sqrt:
  assumes "is_finite x" "0 < skey x"
  shows "skey (f_sqrt x) = int (min inf_mag (round_sqrt (scaled (mag x) * 2 ^ 1074)))"
    and "\<not> is_nan (f_sqrt x)"
proof -
  have "min inf_mag (round_sqrt (scaled (mag x) * 2 ^ 1074)) < 2 ^ 63"
    using inf_mag_less by linarith
  then show "skey (f_sqrt x) = int (min inf_mag (round_sqrt (scaled (mag x) * 2 ^ 1074)))"
    "\<not> is_nan (f_sqrt x)"
    unfolding f_sqrt_pos[OF assms] by (simp_all add: skey_def is_nan_def del: min_less_iff_disj)
qed

lemma f_sqrt_mono:
  assumes "is_finite x" "0 < skey x" "is_finite y" "skey x \<le> skey y"
  shows "skey (f_sqrt x) \<le> skey (f_sqrt y)"
proof -
  have "mag x \<le> mag y" using assms by (auto simp: skey_def split: if_splits)
  then have "round_sqrt (scaled (mag x) * 2 ^ 1074) \<le> round_sqrt (scaled (mag y) * 2 ^ 1074)"
    by (intro round_sqrt_mono mult_le_mono1) (simp add: scaled_le)
  then show ?thesis using assms by (simp add: skey_sqrt min_le_iff_disj)
qed

lemma f_sqrt_ge_one:
  assumes "is_finite x" "skey f_one \<le> skey x"
  shows "is_finite (f_sqrt x)" "skey f_one \<le> skey (f_sqrt x)"
proof -
  let ?m = "scaled (mag x)"
  have pos: "0 < skey x" using assms(2) by (simp add: skey_def mag_f_one)
  have m1: "mag f_one \<le> mag x" "\<not> sign_bit x" using assms(2) by (auto simp: skey_def mag_f_one split: if_splits)
  have one: "scaled (mag f_one) = 2 ^ 1074" unfolding mag_f_one by (rule scaled_one)
  have le: "2 ^ 1074 \<le> ?m" using m1 unfolding one[symmetric] by (simp add: scaled_le)
  have "round_sqrt (?m * 2 ^ 1074) \<le> round_sqrt (?m * ?m)"
    by (intro round_sqrt_mono mult_le_mono2 le)
  then have up: "round_sqrt (?m * 2 ^ 1074) \<le> mag x" unfolding round_sqrt_square round_mag_scaled .
  have "round_sqrt (2 ^ 1074 * 2 ^ 1074) \<le> round_sqrt (?m * 2 ^ 1074)"
    by (intro round_sqrt_mono mult_le_mono1 le)
  then have low: "mag f_one \<le> round_sqrt (?m * 2 ^ 1074)"
    unfolding round_sqrt_square by (metis one round_mag_scaled)
  have k: "skey (f_sqrt x) = int (round_sqrt (?m * 2 ^ 1074))"
    using up assms(1) unfolding skey_sqrt(1)[OF assms(1) pos] by (simp add: is_finite_def)
  show "is_finite (f_sqrt x)" using up assms(1)[unfolded is_finite_def] unfolding is_finite_skey[of "f_sqrt x"] k by linarith
  show "skey f_one \<le> skey (f_sqrt x)" unfolding k using low by (simp add: skey_def mag_f_one)
qed

lemma f_div_pos:
  assumes "is_finite x" "0 \<le> skey x" "\<not> sign_bit x" "is_finite y" "0 < skey y"
  shows "skey (f_div x y) = int (min inf_mag (round_mag (scaled (mag x) * 2 ^ 1074) (scaled (mag y))))"
    "\<not> is_nan (f_div x y)"
proof -
  have my: "mag y \<noteq> 0" "\<not> sign_bit y" using assms by (auto simp: skey_def split: if_splits)
  have div: "f_div x y = round_f64 False (scaled (mag x) * 2 ^ 1074) (scaled (mag y))"
    using assms my by (simp add: f_div_def Let_def)
  show "skey (f_div x y) = int (min inf_mag (round_mag (scaled (mag x) * 2 ^ 1074) (scaled (mag y))))"
    "\<not> is_nan (f_div x y)"
    unfolding div by (simp_all add: skey_def is_nan_def)
qed

lemma f_div_antimono:
  assumes "is_finite x" "0 \<le> skey x" "\<not> sign_bit x" "is_finite y" "0 < skey y" "is_finite z" "skey y \<le> skey z"
  shows "skey (f_div x z) \<le> skey (f_div x y)"
proof -
  have m: "mag y \<le> mag z" "mag y \<noteq> 0" using assms by (auto simp: skey_def split: if_splits)
  have "round_mag (scaled (mag x) * 2 ^ 1074) (scaled (mag z)) \<le> round_mag (scaled (mag x) * 2 ^ 1074) (scaled (mag y))"
    using m by (intro round_mag_mono mult_le_mono2) (auto simp: scaled_le scaled_pos)
  then show ?thesis using assms by (simp add: f_div_pos min_le_iff_disj)
qed

section \<open>Small integers\<close>

lemma scaled_power: "scaled (Suc e * 2 ^ 52) = 2 ^ (52 + e)"
  using scaled_cases(2)[of 0 e] by (simp add: power_add)

lemma round_mag_power: "n \<le> 2 ^ (52 + e) \<Longrightarrow> round_mag n 1 \<le> Suc e * 2 ^ 52"
proof -
  assume "n \<le> 2 ^ (52 + e)"
  then have "round_mag n 1 \<le> round_mag (scaled (Suc e * 2 ^ 52)) 1"
    by (intro round_mag_mono) (simp_all only: scaled_power mult_1_right)
  then show ?thesis by (simp only: round_mag_scaled)
qed

lemma power_bound: "n \<le> 2 ^ k \<Longrightarrow> n * 2 ^ j \<le> (2::nat) ^ (k + j)"
  by (simp add: power_add)

lemma f64_of_nat_props:
  shows "skey (f64_of_nat n) = int (min inf_mag (round_mag (n * 2 ^ 1074) 1))"
    and "\<not> sign_bit (f64_of_nat n)" and "\<not> is_nan (f64_of_nat n)"
  unfolding f64_of_nat_def by (simp_all add: skey_def is_nan_def)

lemma f64_of_nat_mono: "m \<le> n \<Longrightarrow> skey (f64_of_nat m) \<le> skey (f64_of_nat n)"
  unfolding f64_of_nat_props using round_mag_mono[of 1 1 "m * 2 ^ 1074" "n * 2 ^ 1074"]
  by (auto simp: min_le_iff_disj)

lemma f64_of_nat_bound:
  assumes "n \<le> 2 ^ 64"
  shows "mag (f64_of_nat n) \<le> 1087 * 2 ^ 52" "is_finite (f64_of_nat n)"
proof -
  have e: "(64::nat) + 1074 = 52 + 1086" by simp
  have "n * 2 ^ 1074 \<le> 2 ^ (52 + 1086)" using power_bound[OF assms, of 1074] unfolding e .
  then have "round_mag (n * 2 ^ 1074) 1 \<le> Suc 1086 * 2 ^ 52" by (rule round_mag_power)
  then show m: "mag (f64_of_nat n) \<le> 1087 * 2 ^ 52"
    using f64_of_nat_props(1)[of n] f64_of_nat_props(2)[of n] by (simp add: skey_def)
  show "is_finite (f64_of_nat n)" using m by (simp add: is_finite_def inf_mag_def)
qed

text \<open>One plus a count, as the novelty term and the visit terms compute it.\<close>

lemma one_plus_count:
  assumes "n \<le> 2 ^ 64"
  shows "is_finite (f_add f_one (f64_of_nat n))" "skey f_one \<le> skey (f_add f_one (f64_of_nat n))"
proof -
  let ?y = "f64_of_nat n"
  note y = f64_of_nat_bound[OF assms] f64_of_nat_props(2)[of n]
  have "fval ?y = int (scaled (mag ?y))" using y(3) by (simp add: fval_def)
  moreover have "scaled (mag ?y) \<le> scaled (Suc 1086 * 2 ^ 52)" using y(1) by (simp add: scaled_le)
  ultimately have fy: "fval ?y \<le> 2 ^ (52 + 1086)" "0 \<le> fval ?y"
    unfolding scaled_power by (simp_all only: of_nat_0_le_iff) (metis of_nat_le_iff of_nat_numeral of_nat_power)
  have "scaled (mag f_one) = scaled (Suc 1022 * 2 ^ 52)" by (simp add: mag_f_one)
  then have f1: "fval f_one = 2 ^ (52 + 1022)"
    unfolding scaled_power fval_def using mag_f_one(2) by (simp only: if_False of_nat_power of_nat_numeral)
  have "(2::int) ^ (52 + 1022) \<le> 2 ^ (52 + 1086)" by (rule power_increasing) simp_all
  moreover have "(2::int) ^ (52 + 1087) = 2 * 2 ^ (52 + 1086)" by (simp flip: power_Suc)
  ultimately have sum: "fval f_one + fval ?y \<le> 2 ^ (52 + 1087)"
    using fy(1) f1 by linarith
  have "srnd (fval f_one + fval ?y) \<le> srnd (2 ^ (52 + 1087))" by (rule srnd_mono[OF sum])
  also have "(2::int) ^ (52 + 1087) = fval (mk_f64 False (Suc 1087 * 2 ^ 52))"
  proof -
    have "Suc 1087 * 2 ^ 52 < (2::nat) ^ 63" by simp
    from mag_mk[OF this] sign_mk[OF this] show ?thesis
      unfolding fval_def by (simp only: if_False scaled_power of_nat_power of_nat_numeral)
  qed
  also have "srnd \<dots> = int (Suc 1087 * 2 ^ 52)"
    by (subst srnd_fval) (simp_all add: is_finite_def inf_mag_def skey_def)
  finally have up: "skey (f_add f_one ?y) \<le> int (Suc 1087 * 2 ^ 52)"
    using y by (simp add: f_add_finite)
  have "srnd (fval f_one) \<le> srnd (fval f_one + fval ?y)" using fy by (intro srnd_mono) simp
  then show low: "skey f_one \<le> skey (f_add f_one ?y)" using y by (simp add: f_add_finite)
  show "is_finite (f_add f_one ?y)"
    using up low unfolding is_finite_skey by (simp add: inf_mag_def skey_def mag_f_one)
qed

lemma one_plus_count_mono:
  assumes "m \<le> n" "n \<le> 2 ^ 64"
  shows "skey (f_add f_one (f64_of_nat m)) \<le> skey (f_add f_one (f64_of_nat n))"
proof -
  have m: "m \<le> 2 ^ 64" using assms by simp
  have "fval (f64_of_nat m) \<le> fval (f64_of_nat n)"
    using f64_of_nat_mono[OF assms(1)] by (simp add: fval_le_iff)
  then show ?thesis
    using f64_of_nat_bound[OF m] f64_of_nat_bound[OF assms(2)] by (simp add: f_add_finite srnd_mono)
qed

text \<open>The reciprocal of a finite double is not zero.\<close>

lemma f_div_one_pos:
  assumes "is_finite y" "0 < skey y"
  shows "0 < skey (f_div f_one y)"
proof -
  have my: "mag y \<noteq> 0" "mag y \<le> Suc 2046 * 2 ^ 52" using assms by (auto simp: skey_def is_finite_def inf_mag_def split: if_splits)
  have "scaled (mag y) \<le> 2 ^ (52 + 2046)"
    using scaled_le[of "mag y" "Suc 2046 * 2 ^ 52"] my(2) unfolding scaled_power by blast
  also have "\<dots> \<le> 2 ^ (1074 + 1074)" by (rule power_increasing) simp_all
  finally have le: "scaled (mag y) \<le> 2 ^ 1074 * 2 ^ 1074" unfolding power_add .
  have one: "scaled (mag f_one) = 2 ^ 1074" unfolding mag_f_one by (rule scaled_one)
  have "round_mag 1 1 \<le> round_mag (scaled (mag f_one) * 2 ^ 1074) (scaled (mag y))"
    unfolding one using my le by (intro round_mag_mono) (simp_all only: mult_1 mult_1_right zero_less_one scaled_pos)
  moreover have "round_mag 1 1 = 1" using round_mag_scaled[of 1] by (simp add: scaled_def)
  ultimately show ?thesis
    using assms f_div_pos(1)[of f_one y] by (simp add: skey_def mag_f_one inf_mag_def del: power_numeral)
qed

lemma f_zero_simps [simp]: "skey f_zero = 0" "is_finite f_zero" "mag f_zero = 0" "\<not> sign_bit f_zero"
  by (simp_all add: f_zero_def is_finite_def skey_def mag_def sign_bit_def inf_mag_def)

lemma skey_inf [simp]: "skey f_inf = int inf_mag" "skey f_neg_inf = - int inf_mag"
  "\<not> is_nan f_inf" "\<not> is_nan f_neg_inf"
  by (simp_all add: f_inf_def f_neg_inf_def skey_def mag_def sign_bit_def inf_mag_def is_nan_def)

lemma f_abs_simps [simp]: "mag (f_abs x) = mag x" "\<not> sign_bit (f_abs x)" "is_finite (f_abs x) \<longleftrightarrow> is_finite x"
  "skey (f_abs x) = int (mag x)"
  using mag_less[of x] by (simp_all add: f_abs_def is_finite_def skey_def)

section \<open>Signed quotients and bounded differences\<close>

definition quot_mag :: "f64 \<Rightarrow> f64 \<Rightarrow> nat" where
  "quot_mag x y = min inf_mag (round_mag (scaled (mag x) * 2 ^ 1074) (scaled (mag y)))"

lemma skey_div:
  assumes "is_finite x" "is_finite y" "0 < skey y"
  shows "skey (f_div x y) = (if sign_bit x then - int (quot_mag x y) else int (quot_mag x y))"
    "\<not> is_nan (f_div x y)" "sign_bit (f_div x y) = sign_bit x" "mag (f_div x y) = quot_mag x y"
proof -
  have y: "\<not> sign_bit y" "mag y \<noteq> 0" using assms(3) by (auto simp: skey_def split: if_splits)
  have div: "f_div x y = round_f64 (sign_bit x) (scaled (mag x) * 2 ^ 1074) (scaled (mag y))"
    using assms(1,2) y by (simp add: f_div_def Let_def)
  show "mag (f_div x y) = quot_mag x y" "sign_bit (f_div x y) = sign_bit x"
    "\<not> is_nan (f_div x y)"
    unfolding div quot_mag_def by (rule round_f64_simps)+
  then show "skey (f_div x y) = (if sign_bit x then - int (quot_mag x y) else int (quot_mag x y))"
    by (simp only: skey_def)
qed

lemma quot_mag_0: "mag x = 0 \<Longrightarrow> quot_mag x y = 0"
  by (simp add: quot_mag_def round_mag_def round_shift_def rne_def floorlog_def)

lemma quot_mag_mono: "0 < mag y \<Longrightarrow> mag x \<le> mag x' \<Longrightarrow> quot_mag x y \<le> quot_mag x' y"
  unfolding quot_mag_def by (intro min.mono round_mag_mono order_refl) (simp_all add: scaled_le)

lemma quot_mag_self: "0 < mag y \<Longrightarrow> mag x = mag y \<Longrightarrow> quot_mag x y = mag f_one"
proof -
  assume y: "0 < mag y" and x: "mag x = mag y"
  have "round_mag (scaled (mag y) * 2 ^ 1074) (scaled (mag y)) = round_mag (2 ^ 1074) 1"
    using y by (intro antisym round_mag_mono) (simp_all add: mult.commute)
  also have "\<dots> = mag f_one"
    using round_mag_scaled[of "mag f_one"] unfolding mag_f_one scaled_one .
  finally show ?thesis unfolding quot_mag_def x by (simp add: mag_f_one inf_mag_def)
qed

lemma f_div_mono:
  assumes "is_finite x" "is_finite x'" "is_finite y" "0 < skey y" "skey x \<le> skey x'"
  shows "skey (f_div x y) \<le> skey (f_div x' y)"
proof -
  have "0 < mag y" using assms(4) by (auto simp: skey_def split: if_splits)
  note mono = quot_mag_mono[OF this]
  show ?thesis
    unfolding skey_div(1)[OF assms(1,3,4)] skey_div(1)[OF assms(2,3,4)]
    using assms(5) mono[of x x'] mono[of x' x] quot_mag_0[of x y] quot_mag_0[of x' y]
    by (cases "sign_bit x"; cases "sign_bit x'"; cases "mag x = 0"; cases "mag x' = 0") (simp_all add: skey_def)
qed

lemma f_div_le_one:
  assumes "is_finite x" "is_finite y" "0 < skey y" "mag x \<le> mag y"
  shows "\<bar>skey (f_div x y)\<bar> \<le> skey f_one" "is_finite (f_div x y)"
proof -
  have "0 < mag y" using assms(3) by (auto simp: skey_def split: if_splits)
  then have "quot_mag x y \<le> mag f_one"
    using quot_mag_mono[of y x y] quot_mag_self[of y y] assms(4) by simp
  then show le: "\<bar>skey (f_div x y)\<bar> \<le> skey f_one"
    using skey_div(1)[OF assms(1-3)] mag_f_one(2) by (simp add: skey_def)
  have "skey f_one < int inf_mag" by (simp add: skey_def mag_f_one inf_mag_def)
  with le show "is_finite (f_div x y)" unfolding is_finite_skey by linarith
qed

lemma fval_unit: "\<bar>skey x\<bar> \<le> skey f_one \<Longrightarrow> \<bar>fval x\<bar> \<le> 2 ^ 1074"
proof -
  assume "\<bar>skey x\<bar> \<le> skey f_one"
  then have "mag x \<le> mag f_one" by (simp add: skey_def mag_f_one split: if_splits)
  then have "scaled (mag x) \<le> 2 ^ 1074" unfolding mag_f_one scaled_one[symmetric] scaled_le .
  then have "int (scaled (mag x)) \<le> int (2 ^ 1074)" by (rule zle_int[THEN iffD2])
  then have "int (scaled (mag x)) \<le> 2 ^ 1074" by (simp only: of_nat_power of_nat_numeral)
  moreover have "\<bar>fval x\<bar> = int (scaled (mag x))" by (simp add: fval_def)
  ultimately show ?thesis by (simp only:)
qed

lemma srnd_two: "srnd (2 * 2 ^ 1074) = int (Suc 1023 * 2 ^ 52)"
proof -
  have "(2::nat) * 2 ^ 1074 = 2 ^ (52 + 1023)" by (simp only: power_Suc[symmetric]) simp
  then have n: "nat \<bar>2 * 2 ^ 1074 :: int\<bar> = scaled (Suc 1023 * 2 ^ 52)"
    unfolding scaled_power by (simp add: nat_mult_distrib nat_power_eq)
  have "0 < (2 * 2 ^ 1074 :: int)" by simp
  then show ?thesis unfolding srnd_def n round_mag_scaled by (simp add: inf_mag_def)
qed

lemma f_sub_unit_finite:
  assumes "is_finite x" "is_finite y" "\<bar>skey x\<bar> \<le> skey f_one" "\<bar>skey y\<bar> \<le> skey f_one"
  shows "is_finite (f_sub x y)"
proof -
  have b: "fval x - fval y \<le> 2 * 2 ^ 1074" "- (2 * 2 ^ 1074) \<le> fval x - fval y"
    using fval_unit[OF assms(3)] fval_unit[OF assms(4)] by linarith+
  have "\<bar>skey (f_sub x y)\<bar> \<le> srnd (2 * 2 ^ 1074)"
    unfolding f_sub_finite(2)[OF assms(1,2)]
    using srnd_mono[OF b(1)] srnd_mono[OF b(2)] unfolding srnd_minus by linarith
  also have "\<dots> < int inf_mag" unfolding srnd_two by (simp add: inf_mag_def)
  finally show ?thesis unfolding is_finite_skey .
qed

section \<open>Integers up to \<open>2 ^ 53\<close> are exact\<close>

lemma integer_scaled:
  assumes "n \<le> 2 ^ 53"
  obtains g where "scaled g = n * 2 ^ 1074" "g < inf_mag"
proof (cases "n = 0 \<or> n = 2 ^ 53")
  case True
  then show ?thesis
  proof
    assume "n = 0" then show ?thesis using that[of 0] by (simp add: inf_mag_def)
  next
    assume n: "n = 2 ^ 53"
    have "scaled (Suc 1075 * 2 ^ 52) = n * 2 ^ 1074"
      unfolding n scaled_power power_add[symmetric] by simp
    then show ?thesis by (rule that) (simp add: inf_mag_def)
  qed
next
  case False
  then have n: "0 < n" "n < 2 ^ 53" using assms by auto
  define l where "l = floorlog 2 n"
  have l: "2 ^ (l - 1) \<le> n" "n < 2 ^ l" "0 < l"
    using floorlog_bounds[of n 2] n(1) by (cases "floorlog 2 n"; auto simp: l_def)+
  have l53: "l \<le> 53"
  proof (rule ccontr)
    assume "\<not> l \<le> 53"
    then have "(2::nat) ^ 53 \<le> 2 ^ (l - 1)" by (intro power_increasing) auto
    with l(1) n(2) show False by linarith
  qed
  define m where "m = n * 2 ^ (53 - l)"
  have "2 ^ (l - 1) * 2 ^ (53 - l) \<le> m" "m < 2 ^ l * 2 ^ (53 - l)"
    unfolding m_def using l by (intro mult_le_mono1 mult_less_mono1; simp)+
  moreover have "(2::nat) ^ (l - 1) * 2 ^ (53 - l) = 2 ^ 52" "(2::nat) ^ l * 2 ^ (53 - l) = 2 ^ 53"
    using l(3) l53 by (simp_all only: power_add[symmetric]) simp_all
  ultimately have m: "2 ^ 52 \<le> m" "m < 2 ^ 53" by simp_all
  define e where "e = 1021 + l"
  have "53 - l + e = 1074" using l53 by (simp add: e_def)
  then have "m * 2 ^ e = n * 2 ^ 1074" unfolding m_def by (simp only: mult.assoc power_add[symmetric])
  moreover have "scaled (Suc e * 2 ^ 52 + (m - 2 ^ 52)) = (2 ^ 52 + (m - 2 ^ 52)) * 2 ^ e"
    using m(2) by (intro scaled_cases(2)) simp
  ultimately have "scaled (Suc e * 2 ^ 52 + (m - 2 ^ 52)) = n * 2 ^ 1074" using m(1) by simp
  then show ?thesis by (rule that) (use m l53 in \<open>simp add: e_def inf_mag_def\<close>)
qed

lemma f64_of_nat_exact:
  assumes "n \<le> 2 ^ 53"
  shows "fval (f64_of_nat n) = int n * 2 ^ 1074" "scaled (mag (f64_of_nat n)) = n * 2 ^ 1074"
proof -
  obtain g where g: "scaled g = n * 2 ^ 1074" "g < inf_mag" using integer_scaled[OF assms] .
  have "skey (f64_of_nat n) = int g"
    unfolding f64_of_nat_props(1) g(1)[symmetric] round_mag_scaled using g(2) by simp
  then have "mag (f64_of_nat n) = g" using f64_of_nat_props(2)[of n] by (simp add: skey_def)
  then show m: "scaled (mag (f64_of_nat n)) = n * 2 ^ 1074" using g(1) by simp
  show "fval (f64_of_nat n) = int n * 2 ^ 1074"
    using f64_of_nat_props(2)[of n] unfolding fval_def m by simp
qed

section \<open>Magnitudes below a power of two\<close>

text \<open>\<open>mag_le e x\<close>: the magnitude of \<open>x\<close> is at most \<open>2 ^ (e - 1022)\<close>.\<close>

definition mag_le :: "nat \<Rightarrow> f64 \<Rightarrow> bool" where
  "mag_le e x \<longleftrightarrow> mag x \<le> Suc e * 2 ^ 52"

lemma mag_le_finite: "mag_le e x \<Longrightarrow> e \<le> 2044 \<Longrightarrow> is_finite x"
  by (simp add: mag_le_def is_finite_def inf_mag_def)

lemma mag_le_mono: "mag_le e x \<Longrightarrow> e \<le> e' \<Longrightarrow> mag_le e' x"
  unfolding mag_le_def by (erule order_trans) (rule mult_le_mono1, simp)

lemma mag_le_scaled: "mag_le e x \<Longrightarrow> scaled (mag x) \<le> 2 ^ (52 + e)"
  unfolding mag_le_def scaled_power[symmetric] scaled_le .

lemma mag_le_key: "\<bar>skey x\<bar> \<le> skey y \<Longrightarrow> mag y = Suc e * 2 ^ 52 \<Longrightarrow> mag_le e x"
  unfolding mag_le_def by (auto simp: skey_def split: if_splits)

lemma mag_le_one: "\<bar>skey x\<bar> \<le> skey f_one \<Longrightarrow> mag_le 1022 x"
  by (rule mag_le_key, assumption) (simp add: mag_f_one)

lemma round_mag_quot:
  assumes "n \<le> 2 ^ (52 + e) * d" "0 < d"
  shows "round_mag n d \<le> Suc e * 2 ^ 52"
proof -
  have "round_mag n d \<le> round_mag (scaled (Suc e * 2 ^ 52)) 1"
    using assms unfolding scaled_power by (intro round_mag_mono) simp_all
  then show ?thesis unfolding round_mag_scaled .
qed

lemma mag_le_mul:
  assumes "mag_le e x" "mag_le e' y" "e \<le> 2044" "e' \<le> 2044" "1022 \<le> e + e'"
  shows "mag_le (e + e' - 1022) (f_mul x y)"
proof -
  have fin: "is_finite x" "is_finite y" using mag_le_finite assms by auto
  have e: "52 + e + (52 + e') = 52 + (e + e' - 1022) + 1074" using assms(5) by simp
  have "scaled (mag x) * scaled (mag y) \<le> 2 ^ (52 + e) * 2 ^ (52 + e')"
    by (rule mult_le_mono[OF mag_le_scaled[OF assms(1)] mag_le_scaled[OF assms(2)]])
  also have "\<dots> = 2 ^ (52 + (e + e' - 1022)) * 2 ^ 1074" unfolding power_add[symmetric] e ..
  finally have "round_mag (scaled (mag x) * scaled (mag y)) (2 ^ 1074) \<le> Suc (e + e' - 1022) * 2 ^ 52"
    by (intro round_mag_quot) simp_all
  moreover have "mag (f_mul x y) = min inf_mag (round_mag (scaled (mag x) * scaled (mag y)) (2 ^ 1074))"
    using fin by (simp add: f_mul_def Let_def)
  ultimately show ?thesis unfolding mag_le_def by linarith
qed

lemma mag_le_add:
  assumes "mag_le e x" "mag_le e y" "e \<le> 2044"
  shows "mag_le (Suc e) (f_add x y)"
proof -
  have fin: "is_finite x" "is_finite y" using mag_le_finite assms by auto
  have "nat \<bar>fval x + fval y\<bar> \<le> scaled (mag x) + scaled (mag y)"
    unfolding fval_def by (simp split: if_splits) linarith
  also have "\<dots> \<le> 2 ^ (52 + e) + 2 ^ (52 + e)"
    by (rule add_mono[OF mag_le_scaled[OF assms(1)] mag_le_scaled[OF assms(2)]])
  also have "\<dots> = 2 ^ (52 + Suc e)" by (simp only: add_Suc_right power_Suc mult_2)
  finally have "nat \<bar>fval x + fval y\<bar> \<le> 2 ^ (52 + Suc e)" .
  then have "round_mag (nat \<bar>fval x + fval y\<bar>) 1 \<le> Suc (Suc e) * 2 ^ 52" by (rule round_mag_power)
  then have "int (min inf_mag (round_mag (nat \<bar>fval x + fval y\<bar>) 1)) \<le> int (Suc (Suc e) * 2 ^ 52)" by linarith
  then have "\<bar>srnd (fval x + fval y)\<bar> \<le> int (Suc (Suc e) * 2 ^ 52)" unfolding srnd_def abs_mult abs_sgn_eq by auto
  then have "\<bar>skey (f_add x y)\<bar> \<le> int (Suc (Suc e) * 2 ^ 52)" unfolding f_add_finite(2)[OF fin] .
  then show ?thesis unfolding mag_le_def by (auto simp: skey_def split: if_splits)
qed

lemma mag_le_sub: "mag_le e x \<Longrightarrow> mag_le e y \<Longrightarrow> e \<le> 2044 \<Longrightarrow> mag_le (Suc e) (f_sub x y)"
  unfolding f_sub_def by (rule mag_le_add) (simp_all add: mag_le_def)

text \<open>A product with a factor in the unit interval does not exceed the other factor.\<close>

lemma f_mul_unit:
  assumes "is_finite x" "is_finite q" "\<bar>skey q\<bar> \<le> skey f_one"
  shows "mag (f_mul x q) \<le> mag x" "\<not> is_nan (f_mul x q)"
proof -
  have "mag q \<le> mag f_one" using assms(3) by (auto simp: skey_def mag_f_one split: if_splits)
  then have "scaled (mag q) \<le> 2 ^ 1074" unfolding mag_f_one scaled_one[symmetric] scaled_le .
  then have "scaled (mag x) * scaled (mag q) * 1 \<le> scaled (mag x) * 2 ^ 1074" by (simp only: mult_le_mono2 mult_1_right)
  then have "round_mag (scaled (mag x) * scaled (mag q)) (2 ^ 1074) \<le> round_mag (scaled (mag x)) 1"
    by (intro round_mag_mono) simp_all
  moreover have m: "f_mul x q = round_f64 (sign_bit x \<noteq> sign_bit q) (scaled (mag x) * scaled (mag q)) (2 ^ 1074)"
    using assms by (simp add: f_mul_def Let_def)
  ultimately show "mag (f_mul x q) \<le> mag x" unfolding m round_mag_scaled by simp
  show "\<not> is_nan (f_mul x q)" unfolding m by simp
qed

text \<open>The root of a value of at most \<open>y \<ge> 1\<close> does not exceed \<open>y\<close>.\<close>

lemma f_sqrt_le_self:
  assumes "is_finite y" "skey f_one \<le> skey y"
  shows "skey (f_sqrt y) \<le> skey y"
proof -
  have pos: "0 < skey y" "\<not> sign_bit y" using assms(2) by (auto simp: skey_def mag_f_one split: if_splits)
  have "mag f_one \<le> mag y" using assms(2) pos(2) by (simp add: skey_def mag_f_one)
  then have "2 ^ 1074 \<le> scaled (mag y)" unfolding mag_f_one scaled_one[symmetric] scaled_le .
  then have "scaled (mag y) * 2 ^ 1074 \<le> scaled (mag y) * scaled (mag y)" by (rule mult_le_mono2)
  then have "round_sqrt (scaled (mag y) * 2 ^ 1074) \<le> round_sqrt (scaled (mag y) * scaled (mag y))"
    by (rule round_sqrt_mono)
  then have "round_sqrt (scaled (mag y) * 2 ^ 1074) \<le> mag y" unfolding round_sqrt_square round_mag_scaled .
  moreover have "skey y = int (mag y)" using pos(2) by (simp add: skey_def)
  ultimately show ?thesis unfolding skey_sqrt(1)[OF assms(1) pos(1)] by linarith
qed

lemma f_sqrt_bound:
  assumes "is_finite x" "0 \<le> skey x" "skey x \<le> skey y" "is_finite y" "skey f_one \<le> skey y"
  shows "\<bar>skey (f_sqrt x)\<bar> \<le> skey y"
proof (cases "skey x = 0")
  case True
  then have "mag x = 0" by (auto simp: skey_def split: if_splits)
  then have "f_sqrt x = x" using assms(1) by (simp add: f_sqrt_def)
  then show ?thesis using True assms(3) by simp
next
  case False
  then have pos: "0 < skey x" using assms(2) by simp
  have "skey (f_sqrt x) \<le> skey (f_sqrt y)" by (rule f_sqrt_mono[OF assms(1) pos assms(4,3)])
  also have "\<dots> \<le> skey y" by (rule f_sqrt_le_self[OF assms(4,5)])
  finally show ?thesis using skey_sqrt(1)[OF assms(1) pos] by linarith
qed

lemma f_div_ge_one:
  assumes "is_finite x" "0 \<le> skey x" "is_finite y" "skey f_one \<le> skey y"
  shows "0 \<le> skey (f_div x y)" "skey (f_div x y) \<le> skey x" "is_finite (f_div x y)"
proof -
  have pos: "0 < skey y" "mag f_one \<le> mag y" using assms(4) by (auto simp: skey_def mag_f_one split: if_splits)
  have "2 ^ 1074 \<le> scaled (mag y)" using pos(2) unfolding mag_f_one scaled_one[symmetric] scaled_le .
  then have "scaled (mag x) * 2 ^ 1074 * 1 \<le> scaled (mag x) * scaled (mag y)" by (simp only: mult_le_mono2 mult_1_right)
  then have "round_mag (scaled (mag x) * 2 ^ 1074) (scaled (mag y)) \<le> round_mag (scaled (mag x)) 1"
    using pos(2) by (intro round_mag_mono) (simp_all add: mag_f_one)
  then have q: "quot_mag x y \<le> mag x" unfolding round_mag_scaled quot_mag_def by (rule min.coboundedI2)
  have s: "sign_bit x \<Longrightarrow> mag x = 0" using assms(2) by (auto simp: skey_def)
  note div = skey_div[OF assms(1,3) pos(1)]
  show "0 \<le> skey (f_div x y)" "skey (f_div x y) \<le> skey x"
    using q s unfolding div(1) by (auto simp: skey_def)
  then show "is_finite (f_div x y)" using assms(1) unfolding is_finite_skey by linarith
qed

end
