(* ===== verification/Types.thy ===== *)
theory Types
  imports Float64 "HOL-Library.List_Lexorder"
begin

text \<open>
  The shared value types of the search core and the experiment configuration with its
  validation (\<open>crates/orch-core/src/types.rs\<close> and \<open>config_rejections.rs\<close>). Newtypes are
  one-constructor datatypes; the ones the code sorts by carry the derived order as a
  \<open>linorder\<close> instance. Configuration structs are records with the source's fields.
\<close>

section \<open>Identifiers and digests\<close>

datatype node_id = NodeId (node_id_get: u64)
datatype snapshot_ref = SnapshotRef (snapshot_bytes: "u8 list")
datatype state_hash = StateHash (state_hash_bytes: "u8 list")
datatype cell_key = CellKey (cell_key_get: u64)
datatype stage = Stage (stage_get: u16)
datatype frame_count = FrameCount (frame_count_get: u32)
datatype guest_instructions = GuestInstructions (guest_instructions_get: u64)

definition ROOT :: node_id where "ROOT = NodeId 0"

definition node_id_is_root :: "node_id \<Rightarrow> bool" where
  "node_id_is_root i \<longleftrightarrow> node_id_get i = node_id_get ROOT"

definition stage_none :: stage where "stage_none = Stage 0"

instantiation node_id :: linorder
begin
definition less_eq_node_id :: "node_id \<Rightarrow> node_id \<Rightarrow> bool" where
  "less_eq_node_id a b \<longleftrightarrow> node_id_get a \<le> node_id_get b"
definition less_node_id :: "node_id \<Rightarrow> node_id \<Rightarrow> bool" where
  "less_node_id a b \<longleftrightarrow> node_id_get a < node_id_get b"
instance
  by standard (auto simp: less_eq_node_id_def less_node_id_def node_id.expand)
end

instantiation cell_key :: linorder
begin
definition less_eq_cell_key :: "cell_key \<Rightarrow> cell_key \<Rightarrow> bool" where
  "less_eq_cell_key a b \<longleftrightarrow> cell_key_get a \<le> cell_key_get b"
definition less_cell_key :: "cell_key \<Rightarrow> cell_key \<Rightarrow> bool" where
  "less_cell_key a b \<longleftrightarrow> cell_key_get a < cell_key_get b"
instance
  by standard (auto simp: less_eq_cell_key_def less_cell_key_def cell_key.expand)
end

instantiation stage :: linorder
begin
definition less_eq_stage :: "stage \<Rightarrow> stage \<Rightarrow> bool" where
  "less_eq_stage a b \<longleftrightarrow> stage_get a \<le> stage_get b"
definition less_stage :: "stage \<Rightarrow> stage \<Rightarrow> bool" where
  "less_stage a b \<longleftrightarrow> stage_get a < stage_get b"
instance
  by standard (auto simp: less_eq_stage_def less_stage_def stage.expand)
end

text \<open>Byte arrays compare lexicographically.\<close>

instantiation state_hash :: linorder
begin
definition less_eq_state_hash :: "state_hash \<Rightarrow> state_hash \<Rightarrow> bool" where
  "less_eq_state_hash a b \<longleftrightarrow> state_hash_bytes a \<le> state_hash_bytes b"
definition less_state_hash :: "state_hash \<Rightarrow> state_hash \<Rightarrow> bool" where
  "less_state_hash a b \<longleftrightarrow> state_hash_bytes a < state_hash_bytes b"
instance
  by standard (auto simp: less_eq_state_hash_def less_state_hash_def state_hash.expand)
end

section \<open>Finite floats, scores and novelties\<close>

datatype non_finite_float_error = NonFiniteFloatError (nff_value: f64)

datatype finite_f64 = FiniteF64 (finite_get: f64)

text \<open>\<open>FiniteF64::new\<close>: refuses NaN and infinities, and stores \<open>+0.0\<close> for \<open>-0.0\<close>.\<close>

definition finite_new :: "f64 \<Rightarrow> (non_finite_float_error, finite_f64) res" where
  "finite_new v =
     (if \<not> is_finite v then Err (NonFiniteFloatError v)
      else let normalized = (if f_eq v f_zero then f_zero else v) in Ok (FiniteF64 normalized))"

text \<open>The derived equality is equality of bits; \<open>cmp\<close> is \<open>total_cmp\<close>.\<close>

instantiation finite_f64 :: linorder
begin
definition less_eq_finite_f64 :: "finite_f64 \<Rightarrow> finite_f64 \<Rightarrow> bool" where
  "less_eq_finite_f64 a b \<longleftrightarrow> total_key (finite_get a) \<le> total_key (finite_get b)"
definition less_finite_f64 :: "finite_f64 \<Rightarrow> finite_f64 \<Rightarrow> bool" where
  "less_finite_f64 a b \<longleftrightarrow> total_key (finite_get a) < total_key (finite_get b)"
instance
  by standard
    (auto simp: less_eq_finite_f64_def less_finite_f64_def total_key_def f64_eq_iff
      intro!: finite_f64.expand split: if_splits)
end

datatype score = Score (score_inner: finite_f64)
datatype novelty = Novelty (novelty_inner: finite_f64)

definition score_new :: "f64 \<Rightarrow> (non_finite_float_error, score) res" where
  "score_new v = bind_res (finite_new v) (\<lambda>x. Ok (Score x))"

definition score_get :: "score \<Rightarrow> f64" where
  "score_get s = finite_get (score_inner s)"

definition novelty_new :: "f64 \<Rightarrow> (non_finite_float_error, novelty) res" where
  "novelty_new v = bind_res (finite_new v) (\<lambda>x. Ok (Novelty x))"

definition novelty_get :: "novelty \<Rightarrow> f64" where
  "novelty_get s = finite_get (novelty_inner s)"

text \<open>
  What the private field guarantees: every \<open>FiniteF64\<close> outside the module was built by
  \<open>new\<close>.
\<close>

definition finite_ok :: "finite_f64 \<Rightarrow> bool" where
  "finite_ok x \<longleftrightarrow> is_finite (finite_get x) \<and> (mag (finite_get x) = 0 \<longrightarrow> \<not> sign_bit (finite_get x))"

definition score_ok :: "score \<Rightarrow> bool" where
  "score_ok s \<longleftrightarrow> finite_ok (score_inner s)"

section \<open>Enumerations\<close>

datatype node_status = Frontier | Expanded | Pruned | Goal
datatype prune_action = Exhausted | Drop
datatype on_goal = OnGoalStop | OnGoalContinue
datatype policy_kind = Softmax | Ucb | Staged
datatype sched_mode = Fast | Deterministic
datatype discard_reason = Duplicate | Regression | PruneDrop
datatype commit_disposition = Keep | Discard discard_reason | PrunedExhausted
datatype frontier_evict_reason = MaxVisits | AllDuplicateExpansions

section \<open>Configuration\<close>

record budgets =
  max_nodes :: u64
  max_wall_clock_s :: u64
  max_guest_instructions :: u64
  max_expansions :: u64

definition budgets_default :: budgets where
  "budgets_default = \<lparr>max_nodes = 1000000, max_wall_clock_s = 86400,
     max_guest_instructions = 0, max_expansions = 0\<rparr>"

record staged_config =
  inner :: policy_kind
  epsilon_regress :: f64

definition staged_config_default :: staged_config where
  "staged_config_default = \<lparr>inner = Softmax, epsilon_regress = f64_lit 5 100\<rparr>"

record selection_config =
  sel_policy :: policy_kind
  alpha :: f64
  beta :: f64
  gamma :: f64
  delta :: f64
  temperature :: f64
  ucb_c :: f64
  staged :: staged_config
  max_visits_per_node :: u32
  exhaust_after_dup_expansions :: u32

definition selection_config_default :: selection_config where
  "selection_config_default = \<lparr>sel_policy = Softmax, alpha = f64_lit 1 1, beta = f64_lit 5 10,
     gamma = f64_lit 3 10, delta = f64_lit 1 10, temperature = f64_lit 1 1, ucb_c = f64_lit 14 10,
     staged = staged_config_default, max_visits_per_node = 64, exhaust_after_dup_expansions = 8\<rparr>"

record burst_config =
  k_per_expansion :: u32
  base_burst_len_frames :: u32
  max_burst_len_frames :: u32
  max_guest_instructions_per_job :: u64

definition burst_config_default :: burst_config where
  "burst_config_default = \<lparr>k_per_expansion = 16, base_burst_len_frames = 120,
     max_burst_len_frames = 600, max_guest_instructions_per_job = 0\<rparr>"

record ladder_config =
  burst_len_factor :: f64
  temp_factor :: f64
  macro_weight_hot :: f64
  backtrack_kappa :: f64
  backtrack_depth_quantile :: f64
  radius_factor :: f64
  max_level :: u32

definition ladder_config_default :: ladder_config where
  "ladder_config_default = \<lparr>burst_len_factor = f64_lit 15 10, temp_factor = f64_lit 175 100,
     macro_weight_hot = f64_lit 5 10, backtrack_kappa = f64_lit 1 1,
     backtrack_depth_quantile = f64_lit 5 10, radius_factor = f64_lit 2 1, max_level = 4\<rparr>"

record plateau_config =
  window_n :: u32
  epsilon_s :: f64
  ladder :: ladder_config

definition plateau_config_default :: plateau_config where
  "plateau_config_default = \<lparr>window_n = 200, epsilon_s = f64_lit 1 1000,
     ladder = ladder_config_default\<rparr>"

record scheduling_config =
  sched_mode :: sched_mode
  max_inflight_batches :: u32
  job_timeout_s :: u32
  retry_max :: u32
  retry_backoff_ms :: u32
  hypervisor_endpoints :: "string list"
  allow_class_mismatch :: bool

definition scheduling_config_default :: scheduling_config where
  "scheduling_config_default = \<lparr>sched_mode = Fast, max_inflight_batches = 2, job_timeout_s = 120,
     retry_max = 3, retry_backoff_ms = 250, hypervisor_endpoints = [], allow_class_mismatch = False\<rparr>"

record checkpoint_config =
  every_commits :: u32
  every_seconds :: u32

definition checkpoint_config_default :: checkpoint_config where
  "checkpoint_config_default = \<lparr>every_commits = 64, every_seconds = 30\<rparr>"

record experiment_config =
  version :: u32
  seed :: u64
  workload_image_ref :: string
  feature_map_ref :: string
  scoring_program_ref :: string
  synth_config_ref :: string
  macro_pack_refs :: "string list"
  budgets :: budgets
  selection :: selection_config
  burst :: burst_config
  plateau :: plateau_config
  scheduling :: scheduling_config
  checkpoint :: checkpoint_config
  prune_action :: prune_action
  on_goal :: on_goal
  decoded_features :: "string list"

definition EXPERIMENT_CONFIG_VERSION :: u32 where "EXPERIMENT_CONFIG_VERSION = 1"

definition experiment_config_new ::
  "u64 \<Rightarrow> string \<Rightarrow> string \<Rightarrow> string \<Rightarrow> string \<Rightarrow> experiment_config" where
  "experiment_config_new sd w f s y = \<lparr>version = EXPERIMENT_CONFIG_VERSION, seed = sd,
     workload_image_ref = w, feature_map_ref = f, scoring_program_ref = s, synth_config_ref = y,
     macro_pack_refs = [], budgets = budgets_default, selection = selection_config_default,
     burst = burst_config_default, plateau = plateau_config_default,
     scheduling = scheduling_config_default, checkpoint = checkpoint_config_default,
     prune_action = Exhausted, on_goal = OnGoalStop, decoded_features = []\<rparr>"

section \<open>Validation\<close>

datatype config_error =
    InvalidVersion u32
  | MissingRequiredField string
  | OutOfRange string
  | UnknownEnumValue string
  | InvalidStagedInnerPolicy
  | DecodedFeatureNotInFeatureMap string

definition missing_required_field :: "string \<Rightarrow> string" where
  "missing_required_field f = ''missing required field '' @ f"

definition field_out_of_range :: "string \<Rightarrow> string" where
  "field_out_of_range f = ''field out of range '' @ f"

definition unknown_enum_value :: "string \<Rightarrow> string" where
  "unknown_enum_value f = ''unknown enum value '' @ f"

definition invalid_config_version :: "u32 \<Rightarrow> string" where
  "invalid_config_version v = ''invalid config version '' @ show_nat (unat v)"

definition INVALID_STAGED_INNER_POLICY :: string where
  "INVALID_STAGED_INNER_POLICY = ''staged inner policy cannot be staged''"

definition decoded_feature_not_in_feature_map :: "string \<Rightarrow> string" where
  "decoded_feature_not_in_feature_map n = ''decoded feature not in feature_map '' @ n"

fun config_error_display :: "config_error \<Rightarrow> string" where
  "config_error_display (InvalidVersion v) = invalid_config_version v"
| "config_error_display (MissingRequiredField f) = missing_required_field f"
| "config_error_display (OutOfRange f) = field_out_of_range f"
| "config_error_display (UnknownEnumValue f) = unknown_enum_value f"
| "config_error_display InvalidStagedInnerPolicy = INVALID_STAGED_INNER_POLICY"
| "config_error_display (DecodedFeatureNotInFeatureMap n) = decoded_feature_not_in_feature_map n"

definition require_non_empty :: "string \<Rightarrow> string \<Rightarrow> (config_error, unit) res" where
  "require_non_empty f v = (if v = [] then Err (MissingRequiredField f) else Ok ())"

definition finite_positive :: "f64 \<Rightarrow> bool" where
  "finite_positive v \<longleftrightarrow> is_finite v \<and> f_lt f_zero v"

definition finite_non_negative :: "f64 \<Rightarrow> bool" where
  "finite_non_negative v \<longleftrightarrow> is_finite v \<and> f_le f_zero v"

definition finite_unit_interval :: "f64 \<Rightarrow> bool" where
  "finite_unit_interval v \<longleftrightarrow> is_finite v \<and> f_le f_zero v \<and> f_le v f_one"

text \<open>\<open>if let Err(error) = r { errors.push(error) }\<close>, and a plain guarded push.\<close>

fun err_list :: "('e, 'a) res \<Rightarrow> 'e list" where
  "err_list (Err e) = [e]"
| "err_list (Ok x) = []"
| "err_list (Panic m) = []"

definition push_if :: "bool \<Rightarrow> 'e \<Rightarrow> 'e list" where
  "push_if b e = (if b then [e] else [])"

definition validate_all :: "experiment_config \<Rightarrow> config_error list" where
  "validate_all c =
     push_if (version c \<noteq> EXPERIMENT_CONFIG_VERSION) (InvalidVersion (version c))
     @ push_if (seed c = 0) (MissingRequiredField ''seed'')
     @ err_list (require_non_empty ''workload_image_ref'' (workload_image_ref c))
     @ err_list (require_non_empty ''feature_map_ref'' (feature_map_ref c))
     @ err_list (require_non_empty ''scoring_program_ref'' (scoring_program_ref c))
     @ err_list (require_non_empty ''synth_config_ref'' (synth_config_ref c))
     @ push_if (\<not> (1 \<le> k_per_expansion (burst c) \<and> k_per_expansion (burst c) \<le> 256))
         (OutOfRange ''burst.k_per_expansion'')
     @ push_if (max_burst_len_frames (burst c) < base_burst_len_frames (burst c))
         (OutOfRange ''burst.base_burst_len_frames'')
     @ push_if (\<not> finite_positive (temperature (selection c))) (OutOfRange ''selection.temperature'')
     @ concat (map (\<lambda>(f, v). push_if (\<not> finite_non_negative v) (OutOfRange f))
         [(''selection.alpha'', alpha (selection c)),
          (''selection.beta'', beta (selection c)),
          (''selection.gamma'', gamma (selection c)),
          (''selection.delta'', delta (selection c)),
          (''selection.ucb_c'', ucb_c (selection c))])
     @ push_if (\<not> finite_unit_interval (epsilon_regress (staged (selection c))))
         (OutOfRange ''selection.staged.epsilon_regress'')
     @ push_if (max_visits_per_node (selection c) = 0) (OutOfRange ''selection.max_visits_per_node'')
     @ push_if (exhaust_after_dup_expansions (selection c) = 0)
         (OutOfRange ''selection.exhaust_after_dup_expansions'')
     @ push_if (sel_policy (selection c) = Staged \<and> inner (staged (selection c)) = Staged)
         InvalidStagedInnerPolicy
     @ push_if (base_burst_len_frames (burst c) = 0) (OutOfRange ''burst.base_burst_len_frames'')
     @ push_if (max_burst_len_frames (burst c) = 0) (OutOfRange ''burst.max_burst_len_frames'')
     @ push_if (window_n (plateau c) < 10) (OutOfRange ''plateau.window_n'')
     @ push_if (\<not> finite_positive (epsilon_s (plateau c))) (OutOfRange ''plateau.epsilon_s'')
     @ push_if (4 < max_level (ladder (plateau c))) (OutOfRange ''plateau.ladder.max_level'')
     @ push_if (sched_mode (scheduling c) = Deterministic \<and> max_inflight_batches (scheduling c) \<noteq> 1)
         (OutOfRange ''scheduling.max_inflight_batches'')
     @ push_if (sched_mode (scheduling c) = Fast \<and> max_inflight_batches (scheduling c) = 0)
         (OutOfRange ''scheduling.max_inflight_batches'')
     @ push_if (job_timeout_s (scheduling c) = 0) (OutOfRange ''scheduling.job_timeout_s'')
     @ push_if (every_commits (checkpoint c) = 0) (OutOfRange ''checkpoint.every_commits'')
     @ push_if (every_seconds (checkpoint c) = 0) (OutOfRange ''checkpoint.every_seconds'')
     @ concat (map (\<lambda>(f, v). push_if (\<not> is_finite v \<or> f_lt v f_one) (OutOfRange f))
         [(''plateau.ladder.burst_len_factor'', burst_len_factor (ladder (plateau c))),
          (''plateau.ladder.temp_factor'', temp_factor (ladder (plateau c))),
          (''plateau.ladder.radius_factor'', radius_factor (ladder (plateau c)))])
     @ push_if (\<not> finite_non_negative (macro_weight_hot (ladder (plateau c))))
         (OutOfRange ''plateau.ladder.macro_weight_hot'')
     @ push_if (\<not> finite_non_negative (backtrack_kappa (ladder (plateau c))))
         (OutOfRange ''plateau.ladder.backtrack_kappa'')
     @ push_if (\<not> finite_unit_interval (backtrack_depth_quantile (ladder (plateau c))))
         (OutOfRange ''plateau.ladder.backtrack_depth_quantile'')"

definition validate :: "experiment_config \<Rightarrow> (config_error, unit) res" where
  "validate c = (case validate_all c of [] \<Rightarrow> Ok () | e # _ \<Rightarrow> Err e)"

section \<open>Facts on finite floats\<close>

lemma node_id_less_iff [simp]: "NodeId a < NodeId b \<longleftrightarrow> a < b" "NodeId a \<le> NodeId b \<longleftrightarrow> a \<le> b"
  by (simp_all add: less_node_id_def less_eq_node_id_def)

lemma finite_new_Ok:
  assumes "finite_new v = Ok x"
  shows "finite_ok x" "is_finite v" "skey (finite_get x) = skey v"
  using assms
  by (auto simp: finite_new_def finite_ok_def f_eq_def f_zero_def is_finite_def inf_mag_def
      mag_def sign_bit_def skey_def is_nan_def split: if_splits)

lemma finite_ok_cmp:
  assumes "finite_ok x" "finite_ok y"
  shows "x < y \<longleftrightarrow> f_lt (finite_get x) (finite_get y)"
    and "x = y \<longleftrightarrow> f_eq (finite_get x) (finite_get y)"
  using assms
  by (auto simp: finite_ok_def less_finite_f64_def total_key_def f_lt_def f_eq_def skey_def
      f64_eq_iff finite_f64.expand intro!: finite_f64.expand split: if_splits)

lemma score_ok_finite [simp]: "score_ok s \<Longrightarrow> is_finite (score_get s)"
  by (simp add: score_ok_def finite_ok_def score_get_def)

lemma score_new_Ok: "score_new v = Ok s \<Longrightarrow> score_ok s"
  by (auto simp: score_new_def score_ok_def res_simps finite_new_Ok)

section \<open>Facts on validation\<close>

lemma push_if_eq_Nil [simp]: "push_if b e = [] \<longleftrightarrow> \<not> b"
  by (simp add: push_if_def)

lemma require_non_empty_err_list [simp]:
  "err_list (require_non_empty f v) = [] \<longleftrightarrow> v \<noteq> []"
  by (simp add: require_non_empty_def)

lemma validate_Ok_iff: "validate c = Ok () \<longleftrightarrow> validate_all c = []"
  by (simp add: validate_def split: list.splits)

end
