(* ===== verification/Search_Tree.thy ===== *)
theory Search_Tree
  imports Types
begin

text \<open>
  Node records and the in-memory search tree (\<open>crates/orch-core/src/tree.rs\<close>). The tree is
  the pair of parallel vectors of the source. Node ids are dense: the id of a record is its
  index. \<open>wf_tree\<close> is the representation invariant; the locale \<open>record_update\<close> collects
  what the in-place record operations have in common, and is interpreted for each of them.
\<close>

section \<open>Records and errors\<close>

record node_payload =
  np_snapshot :: snapshot_ref
  np_score :: score
  np_novelty_at_commit :: novelty
  np_cell :: cell_key
  np_state_hash :: state_hash
  np_stage :: stage
  np_frame_counter :: frame_count

record node_record =
  nr_id :: node_id
  nr_parent :: "node_id option"
  nr_snapshot :: snapshot_ref
  nr_depth :: u32
  nr_score :: score
  nr_novelty_at_commit :: novelty
  nr_cell :: cell_key
  nr_state_hash :: state_hash
  nr_stage :: stage
  nr_frame_counter :: frame_count
  nr_visits :: u32
  nr_children :: u32
  nr_exhausted :: bool
  nr_goal :: bool
  nr_status :: node_status

definition node_record_new :: "node_id \<Rightarrow> node_id option \<Rightarrow> u32 \<Rightarrow> node_payload \<Rightarrow> node_record" where
  "node_record_new i p d pl = \<lparr>nr_id = i, nr_parent = p, nr_snapshot = np_snapshot pl, nr_depth = d,
     nr_score = np_score pl, nr_novelty_at_commit = np_novelty_at_commit pl, nr_cell = np_cell pl,
     nr_state_hash = np_state_hash pl, nr_stage = np_stage pl, nr_frame_counter = np_frame_counter pl,
     nr_visits = 0, nr_children = 0, nr_exhausted = False, nr_goal = False, nr_status = Frontier\<rparr>"

definition node_record_root :: "node_payload \<Rightarrow> node_record" where
  "node_record_root pl = node_record_new ROOT None 0 pl"

definition node_record_child :: "node_id \<Rightarrow> node_id \<Rightarrow> u32 \<Rightarrow> node_payload \<Rightarrow> node_record" where
  "node_record_child i p d pl = node_record_new i (Some p) d pl"

definition payload :: "node_record \<Rightarrow> node_payload" where
  "payload r = \<lparr>np_snapshot = nr_snapshot r, np_score = nr_score r,
     np_novelty_at_commit = nr_novelty_at_commit r, np_cell = nr_cell r,
     np_state_hash = nr_state_hash r, np_stage = nr_stage r, np_frame_counter = nr_frame_counter r\<rparr>"

definition is_root :: "node_record \<Rightarrow> bool" where
  "is_root r \<longleftrightarrow> node_id_is_root (nr_id r) \<and> nr_parent r = None"

definition is_frontier_candidate :: "node_record \<Rightarrow> bool" where
  "is_frontier_candidate r \<longleftrightarrow> nr_status r = Frontier \<and> \<not> nr_exhausted r"

datatype tree_error =
    InvalidRootId node_id
  | RootHasParent node_id
  | RootDepthNotZero u32
  | MissingParent node_id
  | NodeNotFound node_id
  | RootHasChildren u32
  | RootHasVisits u32
  | RootIsExhausted
  | RootIsGoal
  | RootStatusNotFrontier node_status
  | DepthOverflow node_id
  | ChildCountOverflow node_id
  | VisitOverflow node_id
  | TerminalGoalNode node_id
  | TerminalPrunedNode node_id

text \<open>\<open>{:?}\<close> of a node id and of a status, and \<open>{}\<close> of a \<open>u32\<close>.\<close>

definition show_node_id :: "node_id \<Rightarrow> string" where
  "show_node_id i = ''NodeId('' @ show_nat (unat (node_id_get i)) @ '')''"

fun show_status :: "node_status \<Rightarrow> string" where
  "show_status Frontier = ''Frontier''"
| "show_status Expanded = ''Expanded''"
| "show_status Pruned = ''Pruned''"
| "show_status Goal = ''Goal''"

fun tree_error_display :: "tree_error \<Rightarrow> string" where
  "tree_error_display (InvalidRootId a) = ''invalid root id '' @ show_node_id a"
| "tree_error_display (RootHasParent p) = ''root cannot have parent '' @ show_node_id p"
| "tree_error_display (RootDepthNotZero d) = ''root depth must be 0, got '' @ show_nat (unat d)"
| "tree_error_display (MissingParent p) = ''missing parent '' @ show_node_id p"
| "tree_error_display (NodeNotFound i) = ''node '' @ show_node_id i @ '' not found''"
| "tree_error_display (RootHasChildren n) = ''root child count must be 0, got '' @ show_nat (unat n)"
| "tree_error_display (RootHasVisits n) = ''root visit count must be 0, got '' @ show_nat (unat n)"
| "tree_error_display RootIsExhausted = ''root cannot start exhausted''"
| "tree_error_display RootIsGoal = ''root cannot start as goal''"
| "tree_error_display (RootStatusNotFrontier s) = ''root status must be Frontier, got '' @ show_status s"
| "tree_error_display (DepthOverflow p) = ''depth overflow under '' @ show_node_id p"
| "tree_error_display (ChildCountOverflow p) = ''child count overflow under '' @ show_node_id p"
| "tree_error_display (VisitOverflow i) = ''visit count overflow for '' @ show_node_id i"
| "tree_error_display (TerminalGoalNode i) = ''goal node '' @ show_node_id i @ '' cannot transition''"
| "tree_error_display (TerminalPrunedNode i) = ''pruned node '' @ show_node_id i @ '' cannot transition''"

section \<open>The tree\<close>

record tree =
  records :: "node_record list"
  children_by_node :: "node_id list list"

record node_context =
  nc_record :: node_record
  nc_parent :: "node_record option"
  nc_children :: "node_id list"

definition validate_root :: "node_record \<Rightarrow> (tree_error, unit) res" where
  "validate_root r =
     (if \<not> node_id_is_root (nr_id r) then Err (InvalidRootId (nr_id r))
      else case nr_parent r of Some p \<Rightarrow> Err (RootHasParent p) | None \<Rightarrow>
      if nr_depth r \<noteq> 0 then Err (RootDepthNotZero (nr_depth r))
      else if nr_children r \<noteq> 0 then Err (RootHasChildren (nr_children r))
      else if nr_visits r \<noteq> 0 then Err (RootHasVisits (nr_visits r))
      else if nr_exhausted r then Err RootIsExhausted
      else if nr_goal r then Err RootIsGoal
      else if nr_status r \<noteq> Frontier then Err (RootStatusNotFrontier (nr_status r))
      else Ok ())"

definition from_root_record :: "node_record \<Rightarrow> (tree_error, tree) res" where
  "from_root_record r =
     bind_res (validate_root r) (\<lambda>_. Ok \<lparr>records = [r], children_by_node = [[]]\<rparr>)"

definition tree_from_root :: "node_payload \<Rightarrow> (tree_error, tree) res" where
  "tree_from_root pl =
     (case from_root_record (node_record_root pl) of
        Ok t \<Rightarrow> Ok t
      | _ \<Rightarrow> Panic ''fresh root record is valid'')"

definition tree_len :: "tree \<Rightarrow> nat" where
  "tree_len t = length (records t)"

definition tree_is_empty :: "tree \<Rightarrow> bool" where
  "tree_is_empty t \<longleftrightarrow> records t = []"

definition next_id :: "tree \<Rightarrow> node_id" where
  "next_id t = NodeId (word_of_nat (length (records t)))"

text \<open>\<open>usize::try_from\<close> of a \<open>u64\<close> succeeds on the 64-bit targets of the project.\<close>

definition index_of :: "tree \<Rightarrow> node_id \<Rightarrow> nat option" where
  "index_of t i = (let ix = unat (node_id_get i) in if ix < length (records t) then Some ix else None)"

definition index_or_not_found :: "tree \<Rightarrow> node_id \<Rightarrow> (tree_error, nat) res" where
  "index_or_not_found t i = ok_or (index_of t i) (NodeNotFound i)"

definition root :: "tree \<Rightarrow> (tree_error, node_record) res" where
  "root t = (case records t of [] \<Rightarrow> Panic ''index out of bounds'' | r # _ \<Rightarrow> Ok r)"

definition tree_get :: "tree \<Rightarrow> node_id \<Rightarrow> node_record option" where
  "tree_get t i = map_option (\<lambda>ix. records t ! ix) (index_of t i)"

definition tree_contains :: "tree \<Rightarrow> node_id \<Rightarrow> bool" where
  "tree_contains t i \<longleftrightarrow> index_of t i \<noteq> None"

definition index_children :: "tree \<Rightarrow> nat \<Rightarrow> (tree_error, node_id list) res" where
  "index_children t ix = (if ix < length (children_by_node t) then Ok (children_by_node t ! ix)
     else Panic ''index out of bounds'')"

definition children_of :: "tree \<Rightarrow> node_id \<Rightarrow> (tree_error, node_id list) res" where
  "children_of t i = bind_res (index_or_not_found t i) (index_children t)"

definition context_of :: "tree \<Rightarrow> node_id \<Rightarrow> (tree_error, node_context) res" where
  "context_of t i =
     bind_res (index_or_not_found t i) (\<lambda>ix.
       let r = records t ! ix in
       bind_res (case nr_parent r of None \<Rightarrow> Ok None
                 | Some p \<Rightarrow> bind_res (expect (tree_get t p) ''tree parent index is valid'') (\<lambda>q. Ok (Some q)))
         (\<lambda>pr. bind_res (index_children t ix)
           (\<lambda>cs. Ok \<lparr>nc_record = r, nc_parent = pr, nc_children = cs\<rparr>)))"

definition insert_child :: "tree \<Rightarrow> node_id \<Rightarrow> node_payload \<Rightarrow> (tree_error, node_id \<times> tree) res" where
  "insert_child t p pl =
     bind_res (ok_or (index_of t p) (MissingParent p)) (\<lambda>pix.
       let pr = records t ! pix in
       bind_res (ok_or (checked_add (nr_depth pr) 1) (DepthOverflow p)) (\<lambda>child_depth.
       bind_res (ok_or (checked_add (nr_children pr) 1) (ChildCountOverflow p)) (\<lambda>child_count.
         let child_id = next_id t in
         bind_res (index_children t pix) (\<lambda>cs.
           Ok (child_id,
               \<lparr>records = (records t)[pix := pr\<lparr>nr_children := child_count\<rparr>]
                            @ [node_record_child child_id p child_depth pl],
                children_by_node = (children_by_node t)[pix := cs @ [child_id]] @ [[]]\<rparr>)))))"

text \<open>The parent walk of \<open>path_from_root\<close>; \<open>None\<close> stands for a walk that never ends.\<close>

partial_function (option) path_loop ::
  "tree \<Rightarrow> node_id \<Rightarrow> node_id list \<Rightarrow> (tree_error, node_id list) res option" where
  "path_loop t current path =
     (case tree_get t current of
        None \<Rightarrow> Some (Err (NodeNotFound current))
      | Some r \<Rightarrow>
          (case nr_parent r of
             Some p \<Rightarrow> path_loop t p (path @ [nr_id r])
           | None \<Rightarrow> Some (Ok (rev (path @ [nr_id r])))))"

definition path_from_root :: "tree \<Rightarrow> node_id \<Rightarrow> (tree_error, node_id list) res option" where
  "path_from_root t i = path_loop t i []"

text \<open>\<open>record_mut\<close>: the record at an id, put back after the update.\<close>

definition update_record ::
  "tree \<Rightarrow> node_id \<Rightarrow> (node_record \<Rightarrow> (tree_error, node_record) res) \<Rightarrow> (tree_error, tree) res" where
  "update_record t i f =
     bind_res (index_or_not_found t i) (\<lambda>ix.
       bind_res (f (records t ! ix)) (\<lambda>r. Ok (t\<lparr>records := (records t)[ix := r]\<rparr>)))"

definition increment_visits_record :: "node_id \<Rightarrow> node_record \<Rightarrow> (tree_error, node_record) res" where
  "increment_visits_record i r =
     bind_res (ok_or (checked_add (nr_visits r) 1) (VisitOverflow i)) (\<lambda>v. Ok (r\<lparr>nr_visits := v\<rparr>))"

definition increment_visits :: "tree \<Rightarrow> node_id \<Rightarrow> (tree_error, u32 \<times> tree) res" where
  "increment_visits t i =
     bind_res (update_record t i (increment_visits_record i)) (\<lambda>t'.
       bind_res (index_or_not_found t' i) (\<lambda>ix. Ok (nr_visits (records t' ! ix), t')))"

definition mark_expanded_record :: "node_record \<Rightarrow> (tree_error, node_record) res" where
  "mark_expanded_record r =
     Ok (if \<not> nr_goal r \<and> nr_status r \<noteq> Pruned then r\<lparr>nr_status := Expanded\<rparr> else r)"

definition mark_expanded :: "tree \<Rightarrow> node_id \<Rightarrow> (tree_error, tree) res" where
  "mark_expanded t i = update_record t i mark_expanded_record"

definition mark_exhausted_record :: "node_id \<Rightarrow> node_record \<Rightarrow> (tree_error, node_record) res" where
  "mark_exhausted_record i r =
     (if nr_status r = Goal \<or> nr_goal r then Err (TerminalGoalNode i)
      else let r = r\<lparr>nr_exhausted := True\<rparr>
           in Ok (if \<not> nr_goal r \<and> nr_status r \<noteq> Pruned then r\<lparr>nr_status := Expanded\<rparr> else r))"

definition mark_exhausted :: "tree \<Rightarrow> node_id \<Rightarrow> (tree_error, tree) res" where
  "mark_exhausted t i = update_record t i (mark_exhausted_record i)"

definition mark_goal_record :: "node_id \<Rightarrow> node_record \<Rightarrow> (tree_error, node_record) res" where
  "mark_goal_record i r =
     (if nr_status r = Pruned then Err (TerminalPrunedNode i)
      else Ok (r\<lparr>nr_goal := True, nr_exhausted := False, nr_status := Goal\<rparr>))"

definition mark_goal :: "tree \<Rightarrow> node_id \<Rightarrow> (tree_error, tree) res" where
  "mark_goal t i = update_record t i (mark_goal_record i)"

definition mark_pruned_record :: "node_id \<Rightarrow> node_record \<Rightarrow> (tree_error, node_record) res" where
  "mark_pruned_record i r =
     (if nr_status r = Goal \<or> nr_goal r then Err (TerminalGoalNode i)
      else Ok (r\<lparr>nr_exhausted := True, nr_goal := False, nr_status := Pruned\<rparr>))"

definition mark_pruned :: "tree \<Rightarrow> node_id \<Rightarrow> (tree_error, tree) res" where
  "mark_pruned t i = update_record t i (mark_pruned_record i)"

section \<open>Ids and indices\<close>

abbreviation idx :: "node_id \<Rightarrow> nat" where "idx i \<equiv> unat (node_id_get i)"
abbreviation nid :: "nat \<Rightarrow> node_id" where "nid n \<equiv> NodeId (word_of_nat n)"

lemma unat_of_nat_u64 [simp]: "n < 2 ^ 64 \<Longrightarrow> unat (word_of_nat n :: u64) = n"
  by (simp add: unsigned_of_nat take_bit_nat_eq_self)

lemma idx_nid: "n < 2 ^ 64 \<Longrightarrow> idx (nid n) = n"
  by simp

lemma nid_idx [simp]: "nid (idx i) = i"
  by simp

lemma idx_inject: "idx i = idx j \<longleftrightarrow> i = j"
  by (metis nid_idx)

lemma nid_eq_iff: "m < 2 ^ 64 \<Longrightarrow> n < 2 ^ 64 \<Longrightarrow> nid m = nid n \<longleftrightarrow> m = n"
  by (metis idx_nid)

lemma idx_ROOT [simp]: "idx ROOT = 0"
  by (simp add: ROOT_def)

lemma idx_less_iff: "i < j \<longleftrightarrow> idx i < idx j"
  by (simp add: less_node_id_def word_less_nat_alt)

lemma tree_get_eq: "tree_get t i = (if idx i < length (records t) then Some (records t ! idx i) else None)"
  by (simp add: tree_get_def index_of_def)

section \<open>The representation invariant\<close>

definition flags_ok :: "node_record \<Rightarrow> bool" where
  "flags_ok r \<longleftrightarrow> (nr_goal r \<longleftrightarrow> nr_status r = Goal) \<and> (nr_status r = Pruned \<longrightarrow> nr_exhausted r)
     \<and> (nr_exhausted r \<longrightarrow> nr_status r = Expanded \<or> nr_status r = Pruned)"

definition child_ids :: "tree \<Rightarrow> nat \<Rightarrow> node_id list" where
  "child_ids t i = map nid (filter (\<lambda>j. nr_parent (records t ! j) = Some (nid i)) [0..<length (records t)])"

definition linked :: "tree \<Rightarrow> nat \<Rightarrow> bool" where
  "linked t i \<longleftrightarrow> (if i = 0 then nr_parent (records t ! 0) = None \<and> nr_depth (records t ! 0) = 0
     else (\<exists>p < i. nr_parent (records t ! i) = Some (nid p)
             \<and> unat (nr_depth (records t ! i)) = unat (nr_depth (records t ! p)) + 1))"

definition wf_tree :: "tree \<Rightarrow> bool" where
  "wf_tree t \<longleftrightarrow> records t \<noteq> [] \<and> length (records t) < 2 ^ 64
     \<and> length (children_by_node t) = length (records t)
     \<and> (\<forall>i < length (records t). nr_id (records t ! i) = nid i \<and> linked t i
          \<and> children_by_node t ! i = child_ids t i
          \<and> unat (nr_children (records t ! i)) = length (child_ids t i)
          \<and> flags_ok (records t ! i) \<and> score_ok (nr_score (records t ! i)))"

lemma wf_treeD:
  assumes "wf_tree t"
  shows "records t \<noteq> []" "length (records t) < 2 ^ 64" "length (children_by_node t) = length (records t)"
    and "i < length (records t) \<Longrightarrow> nr_id (records t ! i) = nid i"
    and "i < length (records t) \<Longrightarrow> linked t i"
    and "i < length (records t) \<Longrightarrow> children_by_node t ! i = child_ids t i"
    and "i < length (records t) \<Longrightarrow> unat (nr_children (records t ! i)) = length (child_ids t i)"
    and "i < length (records t) \<Longrightarrow> flags_ok (records t ! i)"
    and "i < length (records t) \<Longrightarrow> score_ok (nr_score (records t ! i))"
  using assms by (auto simp: wf_tree_def)

lemma tree_get_id: "wf_tree t \<Longrightarrow> tree_get t i = Some r \<Longrightarrow> nr_id r = i"
  by (auto simp: tree_get_eq wf_treeD(4) split: if_splits)

lemma tree_get_props:
  "wf_tree t \<Longrightarrow> tree_get t i = Some r \<Longrightarrow> flags_ok r \<and> score_ok (nr_score r)"
  by (auto simp: tree_get_eq wf_treeD(8,9) split: if_splits)

lemma tree_get_next_id: "length (records t) < 2 ^ 64 \<Longrightarrow> tree_get t (next_id t) = None"
  by (simp add: tree_get_eq next_id_def)

lemma tree_get_ROOT: "wf_tree t \<Longrightarrow> tree_get t ROOT = Some (records t ! 0)"
  by (simp add: tree_get_eq wf_treeD(1))

lemma children_of_wf:
  "wf_tree t \<Longrightarrow> idx i < length (records t) \<Longrightarrow> children_of t i = Ok (child_ids t (idx i))"
  by (simp add: children_of_def index_or_not_found_def index_of_def index_children_def wf_treeD)

section \<open>The root\<close>

lemma validate_root_Ok:
  "validate_root r = Ok () \<longleftrightarrow> nr_id r = ROOT \<and> nr_parent r = None \<and> nr_depth r = 0
     \<and> nr_children r = 0 \<and> nr_visits r = 0 \<and> \<not> nr_exhausted r \<and> \<not> nr_goal r \<and> nr_status r = Frontier"
  by (auto simp: validate_root_def node_id_is_root_def node_id.expand split: option.splits)

lemma from_root_record_wf:
  assumes "from_root_record r = Ok t" "score_ok (nr_score r)"
  shows "wf_tree t"
  using assms
  by (auto simp: from_root_record_def res_simps validate_root_Ok wf_tree_def linked_def child_ids_def
      flags_ok_def ROOT_def)

lemma tree_from_root_eq:
  "tree_from_root pl = Ok \<lparr>records = [node_record_root pl], children_by_node = [[]]\<rparr>"
  by (simp add: tree_from_root_def from_root_record_def validate_root_def node_record_root_def
      node_record_new_def node_id_is_root_def)

lemma tree_from_root_wf: "tree_from_root pl = Ok t \<Longrightarrow> score_ok (np_score pl) \<Longrightarrow> wf_tree t"
  by (auto simp: tree_from_root_def node_record_root_def node_record_new_def
      intro: from_root_record_wf split: res.splits)

section \<open>In-place record updates\<close>

lemma update_record_Ok:
  "update_record t i f = Ok t' \<longleftrightarrow> idx i < length (records t)
     \<and> (\<exists>r. f (records t ! idx i) = Ok r \<and> t' = t\<lparr>records := (records t)[idx i := r]\<rparr>)"
  by (auto simp: update_record_def index_or_not_found_def index_of_def res_simps Let_def split: if_splits)

lemma tree_get_update:
  "idx i < length (records t) \<Longrightarrow>
   tree_get (t\<lparr>records := (records t)[idx i := r]\<rparr>) = (tree_get t)(i \<mapsto> r)"
  by (rule ext) (auto simp: tree_get_eq nth_list_update idx_inject)

locale record_update =
  fixes upd :: "node_record \<Rightarrow> (tree_error, node_record) res"
  assumes upd_keeps: "upd r = Ok r' \<Longrightarrow> nr_id r' = nr_id r \<and> nr_parent r' = nr_parent r
      \<and> nr_depth r' = nr_depth r \<and> nr_children r' = nr_children r \<and> payload r' = payload r"
    and upd_flags: "upd r = Ok r' \<Longrightarrow> flags_ok r \<Longrightarrow> flags_ok r'"
    and upd_no_panic: "upd r \<noteq> Panic m"
begin

lemma update_nth:
  assumes "update_record t i upd = Ok t'"
  shows "length (records t') = length (records t)" "children_by_node t' = children_by_node t"
    and "j < length (records t) \<Longrightarrow> nr_id (records t' ! j) = nr_id (records t ! j)
      \<and> nr_parent (records t' ! j) = nr_parent (records t ! j)
      \<and> nr_depth (records t' ! j) = nr_depth (records t ! j)
      \<and> nr_children (records t' ! j) = nr_children (records t ! j)
      \<and> nr_score (records t' ! j) = nr_score (records t ! j)"
    and "j < length (records t) \<Longrightarrow> flags_ok (records t ! j) \<Longrightarrow> flags_ok (records t' ! j)"
  using assms upd_keeps upd_flags
  by (auto simp: update_record_Ok nth_list_update payload_def)

lemma update_child_ids:
  assumes "update_record t i upd = Ok t'"
  shows "child_ids t' j = child_ids t j"
  using update_nth[OF assms] unfolding child_ids_def
  by (metis (no_types, lifting) atLeastLessThan_iff filter_cong set_upt)

lemma update_wf:
  assumes "wf_tree t" "update_record t i upd = Ok t'"
  shows "wf_tree t'"
proof -
  note nth = update_nth[OF assms(2)]
  have "linked t' j" if j: "j < length (records t)" for j
  proof (cases "j = 0")
    case True
    then show ?thesis using wf_treeD(5)[OF assms(1) j] nth(3)[of 0] j by (simp add: linked_def)
  next
    case False
    then obtain p where "p < j" "nr_parent (records t ! j) = Some (nid p)"
      "unat (nr_depth (records t ! j)) = unat (nr_depth (records t ! p)) + 1"
      using wf_treeD(5)[OF assms(1) j] by (auto simp: linked_def)
    then show ?thesis using nth(3)[of j] nth(3)[of p] j False by (auto simp: linked_def)
  qed
  then show ?thesis
    using assms(1) nth update_child_ids[OF assms(2)] unfolding wf_tree_def by auto
qed

lemma update_get:
  assumes "update_record t i upd = Ok t'"
  obtains r r' where "tree_get t i = Some r" "upd r = Ok r'" "tree_get t' = (tree_get t)(i \<mapsto> r')"
  using assms by (auto simp: update_record_Ok tree_get_update tree_get_eq)

lemma update_total:
  assumes "tree_get t i = Some r" "\<And>e. upd r \<noteq> Err e"
  obtains t' where "update_record t i upd = Ok t'"
proof -
  obtain r' where "upd r = Ok r'" using assms(2) upd_no_panic by (cases "upd r") auto
  then show ?thesis using assms(1) that
    by (auto simp: update_record_Ok tree_get_eq split: if_splits)
qed

end

interpretation visits_upd: record_update "increment_visits_record i" for i
  by unfold_locales (auto simp: increment_visits_record_def res_simps flags_ok_def payload_def)

interpretation expanded_upd: record_update mark_expanded_record
  by unfold_locales (auto simp: mark_expanded_record_def flags_ok_def payload_def)

interpretation exhausted_upd: record_update "mark_exhausted_record i" for i
  by unfold_locales (auto simp: mark_exhausted_record_def flags_ok_def payload_def Let_def split: if_splits)

interpretation goal_upd: record_update "mark_goal_record i" for i
  by unfold_locales (auto simp: mark_goal_record_def flags_ok_def payload_def split: if_splits)

interpretation pruned_upd: record_update "mark_pruned_record i" for i
  by unfold_locales (auto simp: mark_pruned_record_def flags_ok_def payload_def split: if_splits)

section \<open>Insertion\<close>

lemma insert_child_Ok:
  assumes wf: "wf_tree t" and ins: "insert_child t p pl = Ok (c, t')"
  obtains pr d n where "tree_get t p = Some pr" "unat d = unat (nr_depth pr) + 1"
    "unat n = unat (nr_children pr) + 1" "c = next_id t"
    "records t' = (records t)[idx p := pr\<lparr>nr_children := n\<rparr>] @ [node_record_child c p d pl]"
    "children_by_node t' = (children_by_node t)[idx p := children_by_node t ! idx p @ [c]] @ [[]]"
proof -
  from ins have p: "idx p < length (records t)"
    by (auto simp: insert_child_def res_simps index_of_def Let_def split: if_splits)
  let ?pr = "records t ! idx p"
  from ins p have d: "unat (nr_depth ?pr) + 1 < 2 ^ 32" and n: "unat (nr_children ?pr) + 1 < 2 ^ 32"
    and c: "c = next_id t"
    and t': "t' = \<lparr>records = (records t)[idx p := ?pr\<lparr>nr_children := nr_children ?pr + 1\<rparr>]
                     @ [node_record_child c p (nr_depth ?pr + 1) pl],
                   children_by_node = (children_by_node t)[idx p := children_by_node t ! idx p @ [c]] @ [[]]\<rparr>"
    using wf_treeD(3)[OF wf]
    by (auto simp: insert_child_def res_simps index_of_def Let_def checked_simps index_children_def)
  have "unat (nr_depth ?pr + 1) = unat (nr_depth ?pr) + 1"
    "unat (nr_children ?pr + 1) = unat (nr_children ?pr) + 1"
    using d n by (simp_all add: unat_add_no_overflow)
  then show ?thesis using that p c t' by (simp add: tree_get_eq)
qed

lemma insert_child_get:
  assumes wf: "wf_tree t" and ins: "insert_child t p pl = Ok (c, t')"
  shows "\<exists>pr d n. tree_get t p = Some pr \<and> tree_get t c = None
      \<and> unat d = unat (nr_depth pr) + 1 \<and> unat n = unat (nr_children pr) + 1
      \<and> tree_get t' = (tree_get t)(p \<mapsto> pr\<lparr>nr_children := n\<rparr>, c \<mapsto> node_record_child c p d pl)"
proof -
  obtain pr d n where t: "tree_get t p = Some pr" "unat d = unat (nr_depth pr) + 1"
    "unat n = unat (nr_children pr) + 1" "c = next_id t"
    "records t' = (records t)[idx p := pr\<lparr>nr_children := n\<rparr>] @ [node_record_child c p d pl]"
    by (rule insert_child_Ok[OF wf ins])
  note len = wf_treeD(2)[OF wf]
  have idxc: "idx c = length (records t)" using len by (simp add: t(4) next_id_def)
  have "tree_get t' j = ((tree_get t)(p \<mapsto> pr\<lparr>nr_children := n\<rparr>, c \<mapsto> node_record_child c p d pl)) j" for j
    using t(1) idxc
    by (auto simp: tree_get_eq t(5) nth_append nth_list_update less_Suc_eq idx_inject[symmetric]
        split: if_splits)
  moreover have "tree_get t c = None" using len by (simp add: t(4) tree_get_next_id)
  ultimately show ?thesis using t by blast
qed

lemma insert_child_child_ids:
  assumes wf: "wf_tree t" and ins: "insert_child t p pl = Ok (c, t')"
  shows "i < length (records t) \<Longrightarrow> child_ids t' i = child_ids t i @ (if i = idx p then [c] else [])"
    and "child_ids t' (length (records t)) = []"
proof -
  obtain pr d n where t: "tree_get t p = Some pr" "c = next_id t"
    "records t' = (records t)[idx p := pr\<lparr>nr_children := n\<rparr>] @ [node_record_child c p d pl]"
    by (rule insert_child_Ok[OF wf ins])
  let ?n = "length (records t)"
  have n: "?n < 2 ^ 64" by (rule wf_treeD(2)[OF wf])
  have p: "idx p < ?n" "pr = records t ! idx p" using t(1) by (auto simp: tree_get_eq split: if_splits)
  have par: "nr_parent (records t' ! j) = nr_parent (records t ! j)" if "j < ?n" for j
    using that p by (simp add: t(3) nth_append nth_list_update)
  have new: "nr_parent (records t' ! ?n) = Some p"
    by (simp add: t(3) nth_append node_record_child_def node_record_new_def)
  have len: "length (records t') = Suc ?n" by (simp add: t(3))
  have flt: "filter (\<lambda>j. nr_parent (records t' ! j) = Some (nid i)) [0..<?n]
      = filter (\<lambda>j. nr_parent (records t ! j) = Some (nid i)) [0..<?n]" for i
    by (rule filter_cong) (auto simp: par)
  show "i < ?n \<Longrightarrow> child_ids t' i = child_ids t i @ (if i = idx p then [c] else [])"
    using n p(1) unfolding child_ids_def len
    by (simp add: flt new t(2) next_id_def)
  have "nr_parent (records t ! j) \<noteq> Some (nid ?n)" if "j < ?n" for j
    using wf_treeD(5)[OF wf that] nid_eq_iff[OF n, of j] nid_eq_iff[OF n] n that
    by (auto simp: linked_def simp del: node_id.inject split: if_splits)
  moreover have "p \<noteq> nid ?n" using p(1) n by (metis idx_nid less_irrefl)
  ultimately show "child_ids t' ?n = []"
    unfolding child_ids_def len by (simp add: flt new)
qed

lemma insert_child_wf:
  assumes wf: "wf_tree t" and ins: "insert_child t p pl = Ok (c, t')"
    and room: "Suc (length (records t)) < 2 ^ 64" and sc: "score_ok (np_score pl)"
  shows "wf_tree t'"
proof -
  obtain pr d n where t: "tree_get t p = Some pr" "unat d = unat (nr_depth pr) + 1"
    "unat n = unat (nr_children pr) + 1" "c = next_id t"
    "records t' = (records t)[idx p := pr\<lparr>nr_children := n\<rparr>] @ [node_record_child c p d pl]"
    "children_by_node t' = (children_by_node t)[idx p := children_by_node t ! idx p @ [c]] @ [[]]"
    by (rule insert_child_Ok[OF wf ins])
  note ci = insert_child_child_ids[OF wf ins]
  note D = wf_treeD[OF wf]
  let ?n = "length (records t)"
  have p: "idx p < ?n" "pr = records t ! idx p" using t(1) by (auto simp: tree_get_eq split: if_splits)
  have old: "records t' ! i = (if i = idx p then pr\<lparr>nr_children := n\<rparr> else records t ! i)" if "i < ?n" for i
    using that by (simp add: t(5) nth_append nth_list_update)
  have oldc: "children_by_node t' ! i = child_ids t' i" if "i < ?n" for i
    using that p D(3) D(6)[OF that] by (simp add: t(6) nth_append nth_list_update ci(1))
  have new: "records t' ! ?n = node_record_child c p d pl" by (simp add: t(5) nth_append)
  have newc: "children_by_node t' ! ?n = []" by (simp add: t(6) nth_append D(3))
  have l_old: "linked t' i" if i: "i < ?n" for i
  proof -
    have keep: "nr_parent (records t' ! j) = nr_parent (records t ! j)
        \<and> nr_depth (records t' ! j) = nr_depth (records t ! j)" if "j < ?n" for j
      using old[OF that] p(2) by simp
    show ?thesis
    proof (cases "i = 0")
      case True
      then show ?thesis using D(5)[OF i] keep[OF i] by (simp add: linked_def)
    next
      case False
      then obtain q where "q < i" "nr_parent (records t ! i) = Some (nid q)"
        "unat (nr_depth (records t ! i)) = unat (nr_depth (records t ! q)) + 1"
        using D(5)[OF i] by (auto simp: linked_def)
      then show ?thesis using False keep[OF i] keep[of q] i
        unfolding linked_def by (simp only: if_False) (intro exI[of _ q], simp)
    qed
  qed
  have l_new: "linked t' ?n"
    unfolding linked_def new using p t(2) D(1) old[OF p(1)]
    by (simp add: node_record_child_def node_record_new_def) (intro exI[of _ "idx p"], simp)
  have "nr_id (records t' ! i) = nid i \<and> linked t' i \<and> children_by_node t' ! i = child_ids t' i
        \<and> unat (nr_children (records t' ! i)) = length (child_ids t' i)
        \<and> flags_ok (records t' ! i) \<and> score_ok (nr_score (records t' ! i))" if i: "i < Suc ?n" for i
  proof (cases "i = ?n")
    case True
    then show ?thesis using l_new newc ci(2) sc new
      by (simp add: node_record_child_def node_record_new_def flags_ok_def t(4) next_id_def)
  next
    case False
    then have i': "i < ?n" using i by simp
    show ?thesis using l_old[OF i'] oldc[OF i'] old[OF i'] ci(1)[OF i'] D(4)[OF i'] D(7-9)[OF i'] t(3) p
      by (auto simp: flags_ok_def)
  qed
  then show ?thesis using room D(1,3) by (simp add: wf_tree_def t(5,6))
qed

lemma insert_child_total:
  assumes wf: "wf_tree t" and p: "tree_get t p = Some pr"
    and "unat (nr_depth pr) + 1 < 2 ^ 32" "unat (nr_children pr) + 1 < 2 ^ 32"
  obtains c t' where "insert_child t p pl = Ok (c, t')"
  using assms wf_treeD(3)[OF wf]
  by (auto simp: insert_child_def tree_get_eq index_of_def index_children_def checked_add_def Let_def
      split: if_splits)

lemma insert_child_no_panic: "wf_tree t \<Longrightarrow> insert_child t p pl \<noteq> Panic m"
  using wf_treeD(3)[of t]
  by (auto simp: insert_child_def res_simps index_of_def index_children_def Let_def split: if_splits)

section \<open>Paths\<close>

text \<open>A path of the tree: it starts at the root and each node is a child of the one before.\<close>

fun linked_path :: "tree \<Rightarrow> node_id list \<Rightarrow> bool" where
  "linked_path t [] = True"
| "linked_path t [i] = True"
| "linked_path t (i # j # js) =
     ((case tree_get t j of Some r \<Rightarrow> nr_parent r = Some i | None \<Rightarrow> False) \<and> linked_path t (j # js))"

lemma path_loop_wf:
  assumes wf: "wf_tree t" and "n < length (records t)" "linked_path t (nid n # js)"
  shows "\<exists>path. path_loop t (nid n) (rev js) = Some (Ok (path @ js)) \<and> path \<noteq> [] \<and> hd path = ROOT
    \<and> last path = nid n \<and> length path = unat (nr_depth (records t ! n)) + 1 \<and> linked_path t (path @ js)"
  using assms(2,3)
proof (induction n arbitrary: js rule: less_induct)
  case (less n)
  note D = wf_treeD[OF wf]
  have nl: "n < 2 ^ 64" using less.prems(1) D(2) by simp
  have g: "tree_get t (nid n) = Some (records t ! n)" using less.prems(1) nl by (simp add: tree_get_eq)
  have id: "nr_id (records t ! n) = nid n" using D(4) less.prems(1) .
  show ?case
  proof (cases "n = 0")
    case True
    then have "nr_parent (records t ! n) = None" "nr_depth (records t ! n) = 0"
      using D(5)[OF less.prems(1)] by (auto simp: linked_def)
    then show ?thesis using g id less.prems(2) True
      by (subst path_loop.simps) (auto simp: ROOT_def intro!: exI[of _ "[nid 0]"])
  next
    case False
    then obtain p where p: "p < n" "nr_parent (records t ! n) = Some (nid p)"
      "unat (nr_depth (records t ! n)) = unat (nr_depth (records t ! p)) + 1"
      using D(5)[OF less.prems(1)] by (auto simp: linked_def)
    have "linked_path t (nid p # nid n # js)" using g p less.prems(2) by simp
    then obtain path where path: "path_loop t (nid p) (rev (nid n # js)) = Some (Ok (path @ nid n # js))"
      "path \<noteq> []" "hd path = ROOT" "length path = unat (nr_depth (records t ! p)) + 1"
      "linked_path t (path @ nid n # js)"
      using less.IH[of p "nid n # js"] p(1) less.prems(1) by auto
    show ?thesis using path p g id
      by (subst path_loop.simps) (auto intro!: exI[of _ "path @ [nid n]"])
  qed
qed

lemma path_from_root_wf:
  assumes "wf_tree t" "tree_get t i = Some r"
  shows "\<exists>path. path_from_root t i = Some (Ok path) \<and> path \<noteq> [] \<and> hd path = ROOT \<and> last path = i
    \<and> length path = unat (nr_depth r) + 1 \<and> linked_path t path"
  using path_loop_wf[OF assms(1), of "idx i" "[]"] assms(2)
  by (auto simp: path_from_root_def tree_get_eq split: if_splits)


lemma context_of_wf:
  assumes wf: "wf_tree t" and get: "tree_get t i = Some r"
  shows "\<exists>q. context_of t i = Ok \<lparr>nc_record = r, nc_parent = q, nc_children = child_ids t (idx i)\<rparr>
     \<and> (case nr_parent r of None \<Rightarrow> q = None | Some p \<Rightarrow> q \<noteq> None \<and> q = tree_get t p)"
proof -
  note D = wf_treeD[OF wf]
  have i: "idx i < length (records t)" "r = records t ! idx i"
    using get by (auto simp: tree_get_eq split: if_splits)
  have base: "context_of t i = bind_res (case nr_parent r of None \<Rightarrow> Ok None
        | Some p \<Rightarrow> bind_res (expect (tree_get t p) ''tree parent index is valid'') (\<lambda>q. Ok (Some q)))
      (\<lambda>q. Ok \<lparr>nc_record = r, nc_parent = q, nc_children = child_ids t (idx i)\<rparr>)"
    using i D(3) D(6)[OF i(1)]
    by (simp add: context_of_def index_or_not_found_def index_of_def index_children_def Let_def)
  show ?thesis
  proof (cases "nr_parent r")
    case None
    then show ?thesis by (simp add: base)
  next
    case (Some p)
    then have "idx p < length (records t)"
      using D(5)[OF i(1)] i D(2) by (auto simp: linked_def split: if_splits)
    then have "tree_get t p = Some (records t ! idx p)" by (simp add: tree_get_eq)
    then show ?thesis using Some by (simp add: base)
  qed
qed

lemma increment_visits_Ok:
  assumes "increment_visits t i = Ok (v, t')"
  obtains r where "update_record t i (increment_visits_record i) = Ok t'" "tree_get t i = Some r"
    "unat v = unat (nr_visits r) + 1" "tree_get t' = (tree_get t)(i \<mapsto> r\<lparr>nr_visits := v\<rparr>)"
proof -
  have u: "update_record t i (increment_visits_record i) = Ok t'"
    and v: "idx i < length (records t') \<Longrightarrow> v = nr_visits (records t' ! idx i)"
    using assms by (auto simp: increment_visits_def res_simps index_or_not_found_def index_of_def Let_def
      split: if_splits)
  obtain r r' where g: "tree_get t i = Some r" "increment_visits_record i r = Ok r'"
    "tree_get t' = (tree_get t)(i \<mapsto> r')" by (rule visits_upd.update_get[OF u])
  have "tree_get t' i = Some r'" using g(3) by simp
  then have "v = nr_visits r'" using v by (auto simp: tree_get_eq split: if_splits)
  moreover have "r' = r\<lparr>nr_visits := nr_visits r'\<rparr>" "unat (nr_visits r') = unat (nr_visits r) + 1"
    using g(2) by (auto simp: increment_visits_record_def res_simps checked_simps unat_add_no_overflow)
  ultimately show ?thesis using that[OF u g(1)] g(3) by simp
qed

section \<open>Trees the operations reach\<close>

inductive tree_step :: "tree \<Rightarrow> tree \<Rightarrow> bool" where
  step_insert: "insert_child t p pl = Ok (c, t') \<Longrightarrow> score_ok (np_score pl) \<Longrightarrow> tree_step t t'"
| step_visits: "increment_visits t i = Ok (v, t') \<Longrightarrow> tree_step t t'"
| step_expanded: "mark_expanded t i = Ok t' \<Longrightarrow> tree_step t t'"
| step_exhausted: "mark_exhausted t i = Ok t' \<Longrightarrow> tree_step t t'"
| step_goal: "mark_goal t i = Ok t' \<Longrightarrow> tree_step t t'"
| step_pruned: "mark_pruned t i = Ok t' \<Longrightarrow> tree_step t t'"

inductive tree_reachable :: "tree \<Rightarrow> bool" where
  reach_root: "from_root_record r = Ok t \<Longrightarrow> score_ok (nr_score r) \<Longrightarrow> tree_reachable t"
| reach_step: "tree_reachable t \<Longrightarrow> tree_step t t' \<Longrightarrow> tree_reachable t'"

lemmas mark_defs = mark_expanded_def mark_exhausted_def mark_goal_def mark_pruned_def

lemma tree_step_wf:
  assumes "tree_step t t'" "wf_tree t" "length (records t') < 2 ^ 64"
  shows "wf_tree t'"
  using assms
proof (cases rule: tree_step.cases)
  case (step_insert p pl c)
  have "length (records t') = Suc (length (records t))"
    by (rule insert_child_Ok[OF assms(2) step_insert(1)]) simp
  then show ?thesis using insert_child_wf[OF assms(2) step_insert(1)] step_insert(2) assms(3) by simp
next
  case (step_visits i v)
  show ?thesis by (rule increment_visits_Ok[OF step_visits]) (rule visits_upd.update_wf[OF assms(2)])
qed (auto simp: mark_defs intro: expanded_upd.update_wf exhausted_upd.update_wf goal_upd.update_wf
      pruned_upd.update_wf)

lemma tree_step_length: "tree_step t t' \<Longrightarrow> length (records t) \<le> length (records t')"
proof (induction rule: tree_step.induct)
  case (step_insert t p pl c t')
  then show ?case by (auto simp: insert_child_def res_simps Let_def)
next
  case (step_visits t i v t')
  show ?case by (rule increment_visits_Ok[OF step_visits]) (simp add: visits_upd.update_nth)
qed (auto simp: mark_defs expanded_upd.update_nth exhausted_upd.update_nth goal_upd.update_nth
      pruned_upd.update_nth)

text \<open>C1: Every tree built by the operations of \<open>Tree\<close> from a root record satisfies the representation
  invariant: ids are indices, every non-root node has an older parent one level above it, the
  child lists and child counts are exactly the records with that parent in id order, and the
  goal, exhausted and status fields agree. The bound is the address space: a 64-bit vector has
  fewer than \<open>2 ^ 64\<close> records.\<close>

theorem tree_reachable_wf:
  assumes "tree_reachable t" "length (records t) < 2 ^ 64"
  shows "wf_tree t"
  using assms
proof (induction rule: tree_reachable.induct)
  case (reach_root r t)
  then show ?case by (auto intro: from_root_record_wf)
next
  case (reach_step t t')
  then show ?case using tree_step_wf tree_step_length by (metis order.strict_trans1)
qed

text \<open>C6: A successful \<open>insert_child\<close> allocates a fresh id, appends one frontier record one level
  below the parent carrying the payload, counts it in the parent, adds it last to the child list
  of the parent, and changes nothing else.\<close>

theorem insert_child_spec:
  assumes "wf_tree t" "insert_child t p pl = Ok (c, t')" "Suc (length (records t)) < 2 ^ 64"
    "score_ok (np_score pl)"
  shows "wf_tree t' \<and> tree_get t c = None \<and>
    (\<exists>pr d n cs. tree_get t p = Some pr \<and> unat d = unat (nr_depth pr) + 1
      \<and> unat n = unat (nr_children pr) + 1
      \<and> tree_get t' = (tree_get t)(p \<mapsto> pr\<lparr>nr_children := n\<rparr>, c \<mapsto> node_record_child c p d pl)
      \<and> children_of t p = Ok cs \<and> children_of t' p = Ok (cs @ [c]) \<and> children_of t' c = Ok []
      \<and> (\<forall>i. i \<noteq> p \<longrightarrow> i \<noteq> c \<longrightarrow> children_of t' i = children_of t i))"
proof -
  note wf' = insert_child_wf[OF assms(1,2,3,4)]
  obtain pr d n where t: "tree_get t p = Some pr" "c = next_id t"
    "records t' = (records t)[idx p := pr\<lparr>nr_children := n\<rparr>] @ [node_record_child c p d pl]"
    by (rule insert_child_Ok[OF assms(1,2)])
  let ?n = "length (records t)"
  have len: "length (records t') = Suc ?n" by (simp add: t(3))
  have p: "idx p < ?n" using t(1) by (auto simp: tree_get_eq split: if_splits)
  have c: "idx c = ?n" using assms(3) by (simp add: t(2) next_id_def)
  have "children_of t p = Ok (child_ids t (idx p))" "children_of t' p = Ok (child_ids t (idx p) @ [c])"
    using children_of_wf[OF assms(1) p] children_of_wf[OF wf', of p] p
    by (simp_all add: len insert_child_child_ids[OF assms(1,2)])
  moreover have "children_of t' c = Ok []"
    using children_of_wf[OF wf', of c] c by (simp add: len insert_child_child_ids[OF assms(1,2)])
  moreover have "children_of t' i = children_of t i" if "i \<noteq> p" "i \<noteq> c" for i
  proof (cases "idx i < ?n")
    case True
    then show ?thesis using children_of_wf[OF wf', of i] children_of_wf[OF assms(1) True] that(1)
      by (simp add: len insert_child_child_ids[OF assms(1,2)] idx_inject)
  next
    case False
    then have "\<not> idx i < Suc ?n" using that(2) c idx_inject[of i c] by (simp add: less_Suc_eq)
    then show ?thesis using False by (simp add: children_of_def index_or_not_found_def index_of_def len)
  qed
  ultimately show ?thesis using insert_child_get[OF assms(1,2)] wf' by blast
qed

text \<open>C7: On a well-formed tree the parent walk of \<open>path_from_root\<close> ends for every node of the
  tree, without an error, and returns the chain of parents from the root to the node: it has one
  more element than the depth of the node, starts at the root, ends at the node, and each
  element is the recorded parent of the next.\<close>

theorem path_from_root_correct:
  assumes "wf_tree t" "tree_get t i = Some r"
  shows "\<exists>path. path_from_root t i = Some (Ok path) \<and> length path = unat (nr_depth r) + 1
    \<and> hd path = ROOT \<and> last path = i \<and> linked_path t path"
  using path_from_root_wf[OF assms] by blast

section \<open>Concrete trees\<close>

text \<open>A root and a two-node tree on which the properties above are evaluated.\<close>

definition example_payload :: node_payload where
  "example_payload = \<lparr>np_snapshot = SnapshotRef [1], np_score = Score (FiniteF64 f_one),
     np_novelty_at_commit = Novelty (FiniteF64 f_one), np_cell = CellKey 3, np_state_hash = StateHash [9],
     np_stage = Stage 0, np_frame_counter = FrameCount 0\<rparr>"

definition example_root :: tree where
  "example_root = \<lparr>records = [node_record_root example_payload], children_by_node = [[]]\<rparr>"

definition example_child :: node_record where
  "example_child = node_record_child (NodeId 1) ROOT 1 example_payload"

definition example_tree :: tree where
  "example_tree = \<lparr>records = [(node_record_root example_payload)\<lparr>nr_children := 1\<rparr>, example_child],
     children_by_node = [[NodeId 1], []]\<rparr>"

lemmas example_defs = example_payload_def example_root_def example_child_def example_tree_def node_record_root_def
  node_record_child_def node_record_new_def

lemma example_score_ok: "score_ok (np_score example_payload)"
  using f_one_finite by (simp add: example_payload_def score_ok_def finite_ok_def mag_f_one)

lemma example_root_wf: "wf_tree example_root"
  by (rule tree_from_root_wf[OF _ example_score_ok]) (simp add: tree_from_root_eq example_root_def)

lemma example_insert:
  "insert_child example_root ROOT example_payload = Ok (NodeId 1, example_tree)"
  by (simp add: insert_child_def index_of_def index_children_def next_id_def
      checked_add_def ROOT_def Let_def example_defs)

lemma example_reachable: "tree_reachable example_tree"
proof (rule reach_step)
  show "tree_reachable example_root"
    using example_score_ok
    by (auto intro!: reach_root[of "node_record_root example_payload"]
        simp: from_root_record_def example_root_def res_simps validate_root_Ok node_record_root_def node_record_new_def)
  show "tree_step example_root example_tree"
    by (rule step_insert[OF example_insert example_score_ok])
qed

lemma example_get: "tree_get example_tree (NodeId 1) = Some example_child"
  by (simp add: tree_get_eq example_tree_def)

theorem tree_reachable_wf_witness: "wf_tree example_tree \<and> length (records example_tree) = 2"
  using tree_reachable_wf[OF example_reachable] by (simp add: example_tree_def)

theorem insert_child_spec_witness:
  "\<exists>c t'. insert_child example_root ROOT example_payload = Ok (c, t') \<and> wf_tree t' \<and> tree_get example_root c = None
     \<and> children_of t' c = Ok []"
  using insert_child_spec[OF example_root_wf example_insert _ example_score_ok] example_insert
  by (fastforce simp: example_root_def)

theorem path_from_root_correct_witness:
  "\<exists>path. path_from_root example_tree (NodeId 1) = Some (Ok path) \<and> length path = 2"
proof -
  have "wf_tree example_tree"
    using insert_child_wf[OF example_root_wf example_insert _ example_score_ok] by (simp add: example_root_def)
  from path_from_root_correct[OF this example_get] show ?thesis
    by (auto simp: example_child_def node_record_child_def node_record_new_def)
qed

end
