(* ===== verification/Hash_Map.thy ===== *)
theory Hash_Map
  imports Main "HOL-Library.AList" "HOL-Library.Word"
begin

text \<open>
  The hash map of the sources as an association list with distinct keys. The position of an
  entry stands for the unspecified iteration order of the real table: what the code reads out
  of a table in iteration order it sorts by key, and \<open>sorted_entries_unique\<close> is the fact
  that the sorted listing depends only on the map the table represents. The locale
  \<open>snapshot_map\<close> is the contract of a table that is written to a snapshot as its sorted
  listing and read back from it.
\<close>

section \<open>Tables\<close>

type_synonym ('k, 'v) hash_map = "('k \<times> 'v) list"

abbreviation hm_ok :: "('k, 'v) hash_map \<Rightarrow> bool" where
  "hm_ok m \<equiv> distinct (map fst m)"

abbreviation hm_get :: "('k, 'v) hash_map \<Rightarrow> 'k \<Rightarrow> 'v option" where
  "hm_get m \<equiv> map_of m"

definition hm_contains :: "('k, 'v) hash_map \<Rightarrow> 'k \<Rightarrow> bool" where
  "hm_contains m k \<longleftrightarrow> map_of m k \<noteq> None"

definition hm_insert :: "('k, 'v) hash_map \<Rightarrow> 'k \<Rightarrow> 'v \<Rightarrow> ('k, 'v) hash_map" where
  "hm_insert m k v = AList.update k v m"

definition hm_remove :: "('k, 'v) hash_map \<Rightarrow> 'k \<Rightarrow> ('k, 'v) hash_map" where
  "hm_remove m k = AList.delete k m"

text \<open>The entries of a table sorted by key.\<close>

definition hm_sorted :: "('k::linorder, 'v) hash_map \<Rightarrow> ('k \<times> 'v) list" where
  "hm_sorted m = sort_key fst m"

section \<open>Laws\<close>

lemma hm_get_insert [simp]: "hm_get (hm_insert m k v) = (hm_get m)(k \<mapsto> v)"
  by (simp add: hm_insert_def update_conv')

lemma hm_get_remove [simp]: "hm_get (hm_remove m k) = (hm_get m)(k := None)"
  by (simp add: hm_remove_def delete_conv')

lemma hm_ok_insert [simp]: "hm_ok m \<Longrightarrow> hm_ok (hm_insert m k v)"
  by (simp add: hm_insert_def distinct_update)

lemma hm_ok_remove [simp]: "hm_ok m \<Longrightarrow> hm_ok (hm_remove m k)"
  by (simp add: hm_remove_def distinct_delete)

lemma hm_contains_iff: "hm_contains m k \<longleftrightarrow> k \<in> dom (hm_get m)"
  by (auto simp: hm_contains_def)

lemma hm_length_insert:
  assumes "hm_ok m"
  shows "length (hm_insert m k v) = (if hm_get m k = None then Suc (length m) else length m)"
proof -
  have "hm_ok (hm_insert m k v)" using assms by simp
  then have "length (hm_insert m k v) = card (dom ((hm_get m)(k \<mapsto> v)))"
    by (metis distinct_card dom_map_of_conv_image_fst hm_get_insert length_map set_map)
  moreover have "card (dom (hm_get m)) = length m"
    by (metis assms distinct_card dom_map_of_conv_image_fst length_map set_map)
  ultimately show ?thesis
    using finite_dom_map_of[of m] by (auto simp: card_insert_if domIff)
qed

lemma hm_sorted_props:
  assumes "hm_ok m"
  shows "sorted (map fst (hm_sorted m))" "distinct (map fst (hm_sorted m))"
    "set (hm_sorted m) = set m" "hm_get (hm_sorted m) = hm_get m"
proof -
  show s: "sorted (map fst (hm_sorted m))" "set (hm_sorted m) = set m"
    by (simp_all add: hm_sorted_def)
  show d: "distinct (map fst (hm_sorted m))"
    using assms by (simp add: hm_sorted_def distinct_map)
  show "hm_get (hm_sorted m) = hm_get m"
    using s(2) d assms by (simp add: map_of_inject_set)
qed

lemma sorted_entries_unique:
  assumes "sorted (map fst xs)" "distinct (map fst xs)" "sorted (map fst ys)" "distinct (map fst ys)"
    "map_of xs = map_of ys"
  shows "xs = (ys :: ('k::linorder \<times> 'v) list)"
proof (rule map_sorted_distinct_set_unique[of fst])
  show same: "set xs = set ys"
    using assms(2,4,5) by (simp add: map_of_inject_set)
  show "inj_on fst (set xs \<union> set ys)"
    using assms(2) by (simp add: same[symmetric] distinct_map)
qed (use assms in auto)

section \<open>Tables that are written to a snapshot\<close>

locale snapshot_map =
  fixes listing :: "'m \<Rightarrow> ('k::linorder \<times> 'v) list"
    and restore :: "('k \<times> 'v) list \<Rightarrow> 'm"
    and contents :: "'m \<Rightarrow> 'k \<Rightarrow> 'v option"
    and keeps :: "'v \<Rightarrow> bool"
    and ok :: "'m \<Rightarrow> bool"
  assumes listing_sorted: "ok m \<Longrightarrow> sorted (map fst (listing m))"
    and listing_distinct: "ok m \<Longrightarrow> distinct (map fst (listing m))"
    and listing_contents: "ok m \<Longrightarrow> map_of (listing m) = contents m"
    and contents_kept: "ok m \<Longrightarrow> contents m k = Some v \<Longrightarrow> keeps v"
    and restore_ok: "ok (restore xs)"
    and restore_contents: "distinct (map fst xs) \<Longrightarrow> (\<And>k v. (k, v) \<in> set xs \<Longrightarrow> keeps v)
      \<Longrightarrow> contents (restore xs) = map_of xs"
begin

lemma restore_listing:
  assumes "ok m"
  shows "contents (restore (listing m)) = contents m"
  using restore_contents[OF listing_distinct[OF assms]] listing_contents[OF assms]
    contents_kept[OF assms] listing_distinct[OF assms]
  by (metis map_of_eq_Some_iff)

lemma listing_canonical:
  assumes "ok m" "ok n" "contents m = contents n"
  shows "listing m = listing n"
  using assms by (intro sorted_entries_unique) (simp_all add: listing_sorted listing_distinct listing_contents)

lemma listing_restore_listing: "ok m \<Longrightarrow> listing (restore (listing m)) = listing m"
  by (rule listing_canonical[OF restore_ok _ restore_listing])

lemma restore_exact:
  assumes "sorted (map fst xs)" "distinct (map fst xs)" "\<And>k v. (k, v) \<in> set xs \<Longrightarrow> keeps v"
  shows "listing (restore xs) = xs"
  using assms by (intro sorted_entries_unique)
    (simp_all add: listing_sorted listing_distinct listing_contents restore_ok restore_contents)

end

end
