(* ===== verification/Frontier_Set.thy ===== *)
theory Frontier_Set
  imports Search_Tree Hash_Map
begin

text \<open>
  The frontier (\<open>crates/orch-core/src/frontier.rs\<close>): a vector of node ids with a position
  index, removal by \<open>swap_remove\<close>, and the sorted listings selection works from. The locale
  \<open>id_set\<close> is the contract the commit loop and the policies rely on; it is interpreted on
  the indexed vector.
\<close>

unbundle bit_operations_syntax

section \<open>The indexed vector\<close>

datatype frontier_error =
    FrontierDuplicate node_id
  | FrontierMissing node_id
  | FrontierUnknownNode node_id

fun frontier_error_display :: "frontier_error \<Rightarrow> string" where
  "frontier_error_display (FrontierDuplicate i) = ''node '' @ show_node_id i @ '' already in frontier''"
| "frontier_error_display (FrontierMissing i) = ''node '' @ show_node_id i @ '' not in frontier''"
| "frontier_error_display (FrontierUnknownNode i) = ''node '' @ show_node_id i @ '' not in tree''"

text \<open>The hasher of the index: a multiplicative byte hash.\<close>

fun frontier_hasher_write :: "u64 \<Rightarrow> u8 list \<Rightarrow> u64" where
  "frontier_hasher_write h [] = h"
| "frontier_hasher_write h (b # bs) = frontier_hasher_write ((h XOR ucast b) * 0x100000001b3) bs"

definition frontier_hasher_write_u64 :: "u64 \<Rightarrow> u64 \<Rightarrow> u64" where
  "frontier_hasher_write_u64 h v = frontier_hasher_write h (to_le_bytes v)"

record frontier =
  fr_entries :: "node_id list"
  fr_index :: "(node_id, nat) hash_map"

definition frontier_new :: frontier where
  "frontier_new = \<lparr>fr_entries = [], fr_index = []\<rparr>"

definition frontier_insert :: "frontier \<Rightarrow> node_id \<Rightarrow> (frontier_error, frontier) res" where
  "frontier_insert f i =
     (if hm_contains (fr_index f) i then Err (FrontierDuplicate i)
      else let entry_index = length (fr_entries f) in
        Ok \<lparr>fr_entries = fr_entries f @ [i], fr_index = hm_insert (fr_index f) i entry_index\<rparr>)"

definition frontier_with_root :: "(frontier_error, frontier) res" where
  "frontier_with_root = (case frontier_insert frontier_new ROOT of
       Ok f \<Rightarrow> Ok f | _ \<Rightarrow> Panic ''fresh frontier is empty'')"

text \<open>\<open>Vec::swap_remove\<close>: the last element takes the place of the removed one.\<close>

definition swap_remove :: "'a list \<Rightarrow> nat \<Rightarrow> ('e, 'a \<times> 'a list) res" where
  "swap_remove xs k =
     (if k < length xs then Ok (xs ! k, butlast (xs[k := last xs]))
      else Panic ''swap_remove index out of bounds'')"

text \<open>The \<open>debug_assert_eq!\<close> of the source is a panic here; \<open>frontier_remove_spec\<close> shows that
  neither it nor the bounds check can fire.\<close>

definition frontier_remove :: "frontier \<Rightarrow> node_id \<Rightarrow> (frontier_error, frontier) res" where
  "frontier_remove f i =
     bind_res (ok_or (hm_get (fr_index f) i) (FrontierMissing i)) (\<lambda>entry_index.
       let index = hm_remove (fr_index f) i in
       bind_res (swap_remove (fr_entries f) entry_index) (\<lambda>(removed, entries).
         if removed \<noteq> i then Panic ''assertion failed: removed == id''
         else if entry_index < length entries
           then Ok \<lparr>fr_entries = entries, fr_index = hm_insert index (entries ! entry_index) entry_index\<rparr>
           else Ok \<lparr>fr_entries = entries, fr_index = index\<rparr>))"

definition frontier_contains :: "frontier \<Rightarrow> node_id \<Rightarrow> bool" where
  "frontier_contains f i = hm_contains (fr_index f) i"

definition frontier_len :: "frontier \<Rightarrow> nat" where
  "frontier_len f = length (fr_entries f)"

definition frontier_is_empty :: "frontier \<Rightarrow> bool" where
  "frontier_is_empty f \<longleftrightarrow> fr_entries f = []"

definition deterministic_entries :: "frontier \<Rightarrow> node_id list" where
  "deterministic_entries f = sort (fr_entries f)"

fun candidates_loop :: "tree \<Rightarrow> node_id list \<Rightarrow> node_id list \<Rightarrow> (frontier_error, node_id list) res" where
  "candidates_loop t [] acc = Ok acc"
| "candidates_loop t (i # is) acc =
     bind_res (ok_or (tree_get t i) (FrontierUnknownNode i)) (\<lambda>r.
       candidates_loop t is (if is_frontier_candidate r then acc @ [i] else acc))"

definition deterministic_candidates :: "frontier \<Rightarrow> tree \<Rightarrow> (frontier_error, node_id list) res" where
  "deterministic_candidates f t =
     bind_res (candidates_loop t (fr_entries f) []) (\<lambda>candidates. Ok (sort candidates))"

section \<open>Representation invariant\<close>

text \<open>The index holds exactly the position of every entry.\<close>

definition frontier_inv :: "frontier \<Rightarrow> bool" where
  "frontier_inv f \<longleftrightarrow> distinct (fr_entries f) \<and> hm_ok (fr_index f)
     \<and> (\<forall>i k. hm_get (fr_index f) i = Some k \<longleftrightarrow> k < length (fr_entries f) \<and> fr_entries f ! k = i)"

abbreviation frontier_ids :: "frontier \<Rightarrow> node_id set" where
  "frontier_ids f \<equiv> set (fr_entries f)"

lemma frontier_contains_iff: "frontier_inv f \<Longrightarrow> frontier_contains f i \<longleftrightarrow> i \<in> frontier_ids f"
  by (auto simp: frontier_inv_def frontier_contains_def hm_contains_def in_set_conv_nth)

lemma frontier_new_inv: "frontier_inv frontier_new"
  by (simp add: frontier_inv_def frontier_new_def)

lemma frontier_insert_spec:
  assumes inv: "frontier_inv f"
  shows "case frontier_insert f i of
      Ok f' \<Rightarrow> i \<notin> frontier_ids f \<and> frontier_inv f' \<and> fr_entries f' = fr_entries f @ [i]
    | Err e \<Rightarrow> e = FrontierDuplicate i \<and> i \<in> frontier_ids f
    | Panic m \<Rightarrow> False"
proof (cases "i \<in> frontier_ids f")
  case True
  then show ?thesis using frontier_contains_iff[OF inv] by (simp add: frontier_insert_def frontier_contains_def)
next
  case False
  then have no: "\<not> hm_contains (fr_index f) i"
    using frontier_contains_iff[OF inv] by (simp add: frontier_contains_def)
  have "hm_get (hm_insert (fr_index f) i (length (fr_entries f))) j = Some k \<longleftrightarrow>
      k < length (fr_entries f @ [i]) \<and> (fr_entries f @ [i]) ! k = j" for j k
    using inv False by (auto simp: frontier_inv_def nth_append less_Suc_eq split: if_splits)
  then show ?thesis using no False inv by (simp add: frontier_insert_def frontier_inv_def Let_def)
qed

lemma nth_swap_remove:
  assumes "k < length xs" "j < length xs - 1"
  shows "butlast (xs[k := last xs]) ! j = xs ! (if j = k then length xs - 1 else j)"
proof -
  have "xs \<noteq> []" using assms(1) by auto
  then show ?thesis using assms by (simp add: nth_butlast last_conv_nth)
qed

lemma set_swap_remove:
  assumes "distinct xs" "k < length xs"
  shows "set (butlast (xs[k := last xs])) = set xs - {xs ! k}" "distinct (butlast (xs[k := last xs]))"
proof -
  let ?ys = "butlast (xs[k := last xs])"
  note nth = nth_swap_remove[OF assms(2)]
  have "x \<in> set ?ys \<longleftrightarrow> x \<in> set xs - {xs ! k}" for x
  proof
    assume "x \<in> set ?ys"
    then obtain j where j: "j < length xs - 1" "x = ?ys ! j" by (auto simp: in_set_conv_nth)
    show "x \<in> set xs - {xs ! k}"
      using assms j(1) unfolding j(2) nth[OF j(1)] by (auto simp: nth_eq_iff_index_eq)
  next
    assume "x \<in> set xs - {xs ! k}"
    then obtain j where j: "j < length xs" "x = xs ! j" "j \<noteq> k" by (auto simp: in_set_conv_nth)
    define i where "i = (if j = length xs - 1 then k else j)"
    have i: "i < length xs - 1" using j assms(2) by (auto simp: i_def)
    have "?ys ! i = x" using j by (simp add: nth[OF i]) (simp add: i_def)
    then show "x \<in> set ?ys" using i by (metis length_butlast length_list_update nth_mem)
  qed
  then show "set ?ys = set xs - {xs ! k}" by blast
  have "?ys ! i \<noteq> ?ys ! j" if "i < length xs - 1" "j < length xs - 1" "i \<noteq> j" for i j
    using that assms by (simp add: nth nth_eq_iff_index_eq del: One_nat_def)
  then show "distinct ?ys" unfolding distinct_conv_nth by simp
qed

text \<open>What the index repair has to achieve, on the lists alone.\<close>

lemma index_repair:
  assumes d: "distinct xs" and k: "k < length xs" and len: "length ys = length xs - 1"
    and nth: "\<And>j. j < length ys \<Longrightarrow> ys ! j = xs ! (if j = k then length xs - 1 else j)"
    and ix: "\<And>i j. m i = Some j \<longleftrightarrow> j < length xs \<and> xs ! j = i"
    and m': "m' = (if k < length ys then (m(xs ! k := None))(ys ! k \<mapsto> k) else m(xs ! k := None))"
  shows "m' i = Some j \<longleftrightarrow> j < length ys \<and> ys ! j = i"
proof -
  have m0: "(m(xs ! k := None)) i = Some j \<longleftrightarrow> j < length xs \<and> j \<noteq> k \<and> xs ! j = i"
    using ix[of i j] k d by (auto simp: nth_eq_iff_index_eq)
  show ?thesis
  proof (cases "k < length ys")
    case True
    then have yk: "ys ! k = xs ! (length xs - 1)" using nth[of k] by simp
    have lt: "j < length ys \<longleftrightarrow> j < length xs \<and> j \<noteq> length xs - 1" using len k by auto
    show ?thesis
    proof (cases "i = ys ! k")
      case True
      then have "j < length ys \<and> ys ! j = i \<longleftrightarrow> j = k"
        using d k lt nth yk \<open>k < length ys\<close> by (auto simp: nth_eq_iff_index_eq split: if_splits)
      then show ?thesis using True \<open>k < length ys\<close> m' by auto
    next
      case False
      then have "m' i = (m(xs ! k := None)) i" using m' True by simp
      then show ?thesis using m0 False lt nth yk by (cases "j = k") auto
    qed
  next
    case False
    then have "m' = m(xs ! k := None)" "k = length xs - 1" using m' k len by auto
    then show ?thesis using m0 nth[of j] len False k by auto
  qed
qed

lemma frontier_remove_spec:
  assumes inv: "frontier_inv f"
  shows "case frontier_remove f i of
      Ok f' \<Rightarrow> i \<in> frontier_ids f \<and> frontier_inv f' \<and> frontier_ids f' = frontier_ids f - {i}
    | Err e \<Rightarrow> e = FrontierMissing i \<and> i \<notin> frontier_ids f
    | Panic m \<Rightarrow> False"
proof (cases "hm_get (fr_index f) i")
  case None
  then show ?thesis using frontier_contains_iff[OF inv, of i]
    by (simp add: frontier_remove_def frontier_contains_def hm_contains_def)
next
  case (Some k)
  define xs where "xs = fr_entries f"
  define ys where "ys = butlast (xs[k := last xs])"
  have d: "distinct xs" and ok: "hm_ok (fr_index f)"
    and ix: "hm_get (fr_index f) i = Some k \<longleftrightarrow> k < length xs \<and> xs ! k = i" for i k
    using inv unfolding frontier_inv_def xs_def by blast+
  have k: "k < length xs" "xs ! k = i" using ix Some by blast+
  define m' where "m' = (if k < length ys then hm_insert (hm_remove (fr_index f) i) (ys ! k) k
    else hm_remove (fr_index f) i)"
  have res: "frontier_remove f i = Ok \<lparr>fr_entries = ys, fr_index = m'\<rparr>"
    using Some k by (simp add: frontier_remove_def swap_remove_def Let_def m'_def ys_def xs_def)
  have len: "length ys = length xs - 1" by (simp add: ys_def)
  have nth: "ys ! j = xs ! (if j = k then length xs - 1 else j)" if "j < length ys" for j
    using nth_swap_remove[OF k(1), of j] that by (simp add: ys_def)
  have m': "hm_get m' = (if k < length ys then ((hm_get (fr_index f))(xs ! k := None))(ys ! k \<mapsto> k)
      else (hm_get (fr_index f))(xs ! k := None))"
    by (simp add: m'_def k(2))
  have "hm_ok m'" using ok by (simp add: m'_def)
  moreover have "hm_get m' j = Some n \<longleftrightarrow> n < length ys \<and> ys ! n = j" for j n
    by (rule index_repair[where xs = xs and k = k and m = "hm_get (fr_index f)", OF d k(1) len nth ix m'])
  moreover have "distinct ys" using set_swap_remove(2)[OF d k(1)] by (simp add: ys_def)
  ultimately have "frontier_inv \<lparr>fr_entries = ys, fr_index = m'\<rparr>"
    unfolding frontier_inv_def by simp
  moreover have "set ys = set xs - {i}"
    using set_swap_remove(1)[OF d k(1)] unfolding ys_def k(2) .
  moreover have "i \<in> set xs" using k nth_mem by blast
  ultimately show ?thesis by (simp add: res xs_def)
qed

section \<open>The contract of the frontier\<close>

locale id_set =
  fixes empty :: 'f
    and ins :: "'f \<Rightarrow> node_id \<Rightarrow> ('e, 'f) res"
    and rem :: "'f \<Rightarrow> node_id \<Rightarrow> ('e, 'f) res"
    and mem :: "'f \<Rightarrow> node_id \<Rightarrow> bool"
    and elems :: "'f \<Rightarrow> node_id list"
    and inv :: "'f \<Rightarrow> bool"
  assumes inv_empty: "inv empty" and elems_empty: "elems empty = []"
    and elems_distinct: "inv f \<Longrightarrow> distinct (elems f)"
    and mem_iff: "inv f \<Longrightarrow> mem f i \<longleftrightarrow> i \<in> set (elems f)"
    and ins_Ok: "inv f \<Longrightarrow> ins f i = Ok f' \<Longrightarrow>
      i \<notin> set (elems f) \<and> inv f' \<and> set (elems f') = insert i (set (elems f))"
    and ins_fresh: "inv f \<Longrightarrow> i \<notin> set (elems f) \<Longrightarrow> \<exists>f'. ins f i = Ok f'"
    and rem_Ok: "inv f \<Longrightarrow> rem f i = Ok f' \<Longrightarrow>
      i \<in> set (elems f) \<and> inv f' \<and> set (elems f') = set (elems f) - {i}"
    and rem_member: "inv f \<Longrightarrow> i \<in> set (elems f) \<Longrightarrow> \<exists>f'. rem f i = Ok f'"
begin

lemma size_card: "inv f \<Longrightarrow> length (elems f) = card (set (elems f))"
  using elems_distinct by (simp add: distinct_card)

lemma filtered_listing:
  "inv f \<Longrightarrow> sort (filter P (elems f)) = sorted_list_of_set {i \<in> set (elems f). P i}"
  using sorted_list_of_set_sort_remdups[of "filter P (elems f)"] elems_distinct[of f]
  by (simp add: distinct_remdups_id)

lemma listing_by_set: "inv f \<Longrightarrow> sort (elems f) = sorted_list_of_set (set (elems f))"
  using filtered_listing[of f "\<lambda>_. True"] by simp

lemma insert_remove:
  assumes "inv f" "ins f i = Ok f'"
  obtains f'' where "rem f' i = Ok f''" "inv f''" "set (elems f'') = set (elems f)"
  using ins_Ok[OF assms] rem_member[of f' i] rem_Ok[of f' i]
  by (metis Diff_insert_absorb insertI1)

end

interpretation fs: id_set frontier_new frontier_insert frontier_remove frontier_contains fr_entries frontier_inv
proof unfold_locales
  show "frontier_inv frontier_new" by (rule frontier_new_inv)
  show "fr_entries frontier_new = []" by (simp add: frontier_new_def)
next
  fix f i assume inv: "frontier_inv f"
  then show "distinct (fr_entries f)" by (simp add: frontier_inv_def)
  show "frontier_contains f i = (i \<in> set (fr_entries f))" by (rule frontier_contains_iff[OF inv])
  show "\<exists>f'. frontier_insert f i = Ok f'" if "i \<notin> set (fr_entries f)"
    using frontier_insert_spec[OF inv, of i] that by (cases "frontier_insert f i") auto
  show "\<exists>f'. frontier_remove f i = Ok f'" if "i \<in> set (fr_entries f)"
    using frontier_remove_spec[OF inv, of i] that by (cases "frontier_remove f i") auto
next
  fix f i f' assume inv: "frontier_inv f"
  show "i \<notin> set (fr_entries f) \<and> frontier_inv f' \<and> set (fr_entries f') = insert i (set (fr_entries f))"
    if "frontier_insert f i = Ok f'"
    using frontier_insert_spec[OF inv, of i] that by simp
  show "i \<in> set (fr_entries f) \<and> frontier_inv f' \<and> set (fr_entries f') = set (fr_entries f) - {i}"
    if "frontier_remove f i = Ok f'"
    using frontier_remove_spec[OF inv, of i] that by simp
qed

section \<open>Candidates\<close>

definition candidate_in :: "tree \<Rightarrow> node_id \<Rightarrow> bool" where
  "candidate_in t i \<longleftrightarrow> (case tree_get t i of Some r \<Rightarrow> is_frontier_candidate r | None \<Rightarrow> False)"

lemma candidates_loop_eq:
  "candidates_loop t is acc = (case find (\<lambda>i. tree_get t i = None) is of
     Some i \<Rightarrow> Err (FrontierUnknownNode i) | None \<Rightarrow> Ok (acc @ filter (candidate_in t) is))"
  by (induction "is" arbitrary: acc) (auto simp: candidate_in_def split: option.splits)

lemma deterministic_candidates_eq:
  assumes "frontier_inv f" "\<forall>i \<in> frontier_ids f. tree_get t i \<noteq> None"
  shows "deterministic_candidates f t = Ok (sorted_list_of_set {i \<in> frontier_ids f. candidate_in t i})"
proof -
  have "find (\<lambda>i. tree_get t i = None) (fr_entries f) = None"
    using assms(2) by (auto simp: find_None_iff)
  then show ?thesis
    using fs.filtered_listing[OF assms(1)] by (simp add: deterministic_candidates_def candidates_loop_eq)
qed

lemma deterministic_candidates_Ok:
  assumes "frontier_inv f" "deterministic_candidates f t = Ok cs"
  shows "sorted cs" "distinct cs" "set cs = {i \<in> frontier_ids f. candidate_in t i}"
    "\<forall>i \<in> frontier_ids f. tree_get t i \<noteq> None"
proof -
  show known: "\<forall>i \<in> frontier_ids f. tree_get t i \<noteq> None"
    using assms(2) by (auto simp: deterministic_candidates_def candidates_loop_eq res_simps find_None_iff
        split: option.splits)
  from deterministic_candidates_eq[OF assms(1) this] assms(2)
  have "cs = sorted_list_of_set {i \<in> frontier_ids f. candidate_in t i}" by simp
  then show "sorted cs" "distinct cs" "set cs = {i \<in> frontier_ids f. candidate_in t i}" by simp_all
qed

section \<open>Properties\<close>

text \<open>C9: The frontier implements a set of node ids. From a frontier whose index agrees with its
  vector, insertion adds an absent id and rejects a present one, removal takes out a present id
  and rejects an absent one, both keep index and vector in agreement, membership and length
  are those of the set, and neither the bounds check of \<open>swap_remove\<close> nor the debug assertion
  can fail.\<close>

theorem frontier_refines_set:
  assumes "frontier_inv f"
  shows "(case frontier_insert f i of
        Ok f' \<Rightarrow> i \<notin> frontier_ids f \<and> frontier_inv f' \<and> frontier_ids f' = insert i (frontier_ids f)
      | Err e \<Rightarrow> e = FrontierDuplicate i \<and> i \<in> frontier_ids f
      | Panic m \<Rightarrow> False)
    \<and> (case frontier_remove f i of
        Ok f' \<Rightarrow> i \<in> frontier_ids f \<and> frontier_inv f' \<and> frontier_ids f' = frontier_ids f - {i}
      | Err e \<Rightarrow> e = FrontierMissing i \<and> i \<notin> frontier_ids f
      | Panic m \<Rightarrow> False)
    \<and> (frontier_contains f i \<longleftrightarrow> i \<in> frontier_ids f)
    \<and> frontier_len f = card (frontier_ids f)"
  using frontier_insert_spec[OF assms, of i] frontier_remove_spec[OF assms, of i]
    fs.size_card[OF assms] fs.mem_iff[OF assms]
  by (auto simp: frontier_len_def split: res.splits)

text \<open>C39: The candidate list selection works from is a function of the set of frontier ids and of
  the tree only, whatever the order of insertions and removals that led there: it lists, in
  ascending id order and without repetition, the frontier nodes whose record is a candidate.\<close>

theorem deterministic_candidates_canonical:
  assumes "frontier_inv f" "\<forall>i \<in> frontier_ids f. tree_get t i \<noteq> None"
  shows "\<exists>cs. deterministic_candidates f t = Ok cs \<and> sorted cs \<and> distinct cs
    \<and> set cs = {i \<in> frontier_ids f. \<exists>r. tree_get t i = Some r \<and> is_frontier_candidate r}
    \<and> (\<forall>g. frontier_inv g \<longrightarrow> frontier_ids g = frontier_ids f \<longrightarrow> deterministic_candidates g t = Ok cs)"
proof -
  let ?cs = "sorted_list_of_set {i \<in> frontier_ids f. candidate_in t i}"
  have "deterministic_candidates g t = Ok ?cs" if "frontier_inv g" "frontier_ids g = frontier_ids f" for g
    using deterministic_candidates_eq[OF that(1)] that(2) assms(2) by simp
  moreover have "set ?cs = {i \<in> frontier_ids f. \<exists>r. tree_get t i = Some r \<and> is_frontier_candidate r}"
    by (auto simp: candidate_in_def split: option.splits)
  ultimately show ?thesis using assms(1) by (intro exI[of _ ?cs]) simp
qed

definition example_frontier :: frontier where
  "example_frontier = \<lparr>fr_entries = [NodeId 1, ROOT], fr_index = [(NodeId 1, 0), (ROOT, 1)]\<rparr>"

lemma example_frontier_inv: "frontier_inv example_frontier"
  by (auto simp: frontier_inv_def example_frontier_def ROOT_def less_Suc_eq nth_Cons split: nat.splits if_splits)

theorem frontier_refines_set_witness:
  "frontier_remove example_frontier (NodeId 1) = Ok \<lparr>fr_entries = [ROOT], fr_index = [(ROOT, 0)]\<rparr>
   \<and> frontier_inv \<lparr>fr_entries = [ROOT], fr_index = [(ROOT, 0)]\<rparr>"
proof -
  have r: "frontier_remove example_frontier (NodeId 1) = Ok \<lparr>fr_entries = [ROOT], fr_index = [(ROOT, 0)]\<rparr>"
    by (simp add: frontier_remove_def example_frontier_def swap_remove_def hm_remove_def hm_insert_def ROOT_def)
  then show ?thesis
    using frontier_refines_set[OF example_frontier_inv, of "NodeId 1"] by simp
qed

theorem deterministic_candidates_canonical_witness:
  "\<exists>cs. deterministic_candidates example_frontier example_tree = Ok cs \<and> set cs = {ROOT, NodeId 1}"
proof -
  have "\<forall>i \<in> frontier_ids example_frontier. tree_get example_tree i \<noteq> None"
    by (simp add: example_frontier_def tree_get_def index_of_def example_tree_def Let_def ROOT_def)
  from deterministic_candidates_canonical[OF example_frontier_inv this] show ?thesis
    by (auto simp: example_frontier_def tree_get_def index_of_def example_defs Let_def ROOT_def
        is_frontier_candidate_def)
qed

end
