(* ===== verification/Mirror.thy ===== *)
theory Mirror
  imports Types Hash_Map
begin

text \<open>
  The cell-count mirror and the state-hash table of the search
  (\<open>crates/orch-core/src/mirror.rs\<close>): visit counts per cell with the novelty they induce, the
  first node seen for every state hash, and the sorted snapshot both are saved as. The two
  tables are interpretations of \<open>snapshot_map\<close>.
\<close>

unbundle bit_operations_syntax

declare map_of_eq_Some_iff [simp del]

section \<open>Cell counts\<close>

fun mirror_hasher_write :: "u64 \<Rightarrow> u8 list \<Rightarrow> u64" where
  "mirror_hasher_write h [] = h"
| "mirror_hasher_write h (b # bs) = mirror_hasher_write ((h XOR ucast b) * 0x100000001b3) bs"

record cell_mirror =
  cm_counts :: "(cell_key, u32) hash_map"

definition cell_mirror_new :: cell_mirror where
  "cell_mirror_new = \<lparr>cm_counts = []\<rparr>"

definition cell_count :: "cell_mirror \<Rightarrow> cell_key \<Rightarrow> u32" where
  "cell_count m c = (case hm_get (cm_counts m) c of None \<Rightarrow> 0 | Some n \<Rightarrow> n)"

text \<open>The entry is created at 0 before the addition; the state a panic leaves is not observed.\<close>

definition cell_bump_by :: "cell_mirror \<Rightarrow> cell_key \<Rightarrow> u32 \<Rightarrow> ('e, u32 \<times> cell_mirror) res" where
  "cell_bump_by m c amount =
     (if amount = 0 then Ok (cell_count m c, m)
      else bind_res (expect (checked_add (cell_count m c) amount) ''cell mirror count overflowed'')
        (\<lambda>entry. Ok (entry, m\<lparr>cm_counts := hm_insert (cm_counts m) c entry\<rparr>)))"

definition cell_bump :: "cell_mirror \<Rightarrow> cell_key \<Rightarrow> ('e, u32 \<times> cell_mirror) res" where
  "cell_bump m c = cell_bump_by m c 1"

definition cell_novelty :: "cell_mirror \<Rightarrow> cell_key \<Rightarrow> f64" where
  "cell_novelty m c = f_div f_one (f_sqrt (f_add f_one (f64_of_nat (unat (cell_count m c)))))"

definition reset_for_rebin :: "cell_mirror \<Rightarrow> cell_mirror" where
  "reset_for_rebin m = m\<lparr>cm_counts := []\<rparr>"

definition cell_len :: "cell_mirror \<Rightarrow> nat" where
  "cell_len m = length (cm_counts m)"

definition cell_is_empty :: "cell_mirror \<Rightarrow> bool" where
  "cell_is_empty m \<longleftrightarrow> cm_counts m = []"

definition sorted_counts :: "cell_mirror \<Rightarrow> (cell_key \<times> u32) list" where
  "sorted_counts m = hm_sorted (cm_counts m)"

fun from_sorted_counts_loop :: "cell_mirror \<Rightarrow> (cell_key \<times> u32) list \<Rightarrow> cell_mirror" where
  "from_sorted_counts_loop m [] = m"
| "from_sorted_counts_loop m ((c, n) # xs) =
     from_sorted_counts_loop (if n \<noteq> 0 then m\<lparr>cm_counts := hm_insert (cm_counts m) c n\<rparr> else m) xs"

definition from_sorted_counts :: "(cell_key \<times> u32) list \<Rightarrow> cell_mirror" where
  "from_sorted_counts xs = from_sorted_counts_loop cell_mirror_new xs"

section \<open>State hashes already seen\<close>

record seen_map =
  sm_map :: "(state_hash, node_id) hash_map"

definition seen_map_new :: seen_map where
  "seen_map_new = \<lparr>sm_map = []\<rparr>"

definition seen_insert :: "seen_map \<Rightarrow> state_hash \<Rightarrow> node_id \<Rightarrow> node_id option \<times> seen_map" where
  "seen_insert s h n = (case hm_get (sm_map s) h of
       Some existing \<Rightarrow> (Some existing, s)
     | None \<Rightarrow> (None, s\<lparr>sm_map := hm_insert (sm_map s) h n\<rparr>))"

definition seen_get :: "seen_map \<Rightarrow> state_hash \<Rightarrow> node_id option" where
  "seen_get s h = hm_get (sm_map s) h"

definition seen_contains :: "seen_map \<Rightarrow> state_hash \<Rightarrow> bool" where
  "seen_contains s h = hm_contains (sm_map s) h"

definition seen_len :: "seen_map \<Rightarrow> nat" where
  "seen_len s = length (sm_map s)"

definition seen_is_empty :: "seen_map \<Rightarrow> bool" where
  "seen_is_empty s \<longleftrightarrow> sm_map s = []"

definition sorted_entries :: "seen_map \<Rightarrow> (state_hash \<times> node_id) list" where
  "sorted_entries s = hm_sorted (sm_map s)"

fun from_sorted_entries_loop :: "seen_map \<Rightarrow> (state_hash \<times> node_id) list \<Rightarrow> seen_map" where
  "from_sorted_entries_loop s [] = s"
| "from_sorted_entries_loop s ((h, n) # xs) = from_sorted_entries_loop (snd (seen_insert s h n)) xs"

definition from_sorted_entries :: "(state_hash \<times> node_id) list \<Rightarrow> seen_map" where
  "from_sorted_entries xs = from_sorted_entries_loop seen_map_new xs"

section \<open>Snapshots\<close>

record mirror_snapshot =
  ms_cell_counts :: "(cell_key \<times> u32) list"
  ms_seen :: "(state_hash \<times> node_id) list"

definition from_parts :: "cell_mirror \<Rightarrow> seen_map \<Rightarrow> mirror_snapshot" where
  "from_parts cells seen = \<lparr>ms_cell_counts = sorted_counts cells, ms_seen = sorted_entries seen\<rparr>"

definition into_parts :: "mirror_snapshot \<Rightarrow> cell_mirror \<times> seen_map" where
  "into_parts s = (from_sorted_counts (ms_cell_counts s), from_sorted_entries (ms_seen s))"

definition reset_cell_counts_for_rebin :: "mirror_snapshot \<Rightarrow> mirror_snapshot" where
  "reset_cell_counts_for_rebin s = s\<lparr>ms_cell_counts := []\<rparr>"

section \<open>Invariants of the tables\<close>

text \<open>A stored count is never 0.\<close>

definition cells_ok :: "cell_mirror \<Rightarrow> bool" where
  "cells_ok m \<longleftrightarrow> hm_ok (cm_counts m) \<and> (\<forall>c. hm_get (cm_counts m) c \<noteq> Some 0)"

definition seen_ok :: "seen_map \<Rightarrow> bool" where
  "seen_ok s \<longleftrightarrow> hm_ok (sm_map s)"

lemma cells_ok_new: "cells_ok cell_mirror_new"
  by (simp add: cells_ok_def cell_mirror_new_def)

lemma cells_ok_reset: "cells_ok (reset_for_rebin m)"
  by (simp add: cells_ok_def reset_for_rebin_def)

lemma cell_bump_by_Ok:
  assumes "cell_bump_by m c a = Ok (v, m')"
  shows "unat v = unat (cell_count m c) + unat a"
    "cell_count m' = (cell_count m)(c := v)" "cells_ok m \<Longrightarrow> cells_ok m'"
proof -
  show v: "unat v = unat (cell_count m c) + unat a"
    using assms by (auto simp: cell_bump_by_def res_simps checked_simps unat_add_no_overflow split: if_splits)
  show "cell_count m' = (cell_count m)(c := v)"
    using assms by (auto simp: cell_bump_by_def res_simps cell_count_def fun_eq_iff split: if_splits)
  have "v \<noteq> 0" if "a \<noteq> 0" using v that by (auto simp: unat_eq_zero)
  then show "cells_ok m \<Longrightarrow> cells_ok m'"
    using assms by (auto simp: cell_bump_by_def res_simps cells_ok_def split: if_splits)
qed

lemma cell_bump_by_no_Err: "cell_bump_by m c a \<noteq> Err e"
  by (auto simp: cell_bump_by_def res_simps)

lemma cell_bump_by_total:
  "unat (cell_count m c) + unat a < 2 ^ 32 \<Longrightarrow> \<exists>v m'. cell_bump_by m c a = Ok (v, m')"
  by (simp add: cell_bump_by_def checked_add_def)

lemma cells_ok_loop: "cells_ok m \<Longrightarrow> cells_ok (from_sorted_counts_loop m xs)"
  by (induction m xs rule: from_sorted_counts_loop.induct) (auto simp: cells_ok_def)

lemma from_sorted_counts_get:
  "distinct (map fst xs) \<Longrightarrow> \<forall>x \<in> set xs. snd x \<noteq> 0 \<Longrightarrow>
     hm_get (cm_counts (from_sorted_counts_loop m xs)) = hm_get (cm_counts m) ++ map_of xs"
proof (induction m xs rule: from_sorted_counts_loop.induct)
  case (2 m c n xs)
  have c: "map_of xs c = None" using 2(2) by (simp add: map_of_eq_None_iff)
  show ?case using 2 c by (auto simp: map_add_def fun_eq_iff split: option.splits)
qed simp

lemma seen_ok_loop: "seen_ok s \<Longrightarrow> seen_ok (from_sorted_entries_loop s xs)"
  by (induction s xs rule: from_sorted_entries_loop.induct)
    (auto simp: seen_ok_def seen_insert_def split: option.splits)

lemma from_sorted_entries_get:
  "distinct (map fst xs) \<Longrightarrow> hm_get (sm_map (from_sorted_entries_loop s xs)) = map_of xs ++ hm_get (sm_map s)"
proof (induction s xs rule: from_sorted_entries_loop.induct)
  case (2 s h n xs)
  then have "map_of xs h = None" by (simp add: map_of_eq_None_iff)
  then show ?case using 2
    by (auto simp: map_add_def fun_eq_iff seen_insert_def split: option.splits)
qed simp

lemma seen_insert_ok: "seen_ok s \<Longrightarrow> seen_ok (snd (seen_insert s h n))"
  by (auto simp: seen_ok_def seen_insert_def split: option.splits)

lemma seen_get_insert:
  "seen_get (snd (seen_insert s h n)) = (case seen_get s h of None \<Rightarrow> (seen_get s)(h \<mapsto> n) | Some _ \<Rightarrow> seen_get s)"
  by (auto simp: seen_get_def[abs_def] seen_insert_def split: option.splits)

interpretation cells: snapshot_map sorted_counts from_sorted_counts "\<lambda>m. hm_get (cm_counts m)"
  "\<lambda>n. n \<noteq> 0" cells_ok
  by unfold_locales
    (auto simp: sorted_counts_def hm_sorted_props cells_ok_def from_sorted_counts_def cell_mirror_new_def
      from_sorted_counts_get Ball_def cells_ok_loop[unfolded cells_ok_def])

interpretation seen: snapshot_map sorted_entries from_sorted_entries seen_get "\<lambda>_. True" seen_ok
  by unfold_locales
    (auto simp: sorted_entries_def hm_sorted_props seen_ok_def seen_get_def[abs_def] from_sorted_entries_def
      seen_map_new_def from_sorted_entries_get seen_ok_loop[unfolded seen_ok_def])

lemma cell_count_by_get: "hm_get (cm_counts m) = hm_get (cm_counts n) \<Longrightarrow> cell_count m = cell_count n"
  by (simp add: cell_count_def fun_eq_iff)

lemma cell_novelty_facts:
  "is_finite (cell_novelty m c) \<and> f_lt f_zero (cell_novelty m c) \<and> f_le (cell_novelty m c) f_one
   \<and> (cell_count m c \<le> cell_count m' c' \<longrightarrow> f_le (cell_novelty m' c') (cell_novelty m c))"
proof -
  let ?x = "\<lambda>m c. f_add f_one (f64_of_nat (unat (cell_count m c)))"
  have le: "unat (cell_count m c) \<le> 2 ^ 64" for m c
  proof -
    have "unat (cell_count m c) < 2 ^ LENGTH(32)" by (rule unsigned_less)
    then show ?thesis by simp
  qed
  have one: "0 < skey f_one" by (simp add: skey_def mag_f_one)
  note root = f_sqrt_ge_one[OF one_plus_count[OF le]]
  have pos: "0 < skey (f_sqrt (?x m c))" for m c using root(2)[of m c] one by linarith
  have fin: "is_finite (cell_novelty m c)" "skey (cell_novelty m c) \<le> skey f_one" for m c
    unfolding cell_novelty_def using f_div_unit[of f_one "f_sqrt (?x m c)"] root[of m c] pos[of m c] one by auto
  have gt: "0 < skey (cell_novelty m c)"
    unfolding cell_novelty_def by (rule f_div_one_pos[OF root(1) pos])
  have anti: "skey (cell_novelty m' c') \<le> skey (cell_novelty m c)" if "cell_count m c \<le> cell_count m' c'"
  proof -
    have "skey (?x m c) \<le> skey (?x m' c')"
      using that by (intro one_plus_count_mono le) (simp add: word_le_nat_alt)
    then have "skey (f_sqrt (?x m c)) \<le> skey (f_sqrt (?x m' c'))"
      using one_plus_count[OF le, of m c] one_plus_count[OF le, of m' c'] one by (intro f_sqrt_mono) auto
    then show ?thesis unfolding cell_novelty_def
      using root[of m c] root[of m' c'] pos[of m c] one mag_f_one by (intro f_div_antimono) auto
  qed
  show ?thesis using fin gt anti by (auto simp: f_lt_def f_le_def)
qed

section \<open>Properties\<close>

text \<open>C28: Saving the mirror and restoring it loses nothing: the restored tables give the same count
  for every cell and the same node for every state hash, they satisfy the table invariants, and
  saving them again gives the same snapshot. Two pairs of tables with the same contents have the
  same snapshot, whatever their history.\<close>

theorem mirror_snapshot_roundtrip:
  assumes "cells_ok c" "seen_ok s"
  shows "(case into_parts (from_parts c s) of (c', s') \<Rightarrow>
      cell_count c' = cell_count c \<and> seen_get s' = seen_get s \<and> cells_ok c' \<and> seen_ok s'
      \<and> from_parts c' s' = from_parts c s)
    \<and> (\<forall>d r. cells_ok d \<longrightarrow> seen_ok r \<longrightarrow> hm_get (cm_counts d) = hm_get (cm_counts c)
      \<longrightarrow> seen_get r = seen_get s \<longrightarrow> from_parts d r = from_parts c s)"
  using assms
  by (auto simp: into_parts_def from_parts_def cells.restore_listing cells.restore_ok seen.restore_listing
      seen.restore_ok cells.listing_restore_listing seen.listing_restore_listing intro: cell_count_by_get
      cells.listing_canonical seen.listing_canonical)

text \<open>The first node recorded for a state hash is kept: an insertion returns the node already
  recorded and changes nothing, or records the new node under that hash only. Every later lookup
  of the hash returns the first node, whatever is inserted in between.\<close>

theorem seen_insert_first_wins:
  assumes "seen_insert s h n = (prev, s')"
  shows "prev = seen_get s h \<and> (prev \<noteq> None \<longrightarrow> s' = s)
    \<and> seen_get s' = (seen_get s)(h \<mapsto> (case prev of None \<Rightarrow> n | Some first \<Rightarrow> first))
    \<and> (\<forall>xs. seen_get (from_sorted_entries_loop s' xs) h = seen_get s' h)"
proof -
  have keep: "seen_get (from_sorted_entries_loop r xs) h = Some v" if "seen_get r h = Some v" for r xs v
    using that
  proof (induction r xs rule: from_sorted_entries_loop.induct)
    case (2 r k m xs)
    then have "seen_get (snd (seen_insert r k m)) h = Some v" by (auto simp: seen_get_insert split: option.splits)
    then show ?case using 2 by simp
  qed simp
  have "seen_get s' = (seen_get s)(h \<mapsto> (case prev of None \<Rightarrow> n | Some first \<Rightarrow> first))"
    "prev = seen_get s h" "prev \<noteq> None \<longrightarrow> s' = s"
    using assms by (auto simp: seen_get_def[abs_def] seen_insert_def split: option.splits)
  then show ?thesis using keep by simp
qed

text \<open>The novelty of a cell is a finite double in the interval (0, 1], and a cell that was
  counted at least as often never has the larger novelty.\<close>

theorem cell_novelty_bounds:
  "is_finite (cell_novelty m c) \<and> f_lt f_zero (cell_novelty m c) \<and> f_le (cell_novelty m c) f_one
   \<and> (cell_count m c \<le> cell_count m' c' \<longrightarrow> f_le (cell_novelty m' c') (cell_novelty m c))"
  by (rule cell_novelty_facts)

definition example_cells :: cell_mirror where
  "example_cells = \<lparr>cm_counts = [(CellKey 7, 2), (CellKey 3, 1)]\<rparr>"

definition example_seen :: seen_map where
  "example_seen = \<lparr>sm_map = [(StateHash [2], NodeId 1), (StateHash [1], NodeId 0)]\<rparr>"

lemma example_from_parts: "from_parts example_cells example_seen
     = \<lparr>ms_cell_counts = [(CellKey 3, 1), (CellKey 7, 2)],
        ms_seen = [(StateHash [1], NodeId 0), (StateHash [2], NodeId 1)]\<rparr>"
  by (simp add: from_parts_def sorted_counts_def sorted_entries_def hm_sorted_def example_cells_def
      example_seen_def less_eq_cell_key_def less_eq_state_hash_def)

lemma example_lookups: "cell_count example_cells (CellKey 7) = 2" "cell_count example_cells (CellKey 3) = 1"
  "seen_get example_seen (StateHash [1]) = Some (NodeId 0)"
  by (simp_all add: cell_count_def seen_get_def example_cells_def example_seen_def)

theorem mirror_snapshot_roundtrip_witness:
  "case into_parts \<lparr>ms_cell_counts = [(CellKey 3, 1), (CellKey 7, 2)],
        ms_seen = [(StateHash [1], NodeId 0), (StateHash [2], NodeId 1)]\<rparr> of (c', s') \<Rightarrow>
        cell_count c' (CellKey 7) = 2 \<and> seen_get s' (StateHash [1]) = Some (NodeId 0)"
proof -
  have "cells_ok example_cells" "seen_ok example_seen"
    by (auto simp: cells_ok_def seen_ok_def example_cells_def example_seen_def)
  from mirror_snapshot_roundtrip[OF this] show ?thesis
    by (auto simp: example_from_parts example_lookups)
qed

theorem seen_insert_first_wins_witness:
  "seen_get (snd (seen_insert example_seen (StateHash [1]) (NodeId 5))) (StateHash [1]) = Some (NodeId 0)"
proof -
  have e: "seen_insert example_seen (StateHash [1]) (NodeId 5) = (Some (NodeId 0), example_seen)"
    by (simp add: seen_insert_def example_seen_def)
  from seen_insert_first_wins[OF e] show ?thesis by (auto simp: e)
qed

theorem cell_novelty_bounds_witness:
  "cell_count example_cells (CellKey 3) \<le> cell_count example_cells (CellKey 7)
   \<and> f_le (cell_novelty example_cells (CellKey 7)) (cell_novelty example_cells (CellKey 3))"
proof -
  have "cell_count example_cells (CellKey 3) \<le> cell_count example_cells (CellKey 7)"
    by (simp add: example_lookups)
  then show ?thesis
    using cell_novelty_bounds[of example_cells "CellKey 3" example_cells "CellKey 7"] by simp
qed

end
