(* ===== verification/Commit.thy ===== *)
theory Commit
  imports Frontier_Set Mirror
begin

text \<open>
  The commit rules (\<open>crates/orch-core/src/commit.rs\<close>): what a scored batch of children does to
  the search tree, the frontier, the cell counts, the table of seen state hashes and the
  duplicate streaks. The functions mutate their state before they may fail, so they return the
  outcome together with the state reached; \<open>commit_inv\<close> is the invariant that links the parts.
\<close>

declare map_of_eq_Some_iff [simp del]

section \<open>Rules, children, outcomes\<close>

record commit_rules =
  cr_prune_action :: prune_action
  cr_epsilon_keep :: f64
  cr_max_visits_per_node :: u32
  cr_exhaust_after_dup_expansions :: u32

definition rules_from_config :: "experiment_config \<Rightarrow> commit_rules" where
  "rules_from_config c = \<lparr>cr_prune_action = prune_action c, cr_epsilon_keep = epsilon_s (plateau c),
     cr_max_visits_per_node = max_visits_per_node (selection c),
     cr_exhaust_after_dup_expansions = exhaust_after_dup_expansions (selection c)\<rparr>"

record scored_child =
  sc_payload :: node_payload
  sc_duplicate :: bool
  sc_prune :: bool
  sc_goal :: bool

definition scored_child_new :: "node_payload \<Rightarrow> scored_child" where
  "scored_child_new p = \<lparr>sc_payload = p, sc_duplicate = False, sc_prune = False, sc_goal = False\<rparr>"

definition scored_child_duplicate :: "scored_child \<Rightarrow> scored_child" where
  "scored_child_duplicate c = c\<lparr>sc_duplicate := True\<rparr>"

definition scored_child_prune :: "scored_child \<Rightarrow> scored_child" where
  "scored_child_prune c = c\<lparr>sc_prune := True\<rparr>"

definition scored_child_goal :: "scored_child \<Rightarrow> scored_child" where
  "scored_child_goal c = c\<lparr>sc_goal := True\<rparr>"

record child_commit =
  cc_disposition :: commit_disposition
  cc_node_id :: "node_id option"
  cc_duplicate_route :: "node_id option"

definition child_commit_new :: "commit_disposition \<Rightarrow> node_id option \<Rightarrow> node_id option \<Rightarrow> child_commit" where
  "child_commit_new d n r = \<lparr>cc_disposition = d, cc_node_id = n, cc_duplicate_route = r\<rparr>"

record batch_commit_outcome =
  bo_parent :: node_id
  bo_parent_visits :: u32
  bo_child_commits :: "child_commit list"
  bo_parent_evicted :: "frontier_evict_reason option"
  bo_goal_node :: "node_id option"

datatype commit_error =
    ParentNotFound node_id
  | InvalidRule string
  | CommitTree tree_error
  | CommitFrontier frontier_error

fun commit_error_display :: "commit_error \<Rightarrow> string" where
  "commit_error_display (ParentNotFound i) = ''parent '' @ show_node_id i @ '' not found''"
| "commit_error_display (InvalidRule f) = ''invalid commit rule '' @ f"
| "commit_error_display (CommitTree e) = tree_error_display e"
| "commit_error_display (CommitFrontier e) = frontier_error_display e"

section \<open>The commit state\<close>

record commit_state =
  cs_tree :: tree
  cs_frontier :: frontier
  cs_cell_mirror :: cell_mirror
  cs_seen :: seen_map
  cs_streaks :: "u32 list"

definition commit_from_root :: "node_payload \<Rightarrow> (commit_error, commit_state) res" where
  "commit_from_root pl =
     (let seen = snd (seen_insert seen_map_new (np_state_hash pl) ROOT)
      in bind_res (cell_bump cell_mirror_new (np_cell pl)) (\<lambda>(_, cells).
         bind_res (map_err CommitTree (tree_from_root pl)) (\<lambda>tree.
         bind_res (map_err CommitFrontier frontier_with_root) (\<lambda>frontier.
           Ok \<lparr>cs_tree = tree, cs_frontier = frontier, cs_cell_mirror = cells, cs_seen = seen,
               cs_streaks = [0]\<rparr>))))"

fun set_streaks :: "u32 list \<Rightarrow> (node_id \<times> u32) list \<Rightarrow> u32 list" where
  "set_streaks acc [] = acc"
| "set_streaks acc ((i, streak) # xs) =
     (let index = unat (node_id_get i)
      in set_streaks (if index < length acc then acc[index := streak] else acc) xs)"

definition commit_from_parts ::
  "tree \<Rightarrow> frontier \<Rightarrow> cell_mirror \<Rightarrow> seen_map \<Rightarrow> (node_id \<times> u32) list \<Rightarrow> commit_state" where
  "commit_from_parts tree frontier cells seen streaks =
     \<lparr>cs_tree = tree, cs_frontier = frontier, cs_cell_mirror = cells, cs_seen = seen,
      cs_streaks = set_streaks (replicate (unat (node_id_get (next_id tree))) 0) streaks\<rparr>"

definition all_duplicate_streak :: "commit_state \<Rightarrow> node_id \<Rightarrow> u32 option" where
  "all_duplicate_streak s i = (let index = unat (node_id_get i)
     in if index < length (cs_streaks s) then Some (cs_streaks s ! index) else None)"

definition ensure_tracking :: "commit_state \<Rightarrow> node_id \<Rightarrow> commit_state" where
  "ensure_tracking s i = (let index = unat (node_id_get i)
     in if length (cs_streaks s) \<le> index
        then s\<lparr>cs_streaks := cs_streaks s @ replicate (index + 1 - length (cs_streaks s)) 0\<rparr> else s)"

text \<open>A call on one part of the state, with its error converted as \<open>?\<close> converts it.\<close>

definition on_tree :: "(tree_error, 'a \<times> tree) res \<Rightarrow> commit_state \<Rightarrow> (commit_error, 'a) res \<times> commit_state" where
  "on_tree r s = (case r of Ok (x, t) \<Rightarrow> (Ok x, s\<lparr>cs_tree := t\<rparr>)
     | Err e \<Rightarrow> (Err (CommitTree e), s) | Panic m \<Rightarrow> (Panic m, s))"

definition on_tree_unit :: "(tree_error, tree) res \<Rightarrow> commit_state \<Rightarrow> (commit_error, unit) res \<times> commit_state" where
  "on_tree_unit r s = (case r of Ok t \<Rightarrow> (Ok (), s\<lparr>cs_tree := t\<rparr>)
     | Err e \<Rightarrow> (Err (CommitTree e), s) | Panic m \<Rightarrow> (Panic m, s))"

definition on_frontier :: "(frontier_error, frontier) res \<Rightarrow> commit_state \<Rightarrow> (commit_error, unit) res \<times> commit_state" where
  "on_frontier r s = (case r of Ok f \<Rightarrow> (Ok (), s\<lparr>cs_frontier := f\<rparr>)
     | Err e \<Rightarrow> (Err (CommitFrontier e), s) | Panic m \<Rightarrow> (Panic m, s))"

definition on_cells :: "(commit_error, u32 \<times> cell_mirror) res \<Rightarrow> commit_state \<Rightarrow> (commit_error, unit) res \<times> commit_state" where
  "on_cells r s = (case r of Ok (_, m) \<Rightarrow> (Ok (), s\<lparr>cs_cell_mirror := m\<rparr>)
     | Err e \<Rightarrow> (Err e, s) | Panic m \<Rightarrow> (Panic m, s))"

section \<open>Committing\<close>

definition validate_rules :: "commit_rules \<Rightarrow> (commit_error, unit) res" where
  "validate_rules rules =
     (if \<not> is_finite (cr_epsilon_keep rules) \<or> f_lt (cr_epsilon_keep rules) f_zero
      then Err (InvalidRule ''epsilon_keep'')
      else if cr_max_visits_per_node rules = 0 then Err (InvalidRule ''max_visits_per_node'')
      else if cr_exhaust_after_dup_expansions rules = 0
      then Err (InvalidRule ''exhaust_after_dup_expansions'')
      else Ok ())"

definition commit_child ::
  "commit_state \<Rightarrow> node_id \<Rightarrow> f64 \<Rightarrow> scored_child \<Rightarrow> commit_rules \<Rightarrow> (commit_error, child_commit) res \<times> commit_state" where
  "commit_child s parent parent_score child rules =
     (let pl = sc_payload child in
      if sc_prune child then
        (case cr_prune_action rules of
           Drop \<Rightarrow> (Ok (child_commit_new (Discard PruneDrop) None None), s)
         | Exhausted \<Rightarrow>
             bind_st (on_tree (insert_child (cs_tree s) parent pl) s) (\<lambda>child_id s.
             let s = ensure_tracking s child_id in
             bind_st (on_tree_unit (mark_pruned (cs_tree s) child_id) s) (\<lambda>_ s.
             let s = s\<lparr>cs_seen := snd (seen_insert (cs_seen s) (np_state_hash pl) child_id)\<rparr> in
             bind_st (on_cells (cell_bump (cs_cell_mirror s) (np_cell pl)) s) (\<lambda>_ s.
               (Ok (child_commit_new PrunedExhausted (Some child_id) None), s)))))
      else if sc_duplicate child then
        bind_st (on_cells (cell_bump (cs_cell_mirror s) (np_cell pl)) s) (\<lambda>_ s.
        let route = seen_get (cs_seen s) (np_state_hash pl) in
        bind_st (case route of
            Some existing \<Rightarrow>
              if existing \<noteq> parent
              then bind_st (on_tree (increment_visits (cs_tree s) existing) s) (\<lambda>_ s. (Ok (), s))
              else (Ok (), s)
          | None \<Rightarrow> (Ok (), s))
          (\<lambda>_ s. (Ok (child_commit_new (Discard Duplicate) None route), s)))
      else
        let worse_than_parent = f_lt (f_add (score_get (np_score pl)) (cr_epsilon_keep rules)) parent_score;
            known_cell = 0 < cell_count (cs_cell_mirror s) (np_cell pl)
        in if worse_than_parent \<and> known_cell
           then (Ok (child_commit_new (Discard Regression) None None), s)
           else
             bind_st (on_tree (insert_child (cs_tree s) parent pl) s) (\<lambda>child_id s.
             let s = ensure_tracking s child_id;
                 s = s\<lparr>cs_seen := snd (seen_insert (cs_seen s) (np_state_hash pl) child_id)\<rparr> in
             bind_st (on_cells (cell_bump (cs_cell_mirror s) (np_cell pl)) s) (\<lambda>_ s.
             bind_st (on_frontier (frontier_insert (cs_frontier s) child_id) s) (\<lambda>_ s.
             bind_st (if sc_goal child then on_tree_unit (mark_goal (cs_tree s) child_id) s else (Ok (), s)) (\<lambda>_ s.
               (Ok (child_commit_new Keep (Some child_id) None), s))))))"

definition index_streak :: "commit_state \<Rightarrow> nat \<Rightarrow> (commit_error, u32) res" where
  "index_streak s k = (if k < length (cs_streaks s) then Ok (cs_streaks s ! k) else Panic ''index out of bounds'')"

definition update_parent_exhaustion ::
  "commit_state \<Rightarrow> node_id \<Rightarrow> u32 \<Rightarrow> bool \<Rightarrow> commit_rules
    \<Rightarrow> (commit_error, frontier_evict_reason option) res \<times> commit_state" where
  "update_parent_exhaustion s parent parent_visits all_duplicate rules =
     (let s = ensure_tracking s parent; k = unat (node_id_get parent) in
      bind_st (bind_res (index_streak s k) (\<lambda>streak.
                 if all_duplicate then expect (checked_add streak 1) ''all-duplicate streak overflowed'' else Ok 0), s)
        (\<lambda>streak s.
         let s = s\<lparr>cs_streaks := (cs_streaks s)[k := streak]\<rparr>;
             reason = (if cr_max_visits_per_node rules \<le> parent_visits then Some MaxVisits
                       else if cr_exhaust_after_dup_expansions rules \<le> streak then Some AllDuplicateExpansions
                       else None)
         in if reason \<noteq> None
            then bind_st (on_tree_unit (mark_exhausted (cs_tree s) parent) s) (\<lambda>_ s.
                 bind_st (if frontier_contains (cs_frontier s) parent
                          then on_frontier (frontier_remove (cs_frontier s) parent) s else (Ok (), s)) (\<lambda>_ s.
                   (Ok reason, s)))
            else (Ok reason, s)))"

fun commit_children ::
  "commit_state \<Rightarrow> node_id \<Rightarrow> f64 \<Rightarrow> commit_rules \<Rightarrow> child_commit list \<Rightarrow> node_id option \<Rightarrow> scored_child list
    \<Rightarrow> (commit_error, child_commit list \<times> node_id option) res \<times> commit_state" where
  "commit_children s parent parent_score rules commits goal_node [] = (Ok (commits, goal_node), s)"
| "commit_children s parent parent_score rules commits goal_node (child # children) =
     bind_st (commit_child s parent parent_score child rules) (\<lambda>commit s.
       let goal_node = (if sc_goal child \<and> cc_disposition commit = Keep \<and> cc_node_id commit \<noteq> None \<and> goal_node = None
                        then cc_node_id commit else goal_node)
       in commit_children s parent parent_score rules (commits @ [commit]) goal_node children)"

definition commit_batch ::
  "commit_state \<Rightarrow> node_id \<Rightarrow> scored_child list \<Rightarrow> commit_rules
    \<Rightarrow> (commit_error, batch_commit_outcome) res \<times> commit_state" where
  "commit_batch s parent children rules =
     bind_st (validate_rules rules, s) (\<lambda>_ s.
     bind_st (ok_or (tree_get (cs_tree s) parent) (ParentNotFound parent), s) (\<lambda>r s.
     bind_st (commit_children s parent (score_get (nr_score r)) rules [] None children) (\<lambda>(commits, goal_node) s.
     bind_st (on_tree (increment_visits (cs_tree s) parent) s) (\<lambda>parent_visits s.
     let all_duplicate = (commits \<noteq> [] \<and> list_all (\<lambda>c. cc_disposition c = Discard Duplicate) commits) in
     bind_st (update_parent_exhaustion s parent parent_visits all_duplicate rules) (\<lambda>parent_evicted s.
       (Ok \<lparr>bo_parent = parent, bo_parent_visits = parent_visits, bo_child_commits = commits,
            bo_parent_evicted = parent_evicted, bo_goal_node = goal_node\<rparr>, s))))))"

section \<open>Two views of the tree\<close>

text \<open>The state hash of every node, and the nodes that are not exhausted.\<close>

definition hash_of :: "tree \<Rightarrow> node_id \<Rightarrow> state_hash option" where
  "hash_of t i = map_option nr_state_hash (tree_get t i)"

definition live :: "tree \<Rightarrow> node_id set" where
  "live t = {i. \<exists>r. tree_get t i = Some r \<and> \<not> nr_exhausted r}"

lemma hash_of_upd:
  "tree_get t' = (tree_get t)(i \<mapsto> r') \<Longrightarrow> tree_get t i = Some r \<Longrightarrow> nr_state_hash r' = nr_state_hash r
     \<Longrightarrow> hash_of t' = hash_of t"
  by (auto simp: hash_of_def fun_eq_iff)

lemma live_upd:
  "tree_get t' = (tree_get t)(i \<mapsto> r') \<Longrightarrow> live t' = (if nr_exhausted r' then live t - {i} else insert i (live t))"
  by (auto simp: live_def split: if_splits)

lemma payload_hash: "payload r' = payload r \<Longrightarrow> nr_state_hash r' = nr_state_hash r"
  by (simp add: payload_def)

lemma insert_views:
  assumes wf: "wf_tree t" and ins: "insert_child t p pl = Ok (c, t')"
  shows "hash_of t' = (hash_of t)(c \<mapsto> np_state_hash pl)" "live t' = insert c (live t)"
    "hash_of t c = None" "c \<notin> live t" "length (records t') = Suc (length (records t))" "c = next_id t"
proof -
  from insert_child_get[OF wf ins] obtain pr d n where g: "tree_get t p = Some pr" "tree_get t c = None"
    "tree_get t' = (tree_get t)(p \<mapsto> pr\<lparr>nr_children := n\<rparr>, c \<mapsto> node_record_child c p d pl)" by blast
  show "hash_of t' = (hash_of t)(c \<mapsto> np_state_hash pl)" "live t' = insert c (live t)"
    using g by (auto simp: hash_of_def live_def fun_eq_iff node_record_child_def node_record_new_def)
  show "hash_of t c = None" "c \<notin> live t" using g(2) by (auto simp: hash_of_def live_def)
  show "length (records t') = Suc (length (records t))" "c = next_id t"
    by (rule insert_child_Ok[OF wf ins], simp)+
qed

lemma insert_new_record:
  assumes "wf_tree t" "insert_child t p pl = Ok (c, t')"
  obtains r where "tree_get t' c = Some r" "nr_status r = Frontier" "\<not> nr_goal r" "\<not> nr_exhausted r"
    "nr_parent r = Some p" "payload r = pl"
  using insert_child_get[OF assms] that
  by (auto simp: node_record_child_def node_record_new_def payload_def)

lemma visits_views:
  assumes "increment_visits t i = Ok (v, t')"
  shows "hash_of t' = hash_of t" "live t' = live t" "length (records t') = length (records t)"
proof -
  obtain r where u: "update_record t i (increment_visits_record i) = Ok t'" and
    g: "tree_get t i = Some r" "tree_get t' = (tree_get t)(i \<mapsto> r\<lparr>nr_visits := v\<rparr>)"
    by (rule increment_visits_Ok[OF assms])
  show "hash_of t' = hash_of t" by (rule hash_of_upd[OF g(2,1)]) simp
  show "live t' = live t" using live_upd[OF g(2)] g(1) by (auto simp: live_def)
  show "length (records t') = length (records t)" by (rule visits_upd.update_nth[OF u])
qed

lemma pruned_views:
  assumes "mark_pruned t i = Ok t'"
  shows "hash_of t' = hash_of t" "live t' = live t - {i}" "length (records t') = length (records t)"
proof -
  have u: "update_record t i (mark_pruned_record i) = Ok t'" using assms by (simp add: mark_pruned_def)
  obtain r r' where g: "tree_get t i = Some r" "mark_pruned_record i r = Ok r'"
    "tree_get t' = (tree_get t)(i \<mapsto> r')" by (rule pruned_upd.update_get[OF u])
  show "hash_of t' = hash_of t"
    using hash_of_upd[OF g(3,1)] pruned_upd.upd_keeps[OF g(2)] payload_hash by blast
  have "nr_exhausted r'" using g(2) by (auto simp: mark_pruned_record_def split: if_splits)
  then show "live t' = live t - {i}" using live_upd[OF g(3)] by simp
  show "length (records t') = length (records t)" by (rule pruned_upd.update_nth[OF u])
qed

lemma exhausted_views:
  assumes "mark_exhausted t i = Ok t'"
  shows "hash_of t' = hash_of t" "live t' = live t - {i}" "length (records t') = length (records t)"
proof -
  have u: "update_record t i (mark_exhausted_record i) = Ok t'" using assms by (simp add: mark_exhausted_def)
  obtain r r' where g: "tree_get t i = Some r" "mark_exhausted_record i r = Ok r'"
    "tree_get t' = (tree_get t)(i \<mapsto> r')" by (rule exhausted_upd.update_get[OF u])
  show "hash_of t' = hash_of t"
    using hash_of_upd[OF g(3,1)] exhausted_upd.upd_keeps[OF g(2)] payload_hash by blast
  have "nr_exhausted r'" using g(2) by (auto simp: mark_exhausted_record_def Let_def split: if_splits)
  then show "live t' = live t - {i}" using live_upd[OF g(3)] by simp
  show "length (records t') = length (records t)" by (rule exhausted_upd.update_nth[OF u])
qed

lemma goal_views:
  assumes "mark_goal t i = Ok t'"
  shows "hash_of t' = hash_of t" "live t' = insert i (live t)" "length (records t') = length (records t)"
proof -
  have u: "update_record t i (mark_goal_record i) = Ok t'" using assms by (simp add: mark_goal_def)
  obtain r r' where g: "tree_get t i = Some r" "mark_goal_record i r = Ok r'"
    "tree_get t' = (tree_get t)(i \<mapsto> r')" by (rule goal_upd.update_get[OF u])
  show "hash_of t' = hash_of t"
    using hash_of_upd[OF g(3,1)] goal_upd.upd_keeps[OF g(2)] payload_hash by blast
  have "\<not> nr_exhausted r'" using g(2) by (auto simp: mark_goal_record_def split: if_splits)
  then show "live t' = insert i (live t)" using live_upd[OF g(3)] by simp
  show "length (records t') = length (records t)" by (rule goal_upd.update_nth[OF u])
qed

section \<open>The invariant of the commit state\<close>

text \<open>Every recorded hash is the hash of its node, and every node has its hash recorded.\<close>

definition seen_agrees :: "tree \<Rightarrow> seen_map \<Rightarrow> bool" where
  "seen_agrees t m \<longleftrightarrow> (\<forall>h n. seen_get m h = Some n \<longrightarrow> hash_of t n = Some h)
     \<and> (\<forall>n h. hash_of t n = Some h \<longrightarrow> seen_get m h \<noteq> None)"

definition core_inv :: "commit_state \<Rightarrow> bool" where
  "core_inv s \<longleftrightarrow> wf_tree (cs_tree s) \<and> frontier_inv (cs_frontier s) \<and> cells_ok (cs_cell_mirror s)
     \<and> seen_ok (cs_seen s) \<and> length (cs_streaks s) = length (records (cs_tree s))
     \<and> seen_agrees (cs_tree s) (cs_seen s)"

definition commit_inv :: "commit_state \<Rightarrow> bool" where
  "commit_inv s \<longleftrightarrow> core_inv s \<and> frontier_ids (cs_frontier s) = live (cs_tree s)"

lemma seen_agrees_cong: "hash_of t' = hash_of t \<Longrightarrow> seen_agrees t' m \<longleftrightarrow> seen_agrees t m"
  by (simp add: seen_agrees_def)

lemma seen_agrees_insert:
  assumes "seen_agrees t m" "hash_of t' = (hash_of t)(c \<mapsto> h)" "hash_of t c = None"
  shows "seen_agrees t' (snd (seen_insert m h c))"
  using assms unfolding seen_agrees_def seen_get_insert
  by (auto split: option.splits if_splits)

lemma ensure_tracking_noop: "length (cs_streaks s) = length (records (cs_tree s)) \<Longrightarrow>
    tree_get (cs_tree s) i = Some r \<Longrightarrow> ensure_tracking s i = s"
  by (auto simp: ensure_tracking_def tree_get_eq Let_def split: if_splits)

lemma ensure_tracking_grow:
  assumes "core_inv s" "insert_child (cs_tree s) p pl = Ok (c, t')"
  shows "ensure_tracking (s\<lparr>cs_tree := t'\<rparr>) c = s\<lparr>cs_tree := t', cs_streaks := cs_streaks s @ [0]\<rparr>"
proof -
  have wf: "wf_tree (cs_tree s)" and len: "length (cs_streaks s) = length (records (cs_tree s))"
    using assms(1) by (auto simp: core_inv_def)
  have "unat (node_id_get c) = length (records (cs_tree s))"
    using insert_views(6)[OF wf assms(2)] wf_treeD(2)[OF wf] by (simp add: next_id_def)
  then show ?thesis using len by (simp add: ensure_tracking_def Let_def)
qed

lemma core_inv_tree:
  "core_inv s \<Longrightarrow> wf_tree t \<Longrightarrow> hash_of t = hash_of (cs_tree s) \<Longrightarrow>
     length (records t) = length (records (cs_tree s)) \<Longrightarrow> core_inv (s\<lparr>cs_tree := t\<rparr>)"
  by (simp add: core_inv_def seen_agrees_cong[of t "cs_tree s"])

lemma core_inv_cells: "core_inv s \<Longrightarrow> cells_ok m \<Longrightarrow> core_inv (s\<lparr>cs_cell_mirror := m\<rparr>)"
  by (simp add: core_inv_def)

lemma core_inv_frontier: "core_inv s \<Longrightarrow> frontier_inv f \<Longrightarrow> core_inv (s\<lparr>cs_frontier := f\<rparr>)"
  by (simp add: core_inv_def)

lemma core_inv_streaks:
  "core_inv s \<Longrightarrow> length xs = length (cs_streaks s) \<Longrightarrow> core_inv (s\<lparr>cs_streaks := xs\<rparr>)"
  by (simp add: core_inv_def)

lemma core_inv_insert:
  assumes "core_inv s" "insert_child (cs_tree s) p pl = Ok (c, t)" "Suc (length (records (cs_tree s))) < 2 ^ 64"
    "score_ok (np_score pl)"
  shows "core_inv (s\<lparr>cs_tree := t, cs_seen := snd (seen_insert (cs_seen s) (np_state_hash pl) c),
    cs_streaks := cs_streaks s @ [0]\<rparr>)"
proof -
  have wf: "wf_tree (cs_tree s)" using assms(1) by (simp add: core_inv_def)
  note v = insert_views[OF wf assms(2)]
  have "wf_tree t" by (rule insert_child_wf[OF wf assms(2,3,4)])
  moreover have "seen_agrees t (snd (seen_insert (cs_seen s) (np_state_hash pl) c))"
    using assms(1) v(1,3) by (intro seen_agrees_insert) (auto simp: core_inv_def)
  ultimately show ?thesis using assms(1) v(5) by (simp add: core_inv_def seen_insert_ok)
qed

lemma mark_pruned_wf: "wf_tree t \<Longrightarrow> mark_pruned t i = Ok t' \<Longrightarrow> wf_tree t'"
  by (simp add: mark_pruned_def pruned_upd.update_wf)

lemma mark_goal_wf: "wf_tree t \<Longrightarrow> mark_goal t i = Ok t' \<Longrightarrow> wf_tree t'"
  by (simp add: mark_goal_def goal_upd.update_wf)

lemma mark_exhausted_wf: "wf_tree t \<Longrightarrow> mark_exhausted t i = Ok t' \<Longrightarrow> wf_tree t'"
  by (simp add: mark_exhausted_def exhausted_upd.update_wf)

lemma increment_visits_wf: "wf_tree t \<Longrightarrow> increment_visits t i = Ok (v, t') \<Longrightarrow> wf_tree t'"
  by (rule increment_visits_Ok, assumption) (rule visits_upd.update_wf)

lemma fresh_marks:
  assumes "wf_tree t" "insert_child t p pl = Ok (c, t1)"
  shows "\<exists>t2. mark_pruned t1 c = Ok t2" "\<exists>t2. mark_goal t1 c = Ok t2"
proof -
  obtain r where r: "tree_get t1 c = Some r" "nr_status r = Frontier" "\<not> nr_goal r"
    using insert_new_record[OF assms] by blast
  have "mark_pruned_record c r \<noteq> Err e" "mark_goal_record c r \<noteq> Err e" for e
    using r by (simp_all add: mark_pruned_record_def mark_goal_record_def)
  then show "\<exists>t2. mark_pruned t1 c = Ok t2" "\<exists>t2. mark_goal t1 c = Ok t2"
    unfolding mark_pruned_def mark_goal_def
    using pruned_upd.update_total[OF r(1)] goal_upd.update_total[OF r(1)] by metis+
qed

section \<open>Committing one child\<close>

lemma commit_child_pruned:
  assumes inv: "core_inv s" and "sc_prune ch" "cr_prune_action rules = Exhausted"
    and ins: "insert_child (cs_tree s) p (sc_payload ch) = Ok (c, t1)"
    and bump: "cell_bump (cs_cell_mirror s) (np_cell (sc_payload ch)) = (Ok (v, m) :: (commit_error, u32 \<times> cell_mirror) res)"
  obtains t2 where "mark_pruned t1 c = Ok t2"
    "commit_child s p ps ch rules = (Ok (child_commit_new PrunedExhausted (Some c) None),
       s\<lparr>cs_tree := t2, cs_cell_mirror := m,
         cs_seen := snd (seen_insert (cs_seen s) (np_state_hash (sc_payload ch)) c), cs_streaks := cs_streaks s @ [0]\<rparr>)"
proof -
  have wf: "wf_tree (cs_tree s)" using inv by (simp add: core_inv_def)
  obtain t2 where t2: "mark_pruned t1 c = Ok t2" using fresh_marks(1)[OF wf ins] by blast
  show ?thesis using that[OF t2] assms t2 ensure_tracking_grow[OF inv ins]
    by (simp add: commit_child_def on_tree_def on_tree_unit_def on_cells_def Let_def)
qed

lemma commit_child_keep:
  assumes inv: "commit_inv s" and "\<not> sc_prune ch" "\<not> sc_duplicate ch"
    and "\<not> (f_lt (f_add (score_get (np_score (sc_payload ch))) (cr_epsilon_keep rules)) ps
             \<and> 0 < cell_count (cs_cell_mirror s) (np_cell (sc_payload ch)))"
    and ins: "insert_child (cs_tree s) p (sc_payload ch) = Ok (c, t1)"
    and bump: "cell_bump (cs_cell_mirror s) (np_cell (sc_payload ch)) = (Ok (v, m) :: (commit_error, u32 \<times> cell_mirror) res)"
  obtains t2 f where "if sc_goal ch then mark_goal t1 c = Ok t2 else t2 = t1"
    "frontier_insert (cs_frontier s) c = Ok f"
    "commit_child s p ps ch rules = (Ok (child_commit_new Keep (Some c) None),
       s\<lparr>cs_tree := t2, cs_frontier := f, cs_cell_mirror := m,
         cs_seen := snd (seen_insert (cs_seen s) (np_state_hash (sc_payload ch)) c), cs_streaks := cs_streaks s @ [0]\<rparr>)"
proof -
  have core: "core_inv s" and wf: "wf_tree (cs_tree s)" and fi: "frontier_inv (cs_frontier s)"
    and ids: "frontier_ids (cs_frontier s) = live (cs_tree s)"
    using inv by (auto simp: commit_inv_def core_inv_def)
  obtain t2 where t2: "if sc_goal ch then mark_goal t1 c = Ok t2 else t2 = t1"
    using fresh_marks(2)[OF wf ins] by (cases "sc_goal ch") auto
  obtain f where f: "frontier_insert (cs_frontier s) c = Ok f"
    using fs.ins_fresh[OF fi, of c] insert_views(4)[OF wf ins] ids by auto
  show ?thesis using that[OF t2 f] assms t2 f ensure_tracking_grow[OF core ins]
    by (auto simp: commit_child_def on_tree_def on_tree_unit_def on_cells_def on_frontier_def Let_def
        simp del: not_less)
qed

text \<open>What a record says about its node, without the links and the payload.\<close>

definition status_view :: "tree \<Rightarrow> node_id \<Rightarrow> (u32 \<times> bool \<times> bool \<times> node_status) option" where
  "status_view t i = map_option (\<lambda>r. (nr_visits r, nr_exhausted r, nr_goal r, nr_status r)) (tree_get t i)"

definition flags_view :: "tree \<Rightarrow> node_id \<Rightarrow> (bool \<times> bool \<times> node_status) option" where
  "flags_view t i = map_option snd (status_view t i)"

lemma status_view_insert:
  assumes "wf_tree t" "insert_child t p pl = Ok (c, t')"
  shows "status_view t' = (status_view t)(c \<mapsto> (0, False, False, Frontier))" "status_view t c = None"
  using insert_child_get[OF assms]
  by (auto simp: status_view_def fun_eq_iff node_record_child_def node_record_new_def)

lemma status_view_visits:
  assumes "increment_visits t i = Ok (v, t')"
  obtains v0 x where "status_view t i = Some (v0, x)" "unat v = unat v0 + 1" "status_view t' = (status_view t)(i \<mapsto> (v, x))"
  by (rule increment_visits_Ok[OF assms]) (auto simp: status_view_def fun_eq_iff intro!: that)

lemma flags_view_visits: "increment_visits t i = Ok (v, t') \<Longrightarrow> flags_view t' = flags_view t"
  by (erule status_view_visits) (auto simp: flags_view_def fun_eq_iff)

lemma status_view_pruned:
  "mark_pruned t i = Ok t' \<Longrightarrow> j \<noteq> i \<Longrightarrow> status_view t' j = status_view t j"
  unfolding mark_pruned_def by (rule pruned_upd.update_get) (auto simp: status_view_def)

lemma status_view_goal:
  assumes "mark_goal t i = Ok t'"
  shows "j \<noteq> i \<Longrightarrow> status_view t' j = status_view t j"
    and "\<exists>v. status_view t' i = Some (v, False, True, Goal)"
proof -
  obtain r r' where g: "mark_goal_record i r = Ok r'" "tree_get t' = (tree_get t)(i \<mapsto> r')"
    using assms unfolding mark_goal_def by (rule goal_upd.update_get)
  show "j \<noteq> i \<Longrightarrow> status_view t' j = status_view t j" using g by (simp add: status_view_def)
  show "\<exists>v. status_view t' i = Some (v, False, True, Goal)"
    using g by (auto simp: status_view_def mark_goal_record_def split: if_splits)
qed

lemma status_view_exhausted:
  assumes "mark_exhausted t i = Ok t'"
  shows "j \<noteq> i \<Longrightarrow> status_view t' j = status_view t j"
    and "\<exists>v st. status_view t' i = Some (v, True, False, st)"
    and "\<exists>v x st. status_view t i = Some (v, x, False, st) \<and> st \<noteq> Goal"
    and "map_option fst (status_view t' i) = map_option fst (status_view t i)"
proof -
  obtain r r' where g: "tree_get t i = Some r" "mark_exhausted_record i r = Ok r'" "tree_get t' = (tree_get t)(i \<mapsto> r')"
    using assms unfolding mark_exhausted_def by (rule exhausted_upd.update_get)
  show "j \<noteq> i \<Longrightarrow> status_view t' j = status_view t j" using g by (simp add: status_view_def)
  show "\<exists>v st. status_view t' i = Some (v, True, False, st)"
    "\<exists>v x st. status_view t i = Some (v, x, False, st) \<and> st \<noteq> Goal"
    "map_option fst (status_view t' i) = map_option fst (status_view t i)"
    using g by (auto simp: status_view_def mark_exhausted_record_def Let_def split: if_splits)
qed

text \<open>
  What one committed child does: which nodes, frontier entries and counts it adds. \<open>counted\<close>
  are the dispositions that count the cell of the child.
\<close>

definition counted :: "commit_disposition \<Rightarrow> bool" where
  "counted d \<longleftrightarrow> d = Keep \<or> d = PrunedExhausted \<or> d = Discard Duplicate"

definition child_effect :: "commit_state \<Rightarrow> node_id \<Rightarrow> scored_child \<Rightarrow> child_commit \<Rightarrow> commit_state \<Rightarrow> bool" where
  "child_effect s p ch cc s' \<longleftrightarrow> commit_inv s'
     \<and> (case cc_node_id cc of
          None \<Rightarrow> (\<exists>x. cc_disposition cc = Discard x) \<and> length (records (cs_tree s')) = length (records (cs_tree s))
        | Some c \<Rightarrow> (cc_disposition cc = Keep \<or> cc_disposition cc = PrunedExhausted) \<and> c = next_id (cs_tree s)
            \<and> length (records (cs_tree s')) = Suc (length (records (cs_tree s))))
     \<and> frontier_ids (cs_frontier s') = (if cc_disposition cc = Keep
          then insert (next_id (cs_tree s)) (frontier_ids (cs_frontier s)) else frontier_ids (cs_frontier s))
     \<and> (\<forall>k. unat (cell_count (cs_cell_mirror s') k) = unat (cell_count (cs_cell_mirror s) k)
          + (if counted (cc_disposition cc) \<and> k = np_cell (sc_payload ch) then 1 else 0))
     \<and> (status_view (cs_tree s) p \<noteq> None \<longrightarrow> status_view (cs_tree s') p = status_view (cs_tree s) p)
     \<and> (\<forall>i. flags_view (cs_tree s) i \<noteq> None \<longrightarrow> flags_view (cs_tree s') i = flags_view (cs_tree s) i)
     \<and> (cc_disposition cc = Keep \<longrightarrow> sc_goal ch \<longrightarrow>
          (\<exists>v. status_view (cs_tree s') (next_id (cs_tree s)) = Some (v, False, True, Goal)))
     \<and> (\<forall>k < length (cs_streaks s). cs_streaks s' ! k = cs_streaks s ! k)"

lemma bump_effect:
  assumes "cell_bump m0 c = Ok (v, m)" "cells_ok m0"
  shows "cells_ok m" "unat (cell_count m k) = unat (cell_count m0 k) + (if k = c then 1 else 0)"
  using cell_bump_by_Ok[OF assms(1)[unfolded cell_bump_def]] assms(2) by auto

lemma effect_none:
  assumes "commit_inv s" "cc_disposition cc = Discard x" "\<not> counted (Discard x)" "cc_node_id cc = None"
  shows "child_effect s p ch cc s"
  using assms by (simp add: child_effect_def)

lemma effect_pruned:
  assumes inv: "commit_inv s" and ins: "insert_child (cs_tree s) p (sc_payload ch) = Ok (c, t1)"
    and bump: "cell_bump (cs_cell_mirror s) (np_cell (sc_payload ch)) = (Ok (v, m) :: (commit_error, u32 \<times> cell_mirror) res)"
    and room: "Suc (length (records (cs_tree s))) < 2 ^ 64" and sc: "score_ok (np_score (sc_payload ch))"
    and t2: "mark_pruned t1 c = Ok t2"
  shows "child_effect s p ch (child_commit_new PrunedExhausted (Some c) None)
    (s\<lparr>cs_tree := t2, cs_cell_mirror := m,
       cs_seen := snd (seen_insert (cs_seen s) (np_state_hash (sc_payload ch)) c), cs_streaks := cs_streaks s @ [0]\<rparr>)"
proof -
  have core: "core_inv s" and wf: "wf_tree (cs_tree s)" and cells: "cells_ok (cs_cell_mirror s)"
    and ids: "frontier_ids (cs_frontier s) = live (cs_tree s)" using inv by (auto simp: commit_inv_def core_inv_def)
  note v = insert_views[OF wf ins] and w = pruned_views[OF t2] and b = bump_effect[OF bump cells]
  let ?s1 = "s\<lparr>cs_tree := t1, cs_seen := snd (seen_insert (cs_seen s) (np_state_hash (sc_payload ch)) c),
    cs_streaks := cs_streaks s @ [0]\<rparr>"
  have c1: "core_inv ?s1" by (rule core_inv_insert[OF core ins room sc])
  have "wf_tree t2" using mark_pruned_wf[OF _ t2] c1 by (simp add: core_inv_def)
  then have "core_inv (?s1\<lparr>cs_tree := t2, cs_cell_mirror := m\<rparr>)"
    using core_inv_tree[OF c1, of t2] w b(1) by (intro core_inv_cells) simp_all
  moreover have "live t2 = live (cs_tree s)" using v w by auto
  ultimately have "commit_inv (s\<lparr>cs_tree := t2, cs_cell_mirror := m,
       cs_seen := snd (seen_insert (cs_seen s) (np_state_hash (sc_payload ch)) c), cs_streaks := cs_streaks s @ [0]\<rparr>)"
    using ids by (simp add: commit_inv_def core_inv_def)
  moreover have "status_view t2 p = status_view (cs_tree s) p" if "status_view (cs_tree s) p \<noteq> None"
  proof -
    have "p \<noteq> c" using that status_view_insert(2)[OF wf ins] by auto
    then show ?thesis using status_view_insert(1)[OF wf ins] status_view_pruned[OF t2, of p] by simp
  qed
  moreover have "flags_view t2 i = flags_view (cs_tree s) i" if "flags_view (cs_tree s) i \<noteq> None" for i
  proof -
    have "i \<noteq> c" using that status_view_insert(2)[OF wf ins] by (auto simp: flags_view_def)
    then show ?thesis using status_view_insert(1)[OF wf ins] status_view_pruned[OF t2, of i] by (simp add: flags_view_def)
  qed
  ultimately show ?thesis using b v w
    by (simp add: child_effect_def child_commit_new_def counted_def nth_append)
qed

lemma effect_keep:
  assumes inv: "commit_inv s" and ins: "insert_child (cs_tree s) p (sc_payload ch) = Ok (c, t1)"
    and bump: "cell_bump (cs_cell_mirror s) (np_cell (sc_payload ch)) = (Ok (v, m) :: (commit_error, u32 \<times> cell_mirror) res)"
    and room: "Suc (length (records (cs_tree s))) < 2 ^ 64" and sc: "score_ok (np_score (sc_payload ch))"
    and t2: "if sc_goal ch then mark_goal t1 c = Ok t2 else t2 = t1" and f: "frontier_insert (cs_frontier s) c = Ok f"
  shows "child_effect s p ch (child_commit_new Keep (Some c) None)
    (s\<lparr>cs_tree := t2, cs_frontier := f, cs_cell_mirror := m,
       cs_seen := snd (seen_insert (cs_seen s) (np_state_hash (sc_payload ch)) c), cs_streaks := cs_streaks s @ [0]\<rparr>)"
proof -
  have core: "core_inv s" and wf: "wf_tree (cs_tree s)" and cells: "cells_ok (cs_cell_mirror s)"
    and fi: "frontier_inv (cs_frontier s)"
    and ids: "frontier_ids (cs_frontier s) = live (cs_tree s)" using inv by (auto simp: commit_inv_def core_inv_def)
  note v = insert_views[OF wf ins] and b = bump_effect[OF bump cells] and f' = fs.ins_Ok[OF fi f]
  let ?s1 = "s\<lparr>cs_tree := t1, cs_seen := snd (seen_insert (cs_seen s) (np_state_hash (sc_payload ch)) c),
    cs_streaks := cs_streaks s @ [0]\<rparr>"
  have c1: "core_inv ?s1" by (rule core_inv_insert[OF core ins room sc])
  have w: "hash_of t2 = hash_of t1 \<and> live t2 = insert c (live t1) \<and> length (records t2) = length (records t1)"
    using t2 goal_views[of t1 c t2] v(2) by (cases "sc_goal ch") auto
  have "wf_tree t2" using t2 mark_goal_wf[of t1 c t2] c1 by (auto simp: core_inv_def split: if_splits)
  then have "core_inv (?s1\<lparr>cs_tree := t2, cs_frontier := f, cs_cell_mirror := m\<rparr>)"
    using core_inv_tree[OF c1, of t2] w b(1) f' by (intro core_inv_cells core_inv_frontier) simp_all
  then have "commit_inv (s\<lparr>cs_tree := t2, cs_frontier := f, cs_cell_mirror := m,
       cs_seen := snd (seen_insert (cs_seen s) (np_state_hash (sc_payload ch)) c), cs_streaks := cs_streaks s @ [0]\<rparr>)"
    using ids f' v(2) w by (simp add: commit_inv_def core_inv_def)
  moreover have "status_view t2 p = status_view (cs_tree s) p" if "status_view (cs_tree s) p \<noteq> None"
  proof -
    have "p \<noteq> c" using that status_view_insert(2)[OF wf ins] by auto
    then show ?thesis using t2 status_view_insert(1)[OF wf ins] status_view_goal(1)[of t1 c t2 p]
      by (auto split: if_splits)
  qed
  moreover have "flags_view t2 i = flags_view (cs_tree s) i" if "flags_view (cs_tree s) i \<noteq> None" for i
  proof -
    have "i \<noteq> c" using that status_view_insert(2)[OF wf ins] by (auto simp: flags_view_def)
    then show ?thesis using t2 status_view_insert(1)[OF wf ins] status_view_goal(1)[of t1 c t2 i]
      by (auto simp: flags_view_def split: if_splits)
  qed
  moreover have "sc_goal ch \<Longrightarrow> \<exists>v. status_view t2 c = Some (v, False, True, Goal)"
    using t2 status_view_goal(2)[of t1 c t2] by simp
  ultimately show ?thesis using b v w f'
    by (simp add: child_effect_def child_commit_new_def counted_def nth_append)
qed

lemma effect_duplicate:
  assumes inv: "commit_inv s"
    and bump: "cell_bump (cs_cell_mirror s) (np_cell (sc_payload ch)) = (Ok (v, m) :: (commit_error, u32 \<times> cell_mirror) res)"
    and t: "t = cs_tree s \<or> (\<exists>i v. i \<noteq> p \<and> increment_visits (cs_tree s) i = Ok (v, t))"
  shows "child_effect s p ch (child_commit_new (Discard Duplicate) None route) (s\<lparr>cs_tree := t, cs_cell_mirror := m\<rparr>)"
proof -
  have core: "core_inv s" and wf: "wf_tree (cs_tree s)" and cells: "cells_ok (cs_cell_mirror s)"
    and ids: "frontier_ids (cs_frontier s) = live (cs_tree s)" using inv by (auto simp: commit_inv_def core_inv_def)
  note b = bump_effect[OF bump cells]
  have w: "hash_of t = hash_of (cs_tree s)" "live t = live (cs_tree s)"
    "length (records t) = length (records (cs_tree s))" "wf_tree t"
    using t visits_views[of "cs_tree s"] increment_visits_wf[OF wf] wf by blast+
  have "core_inv (s\<lparr>cs_tree := t, cs_cell_mirror := m\<rparr>)"
    using core_inv_tree[OF core w(4,1,3)] b(1) by (intro core_inv_cells)
  then have "commit_inv (s\<lparr>cs_tree := t, cs_cell_mirror := m\<rparr>)" using ids w by (simp add: commit_inv_def)
  moreover have "status_view t p = status_view (cs_tree s) p"
    using t
  proof (elim disjE exE conjE)
    fix i v assume "i \<noteq> p" "increment_visits (cs_tree s) i = Ok (v, t)"
    then show ?thesis by (auto elim!: status_view_visits)
  qed simp
  moreover have "flags_view t = flags_view (cs_tree s)"
    using t flags_view_visits by auto
  ultimately show ?thesis using b w by (simp add: child_effect_def child_commit_new_def counted_def)
qed

lemmas on_defs = on_tree_def on_tree_unit_def on_frontier_def on_cells_def

lemma cell_bump_not_Err [simp]: "cell_bump m c \<noteq> Err e"
  by (simp add: cell_bump_def cell_bump_by_no_Err)

lemma commit_child_insert_fails:
  assumes core: "core_inv s"
    and no: "\<not> (\<exists>c t1 v m. insert_child (cs_tree s) p (sc_payload ch) = Ok (c, t1)
      \<and> cell_bump (cs_cell_mirror s) (np_cell (sc_payload ch)) = (Ok (v, m) :: (commit_error, u32 \<times> cell_mirror) res))"
    and branch: "sc_prune ch \<and> cr_prune_action rules = Exhausted \<or> \<not> sc_prune ch \<and> \<not> sc_duplicate ch
      \<and> \<not> (f_lt (f_add (score_get (np_score (sc_payload ch))) (cr_epsilon_keep rules)) ps
           \<and> 0 < cell_count (cs_cell_mirror s) (np_cell (sc_payload ch)))"
  shows "(\<exists>e. commit_child s p ps ch rules = (Err e, s)) \<or> (\<exists>m s'. commit_child s p ps ch rules = (Panic m, s'))"
proof (cases "insert_child (cs_tree s) p (sc_payload ch)")
  case (Ok ct)
  obtain c t1 where ct: "ct = (c, t1)" by force
  have wf: "wf_tree (cs_tree s)" using core by (simp add: core_inv_def)
  obtain m where m: "cell_bump (cs_cell_mirror s) (np_cell (sc_payload ch)) = (Panic m :: (commit_error, u32 \<times> cell_mirror) res)"
    using no Ok ct by (cases "cell_bump (cs_cell_mirror s) (np_cell (sc_payload ch)) :: (commit_error, u32 \<times> cell_mirror) res") auto
  obtain t2 where "mark_pruned t1 c = Ok t2" using fresh_marks(1)[OF wf] Ok ct by blast
  then show ?thesis using branch Ok ct m ensure_tracking_grow[OF core, of p "sc_payload ch" c t1]
    by (auto simp: commit_child_def on_defs Let_def simp del: not_less)
qed (use branch in \<open>auto simp: commit_child_def on_defs Let_def simp del: not_less\<close>)

lemma commit_child_dup:
  assumes "\<not> sc_prune ch" "sc_duplicate ch"
    and bump: "cell_bump (cs_cell_mirror s) (np_cell (sc_payload ch)) = (Ok (v, m) :: (commit_error, u32 \<times> cell_mirror) res)"
    and route: "route = seen_get (cs_seen s) (np_state_hash (sc_payload ch))"
  shows "commit_child s p ps ch rules = (if route = None \<or> route = Some p
     then (Ok (child_commit_new (Discard Duplicate) None route), s\<lparr>cs_cell_mirror := m\<rparr>)
     else case increment_visits (cs_tree s) (the route) of
         Ok (_, t) \<Rightarrow> (Ok (child_commit_new (Discard Duplicate) None route), s\<lparr>cs_tree := t, cs_cell_mirror := m\<rparr>)
       | Err e \<Rightarrow> (Err (CommitTree e), s\<lparr>cs_cell_mirror := m\<rparr>)
       | Panic x \<Rightarrow> (Panic x, s\<lparr>cs_cell_mirror := m\<rparr>))"
  using assms by (auto simp: commit_child_def on_defs Let_def split: option.splits res.splits)

text \<open>An outcome other than a panic keeps the invariant; a success has the effect described.\<close>

lemma commit_child_step:
  assumes inv: "commit_inv s" and room: "Suc (length (records (cs_tree s))) < 2 ^ 64"
    and sc: "score_ok (np_score (sc_payload ch))" and run: "commit_child s p ps ch rules = (r, s')"
    and np: "\<And>m. r \<noteq> Panic m"
  shows "commit_inv s' \<and> length (records (cs_tree s')) \<le> Suc (length (records (cs_tree s)))
    \<and> (\<forall>cc. r = Ok cc \<longrightarrow> child_effect s p ch cc s')"
proof -
  let ?pl = "sc_payload ch"
  let ?bump = "cell_bump (cs_cell_mirror s) (np_cell ?pl) :: (commit_error, u32 \<times> cell_mirror) res"
  let ?goal = "commit_inv s' \<and> length (records (cs_tree s')) \<le> Suc (length (records (cs_tree s)))
    \<and> (\<forall>cc. r = Ok cc \<longrightarrow> child_effect s p ch cc s')"
  have core: "core_inv s" and wf: "wf_tree (cs_tree s)" using inv by (auto simp: commit_inv_def core_inv_def)
  have eff: ?goal if "r = Ok cc" "child_effect s p ch cc s'" for cc
    using that by (auto simp: child_effect_def split: option.splits)
  consider (drop) "sc_prune ch" "cr_prune_action rules = Drop"
    | (pruned) "sc_prune ch" "cr_prune_action rules = Exhausted"
    | (dup) "\<not> sc_prune ch" "sc_duplicate ch"
    | (regr) "\<not> sc_prune ch" "\<not> sc_duplicate ch"
        "f_lt (f_add (score_get (np_score ?pl)) (cr_epsilon_keep rules)) ps \<and> 0 < cell_count (cs_cell_mirror s) (np_cell ?pl)"
    | (keep) "\<not> sc_prune ch" "\<not> sc_duplicate ch"
        "\<not> (f_lt (f_add (score_get (np_score ?pl)) (cr_epsilon_keep rules)) ps \<and> 0 < cell_count (cs_cell_mirror s) (np_cell ?pl))"
    using prune_action.exhaust by metis
  then show ?goal
  proof cases
    case drop
    then have "r = Ok (child_commit_new (Discard PruneDrop) None None)" "s' = s"
      using run by (simp_all add: commit_child_def Let_def)
    then show ?thesis using effect_none[OF inv] by (intro eff) (auto simp: child_commit_new_def counted_def)
  next
    case regr
    then have "r = Ok (child_commit_new (Discard Regression) None None)" "s' = s"
      using run by (simp_all add: commit_child_def Let_def)
    then show ?thesis using effect_none[OF inv] by (intro eff) (auto simp: child_commit_new_def counted_def)
  next
    case pruned
    show ?thesis
    proof (cases "\<exists>c t1 v m. insert_child (cs_tree s) p ?pl = Ok (c, t1) \<and> ?bump = Ok (v, m)")
      case True
      then obtain c t1 v m where i: "insert_child (cs_tree s) p ?pl = Ok (c, t1)" "?bump = Ok (v, m)" by blast
      obtain t2 where t2: "mark_pruned t1 c = Ok t2" and
        "commit_child s p ps ch rules = (Ok (child_commit_new PrunedExhausted (Some c) None),
          s\<lparr>cs_tree := t2, cs_cell_mirror := m,
            cs_seen := snd (seen_insert (cs_seen s) (np_state_hash ?pl) c), cs_streaks := cs_streaks s @ [0]\<rparr>)"
        by (rule commit_child_pruned[OF core pruned i, of ps])
      then show ?thesis using run effect_pruned[OF inv i room sc t2] by (intro eff) simp_all
    next
      case False
      then show ?thesis using commit_child_insert_fails[OF core False, of rules ps] pruned run np inv by auto
    qed
  next
    case keep
    show ?thesis
    proof (cases "\<exists>c t1 v m. insert_child (cs_tree s) p ?pl = Ok (c, t1) \<and> ?bump = Ok (v, m)")
      case True
      then obtain c t1 v m where i: "insert_child (cs_tree s) p ?pl = Ok (c, t1)" "?bump = Ok (v, m)" by blast
      obtain t2 f where t2: "if sc_goal ch then mark_goal t1 c = Ok t2 else t2 = t1" and
        f: "frontier_insert (cs_frontier s) c = Ok f" and
        "commit_child s p ps ch rules = (Ok (child_commit_new Keep (Some c) None),
          s\<lparr>cs_tree := t2, cs_frontier := f, cs_cell_mirror := m,
            cs_seen := snd (seen_insert (cs_seen s) (np_state_hash ?pl) c), cs_streaks := cs_streaks s @ [0]\<rparr>)"
        by (rule commit_child_keep[OF inv keep i])
      then show ?thesis using run effect_keep[OF inv i room sc t2 f] by (intro eff) simp_all
    next
      case False
      then show ?thesis using commit_child_insert_fails[OF core False, of rules ps] keep run np inv by auto
    qed
  next
    case dup
    show ?thesis
    proof (cases ?bump)
      case (Ok vm)
      obtain v m where vm: "vm = (v, m)" by force
      have bump: "?bump = Ok (v, m)" using Ok vm by simp
      let ?route = "seen_get (cs_seen s) (np_state_hash ?pl)"
      note run' = run[unfolded commit_child_dup[OF dup bump refl]]
      have quiet: "child_effect s p ch (child_commit_new (Discard Duplicate) None ?route) (s\<lparr>cs_cell_mirror := m\<rparr>)"
        using effect_duplicate[OF inv bump, of "cs_tree s" p ?route] by simp
      show ?thesis
      proof (cases "?route = None \<or> ?route = Some p")
        case True
        then show ?thesis using run' quiet by (intro eff) auto
      next
        case False
        then obtain i where i: "?route = Some i" "i \<noteq> p" by auto
        show ?thesis
        proof (cases "increment_visits (cs_tree s) i")
          case (Ok vt)
          obtain v' t where vt: "vt = (v', t)" by force
          have e: "child_effect s p ch (child_commit_new (Discard Duplicate) None ?route) (s\<lparr>cs_tree := t, cs_cell_mirror := m\<rparr>)"
            using effect_duplicate[OF inv bump, of t p ?route] i Ok vt by blast
          have r': "r = Ok (child_commit_new (Discard Duplicate) None ?route)"
            and s': "s' = s\<lparr>cs_tree := t, cs_cell_mirror := m\<rparr>" using run' i Ok vt by simp_all
          show ?thesis by (rule eff[OF r' e[folded s']])
        next
          case (Err e)
          then show ?thesis using run' i quiet by (auto simp: child_effect_def)
        next
          case (Panic x)
          then show ?thesis using run' i np by auto
        qed
      qed
    next
      case (Panic x)
      then show ?thesis using run dup np by (auto simp: commit_child_def on_defs Let_def)
    qed simp
  qed
qed

section \<open>Committing a batch\<close>

text \<open>Ids of the kept children, and the first kept child that reached a goal.\<close>

definition kept_ids :: "child_commit list \<Rightarrow> node_id set" where
  "kept_ids ccs = {i. \<exists>cc \<in> set ccs. cc_disposition cc = Keep \<and> cc_node_id cc = Some i}"

fun first_goal :: "child_commit list \<Rightarrow> scored_child list \<Rightarrow> node_id option" where
  "first_goal (cc # ccs) (ch # chs) =
     (if sc_goal ch \<and> cc_disposition cc = Keep then cc_node_id cc else first_goal ccs chs)"
| "first_goal _ _ = None"

definition counted_in :: "cell_key \<Rightarrow> child_commit list \<Rightarrow> scored_child list \<Rightarrow> nat" where
  "counted_in k ccs chs = length (filter (\<lambda>(cc, ch). counted (cc_disposition cc) \<and> np_cell (sc_payload ch) = k) (zip ccs chs))"

definition batch_effect :: "commit_state \<Rightarrow> node_id \<Rightarrow> scored_child list \<Rightarrow> child_commit list \<Rightarrow> commit_state \<Rightarrow> bool" where
  "batch_effect s p chs ccs s' \<longleftrightarrow> commit_inv s' \<and> length ccs = length chs
     \<and> length (records (cs_tree s)) \<le> length (records (cs_tree s'))
     \<and> List.map_filter cc_node_id ccs = map nid [length (records (cs_tree s))..<length (records (cs_tree s'))]
     \<and> frontier_ids (cs_frontier s') = frontier_ids (cs_frontier s) \<union> kept_ids ccs
     \<and> (\<forall>k. unat (cell_count (cs_cell_mirror s') k) = unat (cell_count (cs_cell_mirror s) k) + counted_in k ccs chs)
     \<and> (status_view (cs_tree s) p \<noteq> None \<longrightarrow> status_view (cs_tree s') p = status_view (cs_tree s) p)
     \<and> (\<forall>i. flags_view (cs_tree s) i \<noteq> None \<longrightarrow> flags_view (cs_tree s') i = flags_view (cs_tree s) i)
     \<and> (\<forall>g. first_goal ccs chs = Some g \<longrightarrow> flags_view (cs_tree s') g = Some (False, True, Goal) \<and> g \<in> kept_ids ccs)
     \<and> (\<forall>k < length (cs_streaks s). cs_streaks s' ! k = cs_streaks s ! k)"

lemma commit_streaks_len: "commit_inv s \<Longrightarrow> length (cs_streaks s) = length (records (cs_tree s))"
  by (simp add: commit_inv_def core_inv_def)

lemma map_filter_Cons: "List.map_filter f (x # xs) = (case f x of None \<Rightarrow> List.map_filter f xs | Some y \<Rightarrow> y # List.map_filter f xs)"
  by (cases "f x") (simp_all add: List.map_filter_def)

lemma child_effect_len:
  assumes "child_effect s p ch cc s'"
  shows "length (records (cs_tree s)) \<le> length (records (cs_tree s'))"
    "map nid [length (records (cs_tree s))..<length (records (cs_tree s'))] = (case cc_node_id cc of None \<Rightarrow> [] | Some c \<Rightarrow> [c])"
  using assms by (auto simp: child_effect_def next_id_def split: option.splits)

lemma batch_effect_Cons:
  assumes inv: "commit_inv s" and c: "child_effect s p ch cc s1" and b: "batch_effect s1 p chs ccs s'"
  shows "batch_effect s p (ch # chs) (cc # ccs) s'"
proof -
  let ?n = "length (records (cs_tree s))" and ?n1 = "length (records (cs_tree s1))" and ?n' = "length (records (cs_tree s'))"
  note cl = child_effect_len[OF c]
  have inv1: "commit_inv s1" using c by (simp add: child_effect_def)
  have bl: "?n1 \<le> ?n'" and bm: "List.map_filter cc_node_id ccs = map nid [?n1..<?n']" using b by (auto simp: batch_effect_def)
  have "[?n..<?n'] = [?n..<?n1] @ [?n1..<?n']" using cl(1) bl by (metis le_add_diff_inverse upt_add_eq_append)
  then have ids: "List.map_filter cc_node_id (cc # ccs) = map nid [?n..<?n']"
    using cl(2) bm by (simp add: map_filter_Cons split: option.splits)
  have "kept_ids (cc # ccs) = (if cc_disposition cc = Keep then set_option (cc_node_id cc) else {}) \<union> kept_ids ccs"
    by (auto simp: kept_ids_def)
  then have kept: "frontier_ids (cs_frontier s') = frontier_ids (cs_frontier s) \<union> kept_ids (cc # ccs)"
    using b c by (auto simp: batch_effect_def child_effect_def split: option.splits)
  have goal: "flags_view (cs_tree s') g = Some (False, True, Goal) \<and> g \<in> kept_ids (cc # ccs)"
    if "first_goal (cc # ccs) (ch # chs) = Some g" for g
  proof (cases "sc_goal ch \<and> cc_disposition cc = Keep")
    case True
    then have "flags_view (cs_tree s1) g = Some (False, True, Goal)" "cc_node_id cc = Some g"
      using that c by (auto simp: child_effect_def flags_view_def split: option.splits)
    moreover have "flags_view (cs_tree s') g = flags_view (cs_tree s1) g" if "flags_view (cs_tree s1) g \<noteq> None"
      using b that unfolding batch_effect_def by blast
    ultimately show ?thesis using True by (auto simp: kept_ids_def)
  next
    case False
    then have "flags_view (cs_tree s') g = Some (False, True, Goal)" "g \<in> kept_ids ccs"
      using that b unfolding batch_effect_def by auto
    then show ?thesis by (auto simp: kept_ids_def)
  qed
  have cnt: "counted_in k (cc # ccs) (ch # chs) = (if counted (cc_disposition cc) \<and> k = np_cell (sc_payload ch) then 1 else 0)
      + counted_in k ccs chs" for k
    by (auto simp: counted_in_def)
  have "cs_streaks s' ! k = cs_streaks s ! k" if "k < length (cs_streaks s)" for k
    using that b c cl(1) commit_streaks_len[OF inv] commit_streaks_len[OF inv1]
    by (simp add: batch_effect_def child_effect_def)
  moreover have "status_view (cs_tree s') p = status_view (cs_tree s) p" if "status_view (cs_tree s) p \<noteq> None"
  proof -
    have "status_view (cs_tree s1) p = status_view (cs_tree s) p" using c that unfolding child_effect_def by blast
    then show ?thesis using b that unfolding batch_effect_def by metis
  qed
  moreover have "flags_view (cs_tree s') i = flags_view (cs_tree s) i" if "flags_view (cs_tree s) i \<noteq> None" for i
  proof -
    have "flags_view (cs_tree s1) i = flags_view (cs_tree s) i" using c that unfolding child_effect_def by blast
    then show ?thesis using b that unfolding batch_effect_def by metis
  qed
  moreover have "unat (cell_count (cs_cell_mirror s') k)
      = unat (cell_count (cs_cell_mirror s) k) + counted_in k (cc # ccs) (ch # chs)" for k
    using b c cnt[of k] by (simp add: batch_effect_def child_effect_def)
  moreover have "commit_inv s'" "length (cc # ccs) = length (ch # chs)" using b by (simp_all add: batch_effect_def)
  ultimately show ?thesis using bl cl(1) ids kept goal unfolding batch_effect_def by (meson order_trans)
qed

lemma commit_children_step:
  assumes "commit_inv s" "length (records (cs_tree s)) + length chs < 2 ^ 64"
    "\<forall>ch \<in> set chs. score_ok (np_score (sc_payload ch))"
    "commit_children s p ps rules acc g chs = (r, s')" "\<And>m. r \<noteq> Panic m"
  shows "commit_inv s' \<and> (\<forall>out. r = Ok out \<longrightarrow> (\<exists>ccs. batch_effect s p chs ccs s'
    \<and> out = (acc @ ccs, if g = None then first_goal ccs chs else g)))"
  using assms
proof (induction chs arbitrary: s acc g)
  case Nil
  then show ?case
    by (auto simp: batch_effect_def kept_ids_def counted_in_def List.map_filter_def)
next
  case (Cons ch chs)
  obtain r1 s1 where c: "commit_child s p ps ch rules = (r1, s1)" by force
  have np: "r1 \<noteq> Panic m" for m using Cons.prems(4) Cons.prems(5)[of m] c by auto
  have room: "Suc (length (records (cs_tree s))) < 2 ^ 64" using Cons.prems(2) by simp
  have sc: "score_ok (np_score (sc_payload ch))" using Cons.prems(3) by simp
  note st = commit_child_step[OF Cons.prems(1) room sc c np]
  show ?case
  proof (cases r1)
    case (Ok cc)
    have e: "child_effect s p ch cc s1" using st Ok by blast
    let ?g = "if sc_goal ch \<and> cc_disposition cc = Keep \<and> cc_node_id cc \<noteq> None \<and> g = None then cc_node_id cc else g"
    have node: "cc_node_id cc \<noteq> None" if "cc_disposition cc = Keep"
      using e that by (auto simp: child_effect_def split: option.splits)
    have run: "commit_children s1 p ps rules (acc @ [cc]) ?g chs = (r, s')"
      using Cons.prems(4) c Ok by (simp add: Let_def)
    have "length (records (cs_tree s1)) + length chs < 2 ^ 64" using st Cons.prems(2) by simp
    then have IH: "commit_inv s' \<and> (\<forall>out. r = Ok out \<longrightarrow> (\<exists>ccs. batch_effect s1 p chs ccs s'
        \<and> out = ((acc @ [cc]) @ ccs, if ?g = None then first_goal ccs chs else ?g)))"
      using Cons.IH[OF _ _ _ run Cons.prems(5)] st Cons.prems(3) by simp
    show ?thesis
    proof (intro conjI allI impI)
      fix out assume "r = Ok out"
      then obtain ccs where ccs: "batch_effect s1 p chs ccs s'"
        "out = ((acc @ [cc]) @ ccs, if ?g = None then first_goal ccs chs else ?g)" using IH by blast
      have "batch_effect s p (ch # chs) (cc # ccs) s'" by (rule batch_effect_Cons[OF Cons.prems(1) e ccs(1)])
      moreover have "out = (acc @ cc # ccs, if g = None then first_goal (cc # ccs) (ch # chs) else g)"
        using ccs(2) node by auto
      ultimately show "\<exists>ccs. batch_effect s p (ch # chs) ccs s'
          \<and> out = (acc @ ccs, if g = None then first_goal ccs (ch # chs) else g)" by blast
    qed (use IH in blast)
  next
    case (Err e)
    then show ?thesis using st c Cons.prems(4) by auto
  qed (use np in blast)
qed

definition evict_reason :: "commit_rules \<Rightarrow> u32 \<Rightarrow> u32 \<Rightarrow> frontier_evict_reason option" where
  "evict_reason rules visits streak = (if cr_max_visits_per_node rules \<le> visits then Some MaxVisits
     else if cr_exhaust_after_dup_expansions rules \<le> streak then Some AllDuplicateExpansions else None)"

definition exhaustion_effect ::
  "commit_state \<Rightarrow> node_id \<Rightarrow> u32 \<Rightarrow> bool \<Rightarrow> commit_rules \<Rightarrow> frontier_evict_reason option \<Rightarrow> commit_state \<Rightarrow> bool" where
  "exhaustion_effect s p visits all_dup rules reason s' \<longleftrightarrow>
     (\<exists>k k'. all_duplicate_streak s p = Some k \<and> all_duplicate_streak s' p = Some k'
        \<and> unat k' = (if all_dup then unat k + 1 else 0) \<and> reason = evict_reason rules visits k')
     \<and> frontier_ids (cs_frontier s') = frontier_ids (cs_frontier s) - (if reason = None then {} else {p})
     \<and> cs_cell_mirror s' = cs_cell_mirror s \<and> length (records (cs_tree s')) = length (records (cs_tree s))
     \<and> (\<forall>i. i \<noteq> p \<longrightarrow> status_view (cs_tree s') i = status_view (cs_tree s) i)
     \<and> map_option fst (status_view (cs_tree s') p) = map_option fst (status_view (cs_tree s) p)
     \<and> (if reason = None then cs_tree s' = cs_tree s
        else \<exists>v st. status_view (cs_tree s') p = Some (v, True, False, st))"

lemma streak_update:
  assumes "commit_inv s" "tree_get (cs_tree s) p = Some r"
  shows "ensure_tracking s p = s" "idx p < length (cs_streaks s)"
    "commit_inv (s\<lparr>cs_streaks := (cs_streaks s)[idx p := k]\<rparr>)"
    "all_duplicate_streak s p = Some (cs_streaks s ! idx p)"
proof -
  have len: "length (cs_streaks s) = length (records (cs_tree s))" by (rule commit_streaks_len[OF assms(1)])
  show "ensure_tracking s p = s" by (rule ensure_tracking_noop[OF len assms(2)])
  show lt: "idx p < length (cs_streaks s)" using assms(2) len by (auto simp: tree_get_eq split: if_splits)
  show "commit_inv (s\<lparr>cs_streaks := (cs_streaks s)[idx p := k]\<rparr>)"
    using assms(1) by (simp add: commit_inv_def core_inv_def)
  show "all_duplicate_streak s p = Some (cs_streaks s ! idx p)" using lt by (simp add: all_duplicate_streak_def)
qed

lemma evict_step:
  assumes inv: "commit_inv s" and ex: "mark_exhausted (cs_tree s) p = Ok t"
  shows "\<exists>s'. bind_st (if frontier_contains (cs_frontier s) p
        then on_frontier (frontier_remove (cs_frontier s) p) (s\<lparr>cs_tree := t\<rparr>) else (Ok (), s\<lparr>cs_tree := t\<rparr>))
        (\<lambda>_ s. (Ok reason, s)) = (Ok reason, s')
      \<and> commit_inv s' \<and> cs_tree s' = t \<and> cs_cell_mirror s' = cs_cell_mirror s \<and> cs_streaks s' = cs_streaks s
      \<and> frontier_ids (cs_frontier s') = frontier_ids (cs_frontier s) - {p}"
proof -
  have core: "core_inv s" and wf: "wf_tree (cs_tree s)" and fi: "frontier_inv (cs_frontier s)"
    and ids: "frontier_ids (cs_frontier s) = live (cs_tree s)" using inv by (auto simp: commit_inv_def core_inv_def)
  note v = exhausted_views[OF ex]
  have c: "core_inv (s\<lparr>cs_tree := t\<rparr>)" by (rule core_inv_tree[OF core mark_exhausted_wf[OF wf ex] v(1,3)])
  show ?thesis
  proof (cases "p \<in> frontier_ids (cs_frontier s)")
    case True
    obtain f where f: "frontier_remove (cs_frontier s) p = Ok f" using fs.rem_member[OF fi True] by blast
    have "commit_inv (s\<lparr>cs_tree := t, cs_frontier := f\<rparr>)"
      using core_inv_frontier[OF c, of f] fs.rem_Ok[OF fi f] ids v(2) by (simp add: commit_inv_def)
    then show ?thesis using True f fs.rem_Ok[OF fi f] fs.mem_iff[OF fi] by (simp add: on_frontier_def)
  next
    case False
    then have "commit_inv (s\<lparr>cs_tree := t\<rparr>)" using c ids v(2) by (simp add: commit_inv_def)
    then show ?thesis using False fs.mem_iff[OF fi] by simp
  qed
qed

lemma exhaustion_step:
  assumes inv: "commit_inv s" and p: "tree_get (cs_tree s) p = Some r0"
    and run: "update_parent_exhaustion s p visits all_dup rules = (r, s')" and np: "\<And>m. r \<noteq> Panic m"
  shows "commit_inv s' \<and> (\<forall>reason. r = Ok reason \<longrightarrow> exhaustion_effect s p visits all_dup rules reason s')"
proof -
  let ?k = "cs_streaks s ! idx p"
  note u = streak_update[OF inv p]
  have ov: "all_dup \<Longrightarrow> unat ?k + 1 < 2 ^ 32"
  proof (rule ccontr)
    assume "all_dup" "\<not> unat ?k + 1 < 2 ^ 32"
    then have "r = Panic ''all-duplicate streak overflowed''"
      using run u by (simp add: update_parent_exhaustion_def index_streak_def checked_add_def Let_def)
    then show False using np by blast
  qed
  define k' where "k' = (if all_dup then ?k + 1 else 0)"
  have k': "unat k' = (if all_dup then unat ?k + 1 else 0)" using ov by (simp add: k'_def unat_add_no_overflow)
  let ?s = "s\<lparr>cs_streaks := (cs_streaks s)[idx p := k']\<rparr>"
  have inv1: "commit_inv ?s" by (rule u(3))
  have run': "(if evict_reason rules visits k' \<noteq> None
      then bind_st (on_tree_unit (mark_exhausted (cs_tree ?s) p) ?s) (\<lambda>_ s.
             bind_st (if frontier_contains (cs_frontier s) p
                      then on_frontier (frontier_remove (cs_frontier s) p) s else (Ok (), s)) (\<lambda>_ s.
               (Ok (evict_reason rules visits k'), s)))
      else (Ok (evict_reason rules visits k'), ?s)) = (r, s')"
    using run u ov by (simp add: update_parent_exhaustion_def index_streak_def checked_add_def Let_def evict_reason_def k'_def
        split: if_splits)
  have streak: "all_duplicate_streak s1 p = Some k'" if "cs_streaks s1 = cs_streaks ?s" for s1
    using u(2) that by (simp add: all_duplicate_streak_def)
  show ?thesis
  proof (cases "evict_reason rules visits k'")
    case None
    then show ?thesis using run' inv1 u(4) k' streak[of ?s] by (auto simp: exhaustion_effect_def)
  next
    case (Some why)
    show ?thesis
    proof (cases "mark_exhausted (cs_tree s) p")
      case (Ok t)
      have ex: "mark_exhausted (cs_tree ?s) p = Ok t" using Ok by simp
      obtain s2 where s2: "bind_st (if frontier_contains (cs_frontier ?s) p
            then on_frontier (frontier_remove (cs_frontier ?s) p) (?s\<lparr>cs_tree := t\<rparr>) else (Ok (), ?s\<lparr>cs_tree := t\<rparr>))
            (\<lambda>_ s. (Ok (Some why), s)) = (Ok (Some why), s2)" "commit_inv s2" "cs_tree s2 = t"
        "cs_cell_mirror s2 = cs_cell_mirror ?s" "cs_streaks s2 = cs_streaks ?s"
        "frontier_ids (cs_frontier s2) = frontier_ids (cs_frontier ?s) - {p}"
        using evict_step[OF inv1 ex, of "Some why"] by blast
      have "(Ok (Some why), s2) = (r, s')"
        unfolding s2(1)[symmetric] using run' Some Ok
        by (cases "frontier_contains (cs_frontier s) p") (simp_all add: on_tree_unit_def)
      then show ?thesis using s2 Some u(4) k' streak[OF s2(5)] status_view_exhausted[OF Ok] exhausted_views(3)[OF Ok]
        by (auto simp: exhaustion_effect_def)
    next
      case (Err e)
      then show ?thesis using run' Some inv1 by (auto simp: on_tree_unit_def)
    next
      case (Panic m)
      then show ?thesis using run' Some np by (auto simp: on_tree_unit_def)
    qed
  qed
qed

definition all_duplicates :: "child_commit list \<Rightarrow> bool" where
  "all_duplicates ccs \<longleftrightarrow> ccs \<noteq> [] \<and> list_all (\<lambda>c. cc_disposition c = Discard Duplicate) ccs"

text \<open>The stages a batch that does not panic goes through.\<close>

definition batch_stages ::
  "commit_state \<Rightarrow> node_id \<Rightarrow> scored_child list \<Rightarrow> commit_rules \<Rightarrow> batch_commit_outcome \<Rightarrow> commit_state \<Rightarrow> bool" where
  "batch_stages s p chs rules out s' \<longleftrightarrow>
     (\<exists>pr s1 t. tree_get (cs_tree s) p = Some pr \<and> bo_parent out = p
        \<and> batch_effect s p chs (bo_child_commits out) s1 \<and> bo_goal_node out = first_goal (bo_child_commits out) chs
        \<and> increment_visits (cs_tree s1) p = Ok (bo_parent_visits out, t)
        \<and> unat (bo_parent_visits out) = unat (nr_visits pr) + 1
        \<and> exhaustion_effect (s1\<lparr>cs_tree := t\<rparr>) p (bo_parent_visits out) (all_duplicates (bo_child_commits out)) rules
            (bo_parent_evicted out) s')"

lemma visit_parent:
  assumes inv: "commit_inv s" and iv: "increment_visits (cs_tree s) p = Ok (v, t)"
  shows "commit_inv (s\<lparr>cs_tree := t\<rparr>)" "\<exists>r. tree_get t p = Some r"
proof -
  have wf: "wf_tree (cs_tree s)" using inv by (simp add: commit_inv_def core_inv_def)
  note vv = visits_views[OF iv]
  have "core_inv (s\<lparr>cs_tree := t\<rparr>)"
    using inv vv increment_visits_wf[OF wf iv] by (intro core_inv_tree) (auto simp: commit_inv_def)
  then show "commit_inv (s\<lparr>cs_tree := t\<rparr>)" using inv vv by (simp add: commit_inv_def)
  show "\<exists>r. tree_get t p = Some r" by (rule increment_visits_Ok[OF iv]) simp
qed

lemma visits_after_children:
  assumes pr: "tree_get (cs_tree s) p = Some pr" and b: "batch_effect s p chs ccs s1"
    and iv: "increment_visits (cs_tree s1) p = Ok (v, t)"
  shows "unat v = unat (nr_visits pr) + 1"
proof -
  have "status_view (cs_tree s) p = Some (nr_visits pr, nr_exhausted pr, nr_goal pr, nr_status pr)"
    using pr by (simp add: status_view_def)
  then have "status_view (cs_tree s1) p = Some (nr_visits pr, nr_exhausted pr, nr_goal pr, nr_status pr)"
    using b by (simp add: batch_effect_def)
  then show ?thesis by (auto intro: status_view_visits[OF iv])
qed

lemma commit_batch_tail:
  assumes pr: "tree_get (cs_tree s) p = Some pr" and b: "batch_effect s p chs ccs s1"
    and run: "bind_st (on_tree (increment_visits (cs_tree s1) p) s1) (\<lambda>v s.
       bind_st (update_parent_exhaustion s p v (all_duplicates ccs) rules) (\<lambda>ev s.
         (Ok \<lparr>bo_parent = p, bo_parent_visits = v, bo_child_commits = ccs, bo_parent_evicted = ev,
              bo_goal_node = first_goal ccs chs\<rparr>, s))) = (r, s')"
    and np: "\<And>m. r \<noteq> Panic m"
  shows "commit_inv s' \<and> (\<forall>out. r = Ok out \<longrightarrow> batch_stages s p chs rules out s')"
proof (cases "increment_visits (cs_tree s1) p")
  case (Ok vt)
  obtain v t where "vt = (v, t)" by force
  then have iv: "increment_visits (cs_tree s1) p = Ok (v, t)" using Ok by simp
  have inv1: "commit_inv s1" using b by (simp add: batch_effect_def)
  let ?s2 = "s1\<lparr>cs_tree := t\<rparr>"
  note inv2 = visit_parent(1)[OF inv1 iv] and v = visits_after_children[OF pr b iv]
  obtain r0 where r0: "tree_get (cs_tree ?s2) p = Some r0" using visit_parent(2)[OF inv1 iv] by auto
  obtain r3 s3 where e: "update_parent_exhaustion ?s2 p v (all_duplicates ccs) rules = (r3, s3)" by force
  have fin: "bind_st (r3, s3) (\<lambda>ev s. (Ok \<lparr>bo_parent = p, bo_parent_visits = v, bo_child_commits = ccs,
      bo_parent_evicted = ev, bo_goal_node = first_goal ccs chs\<rparr>, s)) = (r, s')"
    using run iv e by (simp add: on_tree_def)
  have np3: "r3 \<noteq> Panic m" for m using fin np[of m] by auto
  note ex = exhaustion_step[OF inv2 r0 e np3]
  show ?thesis
  proof (cases r3)
    case (Ok ev)
    then have "r = Ok \<lparr>bo_parent = p, bo_parent_visits = v, bo_child_commits = ccs,
      bo_parent_evicted = ev, bo_goal_node = first_goal ccs chs\<rparr>" "s' = s3" using fin by auto
    then show ?thesis using ex Ok pr b iv v by (auto simp: batch_stages_def)
  qed (use ex fin np3 in auto)
qed (use run b np in \<open>auto simp: on_tree_def batch_effect_def\<close>)

lemma commit_batch_stages:
  assumes run: "commit_batch s p chs rules = (r, s')" and np: "\<And>m. r \<noteq> Panic m"
    and inv: "commit_inv s" and room: "length (records (cs_tree s)) + length chs < 2 ^ 64"
    and sc: "\<forall>ch \<in> set chs. score_ok (np_score (sc_payload ch))"
  shows "commit_inv s' \<and> (\<forall>out. r = Ok out \<longrightarrow> validate_rules rules = Ok () \<and> batch_stages s p chs rules out s')"
proof (cases "validate_rules rules")
  case (Ok u)
  show ?thesis
  proof (cases "tree_get (cs_tree s) p")
    case None
    then show ?thesis using run Ok inv by (auto simp: commit_batch_def)
  next
    case (Some pr)
    obtain r1 s1 where c: "commit_children s p (score_get (nr_score pr)) rules [] None chs = (r1, s1)" by force
    have np1: "r1 \<noteq> Panic m" for m using run Ok Some c np[of m] by (auto simp: commit_batch_def)
    note st = commit_children_step[OF inv room sc c np1]
    show ?thesis
    proof (cases r1)
      case Ok1: (Ok cg)
      obtain ccs where b: "batch_effect s p chs ccs s1" "cg = (ccs, first_goal ccs chs)" using st Ok1 by auto
      have "bind_st (on_tree (increment_visits (cs_tree s1) p) s1) (\<lambda>v s.
         bind_st (update_parent_exhaustion s p v (all_duplicates ccs) rules) (\<lambda>ev s.
           (Ok \<lparr>bo_parent = p, bo_parent_visits = v, bo_child_commits = ccs, bo_parent_evicted = ev,
                bo_goal_node = first_goal ccs chs\<rparr>, s))) = (r, s')"
        using run Ok Some c Ok1 b(2) by (simp add: commit_batch_def all_duplicates_def Let_def)
      from commit_batch_tail[OF Some b(1) this np] show ?thesis using Ok by simp
    qed (use run Ok Some c st np1 in \<open>auto simp: commit_batch_def\<close>)
  qed
qed (use run inv np in \<open>auto simp: commit_batch_def validate_rules_def split: if_splits\<close>)

section \<open>Headroom\<close>

text \<open>What keeps the counters of the tree from overflowing while \<open>n\<close> more children are committed.\<close>

definition visits_le :: "tree \<Rightarrow> nat \<Rightarrow> bool" where
  "visits_le t b \<longleftrightarrow> (\<forall>i r. tree_get t i = Some r \<longrightarrow> unat (nr_visits r) \<le> b)"

definition parent_room :: "tree \<Rightarrow> node_id \<Rightarrow> nat \<Rightarrow> bool" where
  "parent_room t p n \<longleftrightarrow> (\<exists>r. tree_get t p = Some r \<and> unat (nr_depth r) + 1 < 2 ^ 32
     \<and> unat (nr_children r) + n < 2 ^ 32 \<and> \<not> nr_goal r)"

definition headroom :: "commit_state \<Rightarrow> node_id \<Rightarrow> nat \<Rightarrow> bool" where
  "headroom s p n \<longleftrightarrow> (\<exists>b. visits_le (cs_tree s) b \<and> b + n + 1 < 2 ^ 32) \<and> parent_room (cs_tree s) p n
     \<and> (\<forall>k. unat (cell_count (cs_cell_mirror s) k) + n < 2 ^ 32)
     \<and> (\<exists>k. all_duplicate_streak s p = Some k \<and> unat k + 1 < 2 ^ 32)
     \<and> length (records (cs_tree s)) + n < 2 ^ 64"

lemma visits_le_upd:
  "visits_le t b \<Longrightarrow> tree_get t' = (tree_get t)(i \<mapsto> r') \<Longrightarrow> unat (nr_visits r') \<le> b' \<Longrightarrow> b \<le> b' \<Longrightarrow> visits_le t' b'"
  by (fastforce simp: visits_le_def split: if_splits)

lemma parent_room_upd:
  "parent_room t p n \<Longrightarrow> tree_get t' = (tree_get t)(i \<mapsto> r') \<Longrightarrow> i \<noteq> p \<Longrightarrow> parent_room t' p n"
  by (auto simp: parent_room_def)

lemma insert_rooms:
  assumes wf: "wf_tree t" and ins: "insert_child t p pl = Ok (c, t')"
    and v: "visits_le t b" and r: "parent_room t p (Suc n)"
  shows "visits_le t' b" "parent_room t' p n" "p \<noteq> c"
proof -
  from insert_child_get[OF wf ins] obtain pr d m where g: "tree_get t p = Some pr" "tree_get t c = None"
    "unat m = unat (nr_children pr) + 1"
    "tree_get t' = (tree_get t)(p \<mapsto> pr\<lparr>nr_children := m\<rparr>, c \<mapsto> node_record_child c p d pl)" by blast
  show "p \<noteq> c" using g by auto
  then show "parent_room t' p n" using g r by (simp add: parent_room_def)
  show "visits_le t' b" using g v
    by (auto simp: visits_le_def node_record_child_def node_record_new_def split: if_splits)
qed

lemma mark_rooms:
  assumes "visits_le t b" "parent_room t p n" "p \<noteq> c"
    "mark_pruned t c = Ok t' \<or> mark_goal t c = Ok t'"
  shows "visits_le t' b" "parent_room t' p n"
proof -
  obtain r r' where g: "tree_get t c = Some r" "nr_visits r' = nr_visits r" "tree_get t' = (tree_get t)(c \<mapsto> r')"
    using assms(4)
  proof
    assume "mark_pruned t c = Ok t'"
    then have "update_record t c (mark_pruned_record c) = Ok t'" by (simp add: mark_pruned_def)
    then obtain r r' where g: "tree_get t c = Some r" "mark_pruned_record c r = Ok r'"
      "tree_get t' = (tree_get t)(c \<mapsto> r')" by (rule pruned_upd.update_get)
    moreover have "nr_visits r' = nr_visits r" using g(2) by (auto simp: mark_pruned_record_def split: if_splits)
    ultimately show thesis using that by blast
  next
    assume "mark_goal t c = Ok t'"
    then have "update_record t c (mark_goal_record c) = Ok t'" by (simp add: mark_goal_def)
    then obtain r r' where g: "tree_get t c = Some r" "mark_goal_record c r = Ok r'"
      "tree_get t' = (tree_get t)(c \<mapsto> r')" by (rule goal_upd.update_get)
    moreover have "nr_visits r' = nr_visits r" using g(2) by (auto simp: mark_goal_record_def split: if_splits)
    ultimately show thesis using that by blast
  qed
  have "unat (nr_visits r') \<le> b" using assms(1) g by (auto simp: visits_le_def)
  then show "visits_le t' b" using visits_le_upd[OF assms(1) g(3)] by simp
  show "parent_room t' p n" using parent_room_upd[OF assms(2) g(3)] assms(3) by simp
qed

lemma increment_rooms:
  assumes "visits_le t b" "tree_get t i = Some r" "b + 1 < 2 ^ 32"
  obtains v t' where "increment_visits t i = Ok (v, t')" "visits_le t' (b + 1)"
    "\<forall>p n. p \<noteq> i \<longrightarrow> parent_room t p n \<longrightarrow> parent_room t' p n"
proof -
  have le: "unat (nr_visits r) \<le> b" using assms(1,2) by (auto simp: visits_le_def)
  have "increment_visits_record i r \<noteq> Err e" for e
    using le assms(3) by (simp add: increment_visits_record_def checked_add_def)
  then obtain t' where u: "update_record t i (increment_visits_record i) = Ok t'"
    using visits_upd.update_total[OF assms(2)] by blast
  then have ok: "idx i < length (records t')" using assms(2)
    by (auto simp: update_record_Ok tree_get_eq split: if_splits)
  then have iv: "increment_visits t i = Ok (nr_visits (records t' ! idx i), t')"
    using u by (simp add: increment_visits_def index_or_not_found_def index_of_def)
  from increment_visits_Ok[OF iv] obtain r1 v where g: "tree_get t i = Some r1" "unat v = unat (nr_visits r1) + 1"
    "tree_get t' = (tree_get t)(i \<mapsto> r1\<lparr>nr_visits := v\<rparr>)" by metis
  have "visits_le t' (b + 1)" using visits_le_upd[OF assms(1) g(3), of "b + 1"] g le assms(2) by simp
  then show ?thesis using that[OF iv] parent_room_upd[OF _ g(3)] by metis
qed

lemma bump_room:
  assumes "\<forall>k. unat (cell_count m k) + Suc n < 2 ^ 32" "cells_ok m"
  obtains v m' where "cell_bump m c = (Ok (v, m') :: (commit_error, u32 \<times> cell_mirror) res)"
    "\<forall>k. unat (cell_count m' k) + n < 2 ^ 32"
proof -
  have "unat (cell_count m c) + unat (1::u32) < 2 ^ 32" using assms(1)[rule_format, of c] by simp
  then obtain v m' where b: "cell_bump m c = (Ok (v, m') :: (commit_error, u32 \<times> cell_mirror) res)"
    unfolding cell_bump_def using cell_bump_by_total by blast
  have "unat (cell_count m' k) + n < 2 ^ 32" for k
    using bump_effect(2)[OF b assms(2), of k] assms(1)[rule_format, of k] by (simp split: if_splits)
  then show ?thesis using that[OF b] by blast
qed

lemma insert_room:
  assumes "wf_tree t" "parent_room t p (Suc n)"
  obtains c t' where "insert_child t p pl = Ok (c, t')"
proof -
  from assms(2) obtain r where r: "tree_get t p = Some r" "unat (nr_depth r) + 1 < 2 ^ 32" "unat (nr_children r) + 1 < 2 ^ 32"
    by (auto simp: parent_room_def)
  show ?thesis by (rule insert_child_total[OF assms(1) r]) (rule that)
qed

lemma streak_room:
  assumes "headroom s p n" "cs_streaks s' = cs_streaks s \<or> cs_streaks s' = cs_streaks s @ [0]"
  shows "\<exists>k. all_duplicate_streak s' p = Some k \<and> unat k + 1 < 2 ^ 32"
  using assms by (auto simp: headroom_def all_duplicate_streak_def Let_def nth_append split: if_splits)

lemma headroom_new_node:
  assumes inv: "commit_inv s" and h: "headroom s p (Suc n)"
    and ins: "insert_child (cs_tree s) p pl = Ok (c, t1)" and m: "\<forall>k. unat (cell_count m k) + n < 2 ^ 32"
    and t2: "t2 = t1 \<or> mark_pruned t1 c = Ok t2 \<or> mark_goal t1 c = Ok t2"
    and s': "cs_tree s' = t2" "cs_cell_mirror s' = m" "cs_streaks s' = cs_streaks s @ [0]"
  shows "headroom s' p n"
proof -
  have wf: "wf_tree (cs_tree s)" using inv by (simp add: commit_inv_def core_inv_def)
  obtain b where b: "visits_le (cs_tree s) b" "b + Suc n + 1 < 2 ^ 32" using h by (auto simp: headroom_def)
  have pr: "parent_room (cs_tree s) p (Suc n)" using h by (simp add: headroom_def)
  note i = insert_rooms[OF wf ins b(1) pr]
  have r2: "visits_le t2 b" "parent_room t2 p n" using t2 mark_rooms[OF i(1,2,3), of t2] i by auto
  have "length (records t2) = Suc (length (records (cs_tree s)))"
    using t2 insert_views(5)[OF wf ins] pruned_views(3)[of t1 c t2] goal_views(3)[of t1 c t2] by auto
  then have len: "length (records t2) + n < 2 ^ 64" using h by (simp add: headroom_def)
  have "b + n + 1 < 2 ^ 32" using b(2) by simp
  then show ?thesis using r2 m len s' streak_room[OF h, of s'] unfolding headroom_def by auto
qed

lemma commit_dup_total:
  assumes inv: "commit_inv s" and h: "headroom s p (Suc n)" and dup: "\<not> sc_prune ch" "sc_duplicate ch"
    and bump: "cell_bump (cs_cell_mirror s) (np_cell (sc_payload ch)) = (Ok (v, m) :: (commit_error, u32 \<times> cell_mirror) res)"
    and m: "\<forall>k. unat (cell_count m k) + n < 2 ^ 32"
  shows "\<exists>cc s'. commit_child s p ps ch rules = (Ok cc, s') \<and> headroom s' p n"
proof -
  let ?route = "seen_get (cs_seen s) (np_state_hash (sc_payload ch))"
  obtain b where b: "visits_le (cs_tree s) b" "b + Suc n + 1 < 2 ^ 32" using h by (auto simp: headroom_def)
  have pr: "parent_room (cs_tree s) p n" "length (records (cs_tree s)) + n < 2 ^ 64"
    using h by (auto simp: headroom_def parent_room_def)
  have room: "headroom (s\<lparr>cs_tree := t, cs_cell_mirror := m\<rparr>) p n"
    if "visits_le t (b + 1)" "parent_room t p n" "length (records t) = length (records (cs_tree s))" for t
    using that b(2) m pr(2) streak_room[OF h, of "s\<lparr>cs_tree := t, cs_cell_mirror := m\<rparr>"]
    unfolding headroom_def by auto
  show ?thesis
  proof (cases "?route = None \<or> ?route = Some p")
    case True
    have "visits_le (cs_tree s) (b + 1)" using b(1) by (fastforce simp: visits_le_def)
    then show ?thesis using room[of "cs_tree s"] pr True by (simp add: commit_child_dup[OF dup bump refl])
  next
    case False
    then obtain i where i: "?route = Some i" "i \<noteq> p" by auto
    have "hash_of (cs_tree s) i = Some (np_state_hash (sc_payload ch))"
      using inv i(1) unfolding commit_inv_def core_inv_def seen_agrees_def by blast
    then obtain r where r: "tree_get (cs_tree s) i = Some r" by (auto simp: hash_of_def)
    have b1: "b + 1 < 2 ^ 32" using b(2) by simp
    obtain v' t where iv: "increment_visits (cs_tree s) i = Ok (v', t)" "visits_le t (b + 1)"
      and keep: "\<forall>q n. q \<noteq> i \<longrightarrow> parent_room (cs_tree s) q n \<longrightarrow> parent_room t q n"
      by (rule increment_rooms[OF b(1) r b1])
    show ?thesis using room[OF iv(2)] keep pr(1) visits_views(3)[OF iv(1)] iv i
      by (simp add: commit_child_dup[OF dup bump refl])
  qed
qed

lemma commit_child_total:
  assumes inv: "commit_inv s" and h: "headroom s p (Suc n)"
  shows "\<exists>cc s'. commit_child s p ps ch rules = (Ok cc, s') \<and> headroom s' p n"
proof -
  let ?pl = "sc_payload ch"
  have core: "core_inv s" and wf: "wf_tree (cs_tree s)" and cells: "cells_ok (cs_cell_mirror s)"
    and agree: "seen_agrees (cs_tree s) (cs_seen s)" using inv by (auto simp: commit_inv_def core_inv_def)
  have pr: "parent_room (cs_tree s) p (Suc n)" using h by (simp add: headroom_def)
  obtain v m where bump: "cell_bump (cs_cell_mirror s) (np_cell ?pl) = (Ok (v, m) :: (commit_error, u32 \<times> cell_mirror) res)"
    and m: "\<forall>k. unat (cell_count m k) + n < 2 ^ 32"
    using bump_room[OF _ cells] h unfolding headroom_def by metis
  obtain c t1 where ins: "insert_child (cs_tree s) p ?pl = Ok (c, t1)" by (rule insert_room[OF wf pr])
  have less: "headroom s p n"
  proof -
    obtain b where b: "visits_le (cs_tree s) b" "b + Suc n + 1 < 2 ^ 32" using h by (auto simp: headroom_def)
    then have "b + n + 1 < 2 ^ 32" by simp
    moreover have "unat (cell_count (cs_cell_mirror s) k) + n < 2 ^ 32" for k
      using h unfolding headroom_def by (metis add_Suc_right Suc_lessD)
    ultimately show ?thesis using h b(1) unfolding headroom_def parent_room_def by fastforce
  qed
  consider (drop) "sc_prune ch" "cr_prune_action rules = Drop"
    | (pruned) "sc_prune ch" "cr_prune_action rules = Exhausted"
    | (dup) "\<not> sc_prune ch" "sc_duplicate ch"
    | (regr) "\<not> sc_prune ch" "\<not> sc_duplicate ch"
        "f_lt (f_add (score_get (np_score ?pl)) (cr_epsilon_keep rules)) ps \<and> 0 < cell_count (cs_cell_mirror s) (np_cell ?pl)"
    | (keep) "\<not> sc_prune ch" "\<not> sc_duplicate ch"
        "\<not> (f_lt (f_add (score_get (np_score ?pl)) (cr_epsilon_keep rules)) ps \<and> 0 < cell_count (cs_cell_mirror s) (np_cell ?pl))"
    using prune_action.exhaust by metis
  then show ?thesis
  proof cases
    case pruned
    show ?thesis
    proof (rule commit_child_pruned[OF core pruned ins bump, of ps])
      fix t2 assume "mark_pruned t1 c = Ok t2" and run: "commit_child s p ps ch rules = (Ok (child_commit_new PrunedExhausted (Some c) None),
         s\<lparr>cs_tree := t2, cs_cell_mirror := m, cs_seen := snd (seen_insert (cs_seen s) (np_state_hash ?pl) c),
           cs_streaks := cs_streaks s @ [0]\<rparr>)"
      then show ?thesis using headroom_new_node[OF inv h ins m, of t2] by (simp add: run)
    qed
  next
    case keep
    show ?thesis
    proof (rule commit_child_keep[OF inv keep ins bump])
      fix t2 f assume "if sc_goal ch then mark_goal t1 c = Ok t2 else t2 = t1"
        and run: "commit_child s p ps ch rules = (Ok (child_commit_new Keep (Some c) None),
         s\<lparr>cs_tree := t2, cs_frontier := f, cs_cell_mirror := m,
           cs_seen := snd (seen_insert (cs_seen s) (np_state_hash ?pl) c), cs_streaks := cs_streaks s @ [0]\<rparr>)"
      then show ?thesis using headroom_new_node[OF inv h ins m, of t2] by (simp add: run split: if_splits)
    qed
  next
    case dup
    show ?thesis by (rule commit_dup_total[OF inv h dup bump m])
  qed (use less in \<open>auto simp: commit_child_def Let_def\<close>)
qed

lemma commit_children_total:
  assumes "commit_inv s" "headroom s p (length chs)" "\<forall>ch \<in> set chs. score_ok (np_score (sc_payload ch))"
  shows "\<exists>out s'. commit_children s p ps rules acc g chs = (Ok out, s') \<and> headroom s' p 0"
  using assms
proof (induction chs arbitrary: s acc g)
  case (Cons ch chs)
  obtain cc s1 where c: "commit_child s p ps ch rules = (Ok cc, s1)" "headroom s1 p (length chs)"
    using commit_child_total[OF Cons.prems(1), of p "length chs" ps ch rules] Cons.prems(2) by auto
  have "Suc (length (records (cs_tree s))) < 2 ^ 64" using Cons.prems(2) by (simp add: headroom_def)
  then have "commit_inv s1" using commit_child_step[OF Cons.prems(1) _ _ c(1)] Cons.prems(3) by simp
  then show ?case using Cons.IH[of s1] c Cons.prems(3) by (simp add: Let_def)
qed simp

lemma exhaustion_total:
  assumes inv: "commit_inv s" and r: "tree_get (cs_tree s) p = Some r" "\<not> nr_goal r"
    and k: "all_duplicate_streak s p = Some k" "unat k + 1 < 2 ^ 32"
  shows "\<exists>reason s'. update_parent_exhaustion s p v d rules = (Ok reason, s')"
proof -
  note u = streak_update[OF inv r(1)]
  have kk: "k = cs_streaks s ! idx p" using u(4) k(1) by simp
  have wf: "wf_tree (cs_tree s)" using inv by (simp add: commit_inv_def core_inv_def)
  have "nr_status r \<noteq> Goal" using tree_get_props[OF wf r(1)] r(2) by (auto simp: flags_ok_def)
  then have "mark_exhausted_record p r \<noteq> Err e" for e using r(2) by (simp add: mark_exhausted_record_def Let_def)
  then obtain t where t: "mark_exhausted (cs_tree s) p = Ok t"
    unfolding mark_exhausted_def using exhausted_upd.update_total[OF r(1)] by blast
  define k' where "k' = (if d then k + 1 else 0)"
  let ?s = "s\<lparr>cs_streaks := (cs_streaks s)[idx p := k']\<rparr>"
  have ev: "mark_exhausted (cs_tree ?s) p = Ok t" using t by simp
  obtain s2 where s2: "bind_st (if frontier_contains (cs_frontier ?s) p
        then on_frontier (frontier_remove (cs_frontier ?s) p) (?s\<lparr>cs_tree := t\<rparr>) else (Ok (), ?s\<lparr>cs_tree := t\<rparr>))
        (\<lambda>_ s. (Ok (evict_reason rules v k'), s)) = (Ok (evict_reason rules v k'), s2)"
    using evict_step[OF u(3) ev, of "evict_reason rules v k'"] by blast
  have "update_parent_exhaustion s p v d rules = (if evict_reason rules v k' \<noteq> None
      then (Ok (evict_reason rules v k'), s2) else (Ok (evict_reason rules v k'), ?s))"
    unfolding s2[symmetric] using u k kk t
    by (simp add: update_parent_exhaustion_def index_streak_def checked_add_def Let_def evict_reason_def k'_def
        on_tree_unit_def split: if_splits)
  then show ?thesis by (cases "evict_reason rules v k'") auto
qed

lemma new_ids_fresh:
  assumes "i \<in> set (List.map_filter cc_node_id ccs)"
    "List.map_filter cc_node_id ccs = map nid [length (records t)..<n]" "n < 2 ^ 64"
  shows "tree_get t i = None"
  using assms by (auto simp: tree_get_eq)

lemma kept_new: "i \<in> kept_ids ccs \<Longrightarrow> i \<in> set (List.map_filter cc_node_id ccs)"
  by (force simp: kept_ids_def List.map_filter_def)

lemma goal_node_facts:
  assumes inv: "commit_inv s" and room: "length (records (cs_tree s)) + length chs < 2 ^ 64"
    and pr: "tree_get (cs_tree s) p = Some pr" and b: "batch_effect s p chs ccs s1"
    and iv: "increment_visits (cs_tree s1) p = Ok (v, t)"
    and ex: "exhaustion_effect (s1\<lparr>cs_tree := t\<rparr>) p v d rules reason s'" and g: "first_goal ccs chs = Some g"
  shows "tree_get (cs_tree s) g = None \<and> (\<exists>w. status_view (cs_tree s') g = Some (w, False, True, Goal))"
proof -
  have fl: "flags_view (cs_tree s1) g = Some (False, True, Goal)" and kept: "g \<in> kept_ids ccs"
    using b g by (auto simp: batch_effect_def)
  have wf1: "wf_tree (cs_tree s1)" using b by (simp add: batch_effect_def commit_inv_def core_inv_def)
  have new: "tree_get (cs_tree s) g = None"
    using new_ids_fresh[OF kept_new[OF kept]] b wf_treeD(2)[OF wf1] by (auto simp: batch_effect_def)
  then have "g \<noteq> p" using pr by auto
  then have "status_view (cs_tree s') g = status_view t g" using ex by (simp add: exhaustion_effect_def)
  moreover have "flags_view t g = Some (False, True, Goal)" using fl flags_view_visits[OF iv] by simp
  ultimately show ?thesis using new by (auto simp: flags_view_def)
qed

lemma regression_branch:
  assumes "commit_child s p ps ch rules = (Ok cc, s')" "cc_disposition cc = Discard Regression"
  shows "f_lt (f_add (score_get (np_score (sc_payload ch))) (cr_epsilon_keep rules)) ps
    \<and> 0 < cell_count (cs_cell_mirror s) (np_cell (sc_payload ch)) \<and> cc_node_id cc = None \<and> s' = s"
  using assms
  by (auto simp: commit_child_def child_commit_new_def Let_def bind_st_Ok
      split: if_splits prune_action.splits)

lemma commit_batch_total:
  assumes "commit_inv s" "validate_rules rules = Ok ()" "\<forall>ch \<in> set chs. score_ok (np_score (sc_payload ch))"
    "headroom s p (length chs)"
  shows "\<exists>out s'. commit_batch s p chs rules = (Ok out, s')"
proof -
  obtain pr where pr: "tree_get (cs_tree s) p = Some pr" "\<not> nr_goal pr"
    using assms(4) by (auto simp: headroom_def parent_room_def)
  have room: "length (records (cs_tree s)) + length chs < 2 ^ 64" using assms(4) by (simp add: headroom_def)
  obtain ccs g s1 where c: "commit_children s p (score_get (nr_score pr)) rules [] None chs = (Ok (ccs, g), s1)"
    and h1: "headroom s1 p 0"
    using commit_children_total[OF assms(1,4,3), of "score_get (nr_score pr)" rules "[]" None] by auto
  have inv1: "commit_inv s1" using commit_children_step[OF assms(1) room assms(3) c] by simp
  obtain b r1 where b: "visits_le (cs_tree s1) b" "b + 1 < 2 ^ 32" and r1: "tree_get (cs_tree s1) p = Some r1" "\<not> nr_goal r1"
    using h1 by (auto simp: headroom_def parent_room_def)
  obtain v t where iv: "increment_visits (cs_tree s1) p = Ok (v, t)" by (rule increment_rooms[OF b(1) r1(1) b(2)])
  let ?s2 = "s1\<lparr>cs_tree := t\<rparr>"
  have "\<exists>r2. tree_get (cs_tree ?s2) p = Some r2 \<and> \<not> nr_goal r2"
    by (rule increment_visits_Ok[OF iv]) (use r1 in auto)
  then obtain r2 where r2: "tree_get (cs_tree ?s2) p = Some r2" "\<not> nr_goal r2" by blast
  have "all_duplicate_streak ?s2 p = all_duplicate_streak s1 p"
    by (simp add: all_duplicate_streak_def cong: if_cong)
  then obtain k where k: "all_duplicate_streak ?s2 p = Some k" "unat k + 1 < 2 ^ 32"
    using h1 by (auto simp: headroom_def)
  obtain ev s3 where e: "update_parent_exhaustion ?s2 p v (ccs \<noteq> [] \<and> list_all (\<lambda>c. cc_disposition c = Discard Duplicate) ccs) rules
      = (Ok ev, s3)" using exhaustion_total[OF visit_parent(1)[OF inv1 iv] r2 k] by blast
  show ?thesis using assms(2) pr c iv e by (simp add: commit_batch_def on_tree_def Let_def)
qed

section \<open>Properties\<close>

text \<open>C2: Committing a batch keeps the commit state consistent, whether the call succeeds or returns an
  error: tree, frontier, cell counts and seen table keep their representation invariants, every
  node has a streak counter, the frontier holds exactly the nodes that are not exhausted, and
  the seen table maps exactly the state hashes of the tree to nodes that have them.\<close>

theorem commit_batch_preserves_inv:
  assumes "commit_inv s" "length (records (cs_tree s)) + length chs < 2 ^ 64"
    "\<forall>ch \<in> set chs. score_ok (np_score (sc_payload ch))"
    "commit_batch s p chs rules = (r, s')" "\<forall>m. r \<noteq> Panic m"
  shows "commit_inv s'"
  using commit_batch_stages[OF assms(4) _ assms(1,2,3)] assms(5) by blast

text \<open>C4: What a committed batch did. Every child got one commit record; the nodes reported for kept
  and pruned children are exactly the ids added to the tree, in the order of the children; the
  frontier gained the kept ones and lost the parent when it was evicted; the count of every cell
  grew by the number of its children that were kept, pruned or duplicates; and the parent was
  visited exactly once more, as its record and the outcome both say.\<close>

theorem commit_batch_outcome:
  assumes "commit_inv s" "length (records (cs_tree s)) + length chs < 2 ^ 64"
    "\<forall>ch \<in> set chs. score_ok (np_score (sc_payload ch))" "commit_batch s p chs rules = (Ok out, s')"
  shows "length (bo_child_commits out) = length chs
    \<and> List.map_filter cc_node_id (bo_child_commits out)
        = map nid [length (records (cs_tree s))..<length (records (cs_tree s'))]
    \<and> frontier_ids (cs_frontier s') = frontier_ids (cs_frontier s) \<union> kept_ids (bo_child_commits out)
        - (if bo_parent_evicted out = None then {} else {p})
    \<and> (\<forall>k. unat (cell_count (cs_cell_mirror s') k)
        = unat (cell_count (cs_cell_mirror s) k) + counted_in k (bo_child_commits out) chs)
    \<and> (\<exists>pr pr'. tree_get (cs_tree s) p = Some pr \<and> unat (bo_parent_visits out) = unat (nr_visits pr) + 1
        \<and> tree_get (cs_tree s') p = Some pr' \<and> nr_visits pr' = bo_parent_visits out)"
proof -
  from commit_batch_stages[OF assms(4) _ assms(1,2,3)] have "batch_stages s p chs rules out s'" by simp
  then obtain pr s1 t where st: "tree_get (cs_tree s) p = Some pr" "batch_effect s p chs (bo_child_commits out) s1"
    "increment_visits (cs_tree s1) p = Ok (bo_parent_visits out, t)" "unat (bo_parent_visits out) = unat (nr_visits pr) + 1"
    "exhaustion_effect (s1\<lparr>cs_tree := t\<rparr>) p (bo_parent_visits out) (all_duplicates (bo_child_commits out)) rules
       (bo_parent_evicted out) s'" unfolding batch_stages_def by blast
  obtain x where "status_view t p = Some (bo_parent_visits out, x)" by (rule status_view_visits[OF st(3)]) simp
  then have "map_option fst (status_view (cs_tree s') p) = Some (bo_parent_visits out)"
    using st(5) by (simp add: exhaustion_effect_def)
  then obtain pr' where "tree_get (cs_tree s') p = Some pr'" "nr_visits pr' = bo_parent_visits out"
    by (auto simp: status_view_def)
  then show ?thesis using st visits_views(3)[OF st(3)] by (auto simp: batch_effect_def exhaustion_effect_def)
qed

text \<open>C26: The goal node a batch reports is the node of its first kept child that reached the goal, in
  the order of the children, and none when there is no such child; the node is marked as goal, is
  not exhausted and has just been added to the tree.\<close>

theorem commit_batch_goal_node:
  assumes "commit_inv s" "length (records (cs_tree s)) + length chs < 2 ^ 64"
    "\<forall>ch \<in> set chs. score_ok (np_score (sc_payload ch))" "commit_batch s p chs rules = (Ok out, s')"
  shows "bo_goal_node out = first_goal (bo_child_commits out) chs
    \<and> (\<forall>g. bo_goal_node out = Some g \<longrightarrow> tree_get (cs_tree s) g = None
        \<and> (\<exists>r. tree_get (cs_tree s') g = Some r \<and> nr_goal r \<and> nr_status r = Goal \<and> \<not> nr_exhausted r))"
proof -
  from commit_batch_stages[OF assms(4) _ assms(1,2,3)] have "batch_stages s p chs rules out s'" by simp
  then obtain pr s1 t where st: "tree_get (cs_tree s) p = Some pr" "batch_effect s p chs (bo_child_commits out) s1"
    "bo_goal_node out = first_goal (bo_child_commits out) chs"
    "increment_visits (cs_tree s1) p = Ok (bo_parent_visits out, t)"
    "exhaustion_effect (s1\<lparr>cs_tree := t\<rparr>) p (bo_parent_visits out) (all_duplicates (bo_child_commits out)) rules
       (bo_parent_evicted out) s'" unfolding batch_stages_def by blast
  have "tree_get (cs_tree s) g = None \<and> (\<exists>v. status_view (cs_tree s') g = Some (v, False, True, Goal))"
    if "bo_goal_node out = Some g" for g
    by (rule goal_node_facts[OF assms(1,2) st(1,2,4,5)]) (use that st(3) in simp)
  then show ?thesis using st(3) by (auto simp: status_view_def)
qed

text \<open>C8: Eviction follows the visit and duplicate limits. The duplicate streak of the parent grows by
  one when the batch was not empty and every child was discarded as a duplicate, and is
  cleared otherwise; the parent is evicted for its visits when they reach the visit limit, else
  for its streak when that reaches the duplicate limit, else not at all. An evicted parent is
  marked exhausted and is not in the frontier.\<close>

theorem commit_batch_eviction:
  assumes "commit_inv s" "length (records (cs_tree s)) + length chs < 2 ^ 64"
    "\<forall>ch \<in> set chs. score_ok (np_score (sc_payload ch))" "commit_batch s p chs rules = (Ok out, s')"
  shows "\<exists>k k'. all_duplicate_streak s p = Some k \<and> all_duplicate_streak s' p = Some k'
    \<and> unat k' = (if bo_child_commits out \<noteq> [] \<and> (\<forall>c \<in> set (bo_child_commits out). cc_disposition c = Discard Duplicate)
                 then unat k + 1 else 0)
    \<and> bo_parent_evicted out = (if cr_max_visits_per_node rules \<le> bo_parent_visits out then Some MaxVisits
         else if cr_exhaust_after_dup_expansions rules \<le> k' then Some AllDuplicateExpansions else None)
    \<and> (bo_parent_evicted out \<noteq> None \<longrightarrow> p \<notin> frontier_ids (cs_frontier s')
         \<and> (\<exists>r. tree_get (cs_tree s') p = Some r \<and> nr_exhausted r))"
proof -
  from commit_batch_stages[OF assms(4) _ assms(1,2,3)] have "batch_stages s p chs rules out s'" by simp
  then obtain pr s1 t where st: "tree_get (cs_tree s) p = Some pr" "batch_effect s p chs (bo_child_commits out) s1"
    "increment_visits (cs_tree s1) p = Ok (bo_parent_visits out, t)"
    "exhaustion_effect (s1\<lparr>cs_tree := t\<rparr>) p (bo_parent_visits out) (all_duplicates (bo_child_commits out)) rules
       (bo_parent_evicted out) s'" unfolding batch_stages_def by blast
  have "idx p < length (cs_streaks s)" using streak_update(2)[OF assms(1) st(1)] .
  then have "all_duplicate_streak (s1\<lparr>cs_tree := t\<rparr>) p = all_duplicate_streak s p"
    using st(2) commit_streaks_len[OF assms(1)] commit_streaks_len[of s1]
    by (simp add: all_duplicate_streak_def Let_def batch_effect_def)
  then show ?thesis using st(4)
    by (auto simp: exhaustion_effect_def evict_reason_def all_duplicates_def list_all_iff status_view_def
        split: if_splits)
qed

text \<open>A child is discarded as a regression only when it is strictly worse than its parent and falls
  into a cell that was already counted; nothing is changed for it. The keep threshold of valid
  rules can only make the rule more lenient.\<close>

theorem regression_is_worse:
  assumes "validate_rules rules = Ok ()" "score_ok (np_score (sc_payload ch))" "score_ok ps"
    "commit_child s p (score_get ps) ch rules = (Ok cc, s')" "cc_disposition cc = Discard Regression"
  shows "f_lt (score_get (np_score (sc_payload ch))) (score_get ps)
    \<and> 0 < cell_count (cs_cell_mirror s) (np_cell (sc_payload ch)) \<and> cc_node_id cc = None \<and> s' = s"
proof -
  let ?x = "score_get (np_score (sc_payload ch))" and ?e = "cr_epsilon_keep rules"
  have e: "is_finite ?e" "\<not> f_lt ?e f_zero" using assms(1) by (auto simp: validate_rules_def split: if_splits)
  have z: "\<not> is_nan f_zero" "skey f_zero = 0" by (simp_all add: f_zero_def is_nan_def skey_def mag_def inf_mag_def)
  have "0 \<le> skey ?e" using e z by (simp add: f_lt_def)
  then have inc: "f_le ?x (f_add ?x ?e)" using assms(2) e(1) by (intro f_add_increasing) auto
  have "f_lt (f_add ?x ?e) (score_get ps) \<and> 0 < cell_count (cs_cell_mirror s) (np_cell (sc_payload ch))
      \<and> cc_node_id cc = None \<and> s' = s"
    using assms(4,5) by (rule regression_branch)
  then show ?thesis using f_le_lt_trans[OF inc] by blast
qed

text \<open>C3: A batch on a parent that is in the tree and is not a goal is committed successfully whenever the
  rules are valid and the 32-bit counters it may touch have room for it: the visits of every
  node, the depth, child count and duplicate streak of the parent, and the cell counts. No error
  and no panic of the code is reachable then.\<close>

theorem commit_batch_succeeds:
  assumes "commit_inv s" "validate_rules rules = Ok ()" "\<forall>ch \<in> set chs. score_ok (np_score (sc_payload ch))"
    "headroom s p (length chs)"
  shows "\<exists>out s'. commit_batch s p chs rules = (Ok out, s')"
  using commit_batch_total[OF assms] .

section \<open>A concrete batch\<close>

lemma frontier_with_root_eq: "frontier_with_root = Ok \<lparr>fr_entries = [ROOT], fr_index = [(ROOT, 0)]\<rparr>"
  by (simp add: frontier_with_root_def frontier_insert_def frontier_new_def hm_contains_def hm_insert_def)

lemma commit_from_root_eq:
  "commit_from_root pl = Ok \<lparr>cs_tree = \<lparr>records = [node_record_root pl], children_by_node = [[]]\<rparr>,
     cs_frontier = \<lparr>fr_entries = [ROOT], fr_index = [(ROOT, 0)]\<rparr>, cs_cell_mirror = \<lparr>cm_counts = [(np_cell pl, 1)]\<rparr>,
     cs_seen = \<lparr>sm_map = [(np_state_hash pl, ROOT)]\<rparr>, cs_streaks = [0]\<rparr>"
  by (simp add: commit_from_root_def cell_bump_def cell_bump_by_def cell_count_def cell_mirror_new_def checked_add_def
      hm_insert_def tree_from_root_eq frontier_with_root_eq seen_insert_def seen_map_new_def)

lemma commit_from_root_inv:
  assumes "score_ok (np_score pl)" "commit_from_root pl = Ok s"
  shows "commit_inv s"
proof -
  let ?t = "\<lparr>records = [node_record_root pl], children_by_node = [[]]\<rparr>"
  have wf: "wf_tree ?t" by (rule tree_from_root_wf[OF tree_from_root_eq assms(1)])
  have get: "tree_get ?t i = (if i = ROOT then Some (node_record_root pl) else None)" for i
    by (auto simp: tree_get_def index_of_def Let_def ROOT_def node_id.expand unat_eq_zero)
  have new: "nr_state_hash (node_record_root pl) = np_state_hash pl" "\<not> nr_exhausted (node_record_root pl)"
    by (simp_all add: node_record_root_def node_record_new_def)
  have "frontier_inv \<lparr>fr_entries = [ROOT], fr_index = [(ROOT, 0)]\<rparr>"
    by (auto simp: frontier_inv_def)
  moreover have "seen_agrees ?t \<lparr>sm_map = [(np_state_hash pl, ROOT)]\<rparr>"
    by (auto simp: seen_agrees_def seen_get_def hash_of_def get new split: if_splits)
  moreover have "live ?t = {ROOT}"
    by (auto simp: live_def get new split: if_splits)
  ultimately show ?thesis using wf assms(2)
    by (auto simp: commit_from_root_eq commit_inv_def core_inv_def cells_ok_def seen_ok_def split: if_splits)
qed

definition example_state :: commit_state where
  "example_state = \<lparr>cs_tree = example_root, cs_frontier = \<lparr>fr_entries = [ROOT], fr_index = [(ROOT, 0)]\<rparr>,
     cs_cell_mirror = \<lparr>cm_counts = [(CellKey 3, 1)]\<rparr>, cs_seen = \<lparr>sm_map = [(StateHash [9], ROOT)]\<rparr>, cs_streaks = [0]\<rparr>"

definition example_rules :: commit_rules where
  "example_rules = \<lparr>cr_prune_action = Exhausted, cr_epsilon_keep = f_zero, cr_max_visits_per_node = 5,
     cr_exhaust_after_dup_expansions = 1\<rparr>"

text \<open>A batch with a duplicate of the root and a batch with a kept goal.\<close>

definition example_dup :: scored_child where
  "example_dup = scored_child_duplicate (scored_child_new example_payload)"

definition example_goal :: scored_child where
  "example_goal = scored_child_goal (scored_child_new example_payload)"

lemma example_state_inv: "commit_inv example_state"
  by (rule commit_from_root_inv[OF example_score_ok])
    (simp add: commit_from_root_eq example_state_def example_root_def example_payload_def)

lemma example_rules_ok: "validate_rules example_rules = Ok ()"
  by (simp add: validate_rules_def example_rules_def f_zero_def is_finite_def mag_def inf_mag_def)

lemma example_scores: "\<forall>ch \<in> set [example_dup, example_goal]. score_ok (np_score (sc_payload ch))"
  using example_score_ok
  by (simp add: example_dup_def example_goal_def scored_child_new_def scored_child_duplicate_def scored_child_goal_def)

lemma example_get_root: "tree_get example_root i = (if i = ROOT then Some (node_record_root example_payload) else None)"
  by (auto simp: example_root_def tree_get_def index_of_def Let_def ROOT_def node_id.expand unat_eq_zero)

lemma example_headroom: "headroom example_state ROOT 2"
proof -
  have "visits_le example_root 0"
    by (auto simp: visits_le_def example_get_root node_record_root_def node_record_new_def split: if_splits)
  moreover have "parent_room example_root ROOT 2"
    by (simp add: parent_room_def example_get_root node_record_root_def node_record_new_def)
  moreover have "unat (cell_count (cs_cell_mirror example_state) k) + 2 < 2 ^ 32" for k
    by (simp add: cell_count_def example_state_def)
  moreover have "all_duplicate_streak example_state ROOT = Some 0" "length (records example_root) = 1"
    by (simp_all add: all_duplicate_streak_def example_state_def example_root_def ROOT_def)
  ultimately show ?thesis by (auto simp: headroom_def example_state_def intro: exI[of _ 0])
qed

lemma example_dup_child: "commit_child example_state ROOT ps example_dup example_rules
    = (Ok (child_commit_new (Discard Duplicate) None (Some ROOT)), example_state\<lparr>cs_cell_mirror := \<lparr>cm_counts = [(CellKey 3, 2)]\<rparr>\<rparr>)"
  by (simp add: commit_child_def example_dup_def scored_child_new_def scored_child_duplicate_def on_cells_def cell_bump_def
      cell_bump_by_def cell_count_def checked_add_def hm_insert_def seen_get_def example_payload_def example_state_def)

lemma example_visit: "increment_visits example_root ROOT
    = Ok (1, \<lparr>records = [(node_record_root example_payload)\<lparr>nr_visits := 1\<rparr>], children_by_node = [[]]\<rparr>)"
  by (simp add: increment_visits_def increment_visits_record_def update_record_def index_or_not_found_def index_of_def
      ROOT_def example_root_def node_record_root_def node_record_new_def checked_add_def Let_def)

lemma example_tree_of_state: "cs_tree example_state = example_root"
  by (simp add: example_state_def)

lemma example_evict: "\<exists>s'. update_parent_exhaustion
     (example_state\<lparr>cs_cell_mirror := m,
        cs_tree := \<lparr>records = [(node_record_root example_payload)\<lparr>nr_visits := 1\<rparr>], children_by_node = [[]]\<rparr>\<rparr>)
     ROOT 1 True example_rules = (Ok (Some AllDuplicateExpansions), s')"
  by (simp add: update_parent_exhaustion_def ensure_tracking_def example_state_def ROOT_def index_streak_def
      checked_add_def example_rules_def mark_exhausted_def mark_exhausted_record_def update_record_def
      index_or_not_found_def index_of_def node_record_root_def node_record_new_def on_defs frontier_contains_def
      hm_contains_def frontier_remove_def swap_remove_def hm_remove_def Let_def word_le_nat_alt)

lemma example_dup_commit: "\<exists>s'. commit_batch example_state ROOT [example_dup] example_rules
    = (Ok \<lparr>bo_parent = ROOT, bo_parent_visits = 1,
        bo_child_commits = [child_commit_new (Discard Duplicate) None (Some ROOT)],
        bo_parent_evicted = Some AllDuplicateExpansions, bo_goal_node = None\<rparr>, s')"
proof -
  obtain s' where s': "update_parent_exhaustion
     (example_state\<lparr>cs_cell_mirror := \<lparr>cm_counts = [(CellKey 3, 2)]\<rparr>,
        cs_tree := \<lparr>records = [(node_record_root example_payload)\<lparr>nr_visits := 1\<rparr>], children_by_node = [[]]\<rparr>\<rparr>)
     ROOT 1 True example_rules = (Ok (Some AllDuplicateExpansions), s')" using example_evict by blast
  show ?thesis
    using s' by (simp add: commit_batch_def example_rules_ok example_tree_of_state example_get_root example_dup_child
        example_visit on_tree_def child_commit_new_def Let_def)
qed

theorem commit_batch_preserves_inv_witness:
  "\<exists>r s'. commit_batch example_state ROOT [example_dup] example_rules = (r, s') \<and> commit_inv s'"
proof -
  obtain out s' where c: "commit_batch example_state ROOT [example_dup] example_rules = (Ok out, s')"
    using example_dup_commit by (metis eq_fst_iff)
  have "commit_inv s'"
    by (rule commit_batch_preserves_inv[OF example_state_inv _ _ c])
      (use example_scores in \<open>simp_all add: example_state_def example_root_def\<close>)
  then show ?thesis using c by blast
qed

theorem commit_batch_outcome_witness:
  "\<exists>out s'. commit_batch example_state ROOT [example_dup] example_rules = (Ok out, s')
     \<and> unat (cell_count (cs_cell_mirror s') (CellKey 3)) = 2 \<and> length (records (cs_tree s')) = 1
     \<and> frontier_ids (cs_frontier s') = {}"
proof -
  obtain out s' where c: "commit_batch example_state ROOT [example_dup] example_rules = (Ok out, s')"
    and o: "bo_child_commits out = [child_commit_new (Discard Duplicate) None (Some ROOT)]"
      "bo_parent_evicted out = Some AllDuplicateExpansions" using example_dup_commit by auto
  have pre: "length (records (cs_tree example_state)) + length [example_dup] < 2 ^ 64"
    "\<forall>ch \<in> set [example_dup]. score_ok (np_score (sc_payload ch))"
    using example_scores by (simp_all add: example_state_def example_root_def)
  note t = commit_batch_outcome[OF example_state_inv pre c, unfolded o]
  have "unat (cell_count (cs_cell_mirror s') (CellKey 3)) = 2"
    using t by (simp add: counted_in_def counted_def child_commit_new_def example_dup_def scored_child_new_def
        scored_child_duplicate_def example_payload_def example_state_def cell_count_def)
  moreover have "1 < length (records (cs_tree s')) \<Longrightarrow> False" "length (records (cs_tree s')) \<noteq> 0"
    using t wf_treeD(1)[of "cs_tree s'"]
      commit_batch_stages[OF c _ example_state_inv pre]
    by (auto simp: List.map_filter_def child_commit_new_def example_state_def example_root_def commit_inv_def core_inv_def)
  moreover have "frontier_ids (cs_frontier s') = {}"
    using t by (auto simp: kept_ids_def child_commit_new_def example_state_def)
  ultimately show ?thesis using c by (metis less_one linorder_neqE_nat)
qed

lemma zero_add_eps: "\<not> f_lt (f_add f_one f_zero) f_one" "f_lt (f_add f_zero f_zero) f_one"
proof -
  have z: "mag f_zero = 0" "\<not> sign_bit f_zero" by (simp_all add: mag_def sign_bit_def f_zero_def)
  then show "\<not> f_lt (f_add f_one f_zero) f_one" using f_add_zero[of f_one f_zero] by (simp add: mag_f_one)
  have "f_add f_zero f_zero = f_zero"
    using z by (simp add: f_add_def is_nan_def is_inf_def fval_def inf_mag_def f64_eq_iff)
  then show "f_lt (f_add f_zero f_zero) f_one"
    using z mag_f_one by (simp add: f_lt_def is_nan_def skey_def inf_mag_def)
qed

lemma example_goal_child:
  "\<exists>s1. commit_child example_state ROOT f_one example_goal example_rules = (Ok (child_commit_new Keep (Some (NodeId 1)) None), s1)"
proof -
  have ins: "insert_child (cs_tree example_state) ROOT (sc_payload example_goal) = Ok (NodeId 1, example_tree)"
    using example_insert by (simp add: example_state_def example_goal_def scored_child_new_def scored_child_goal_def)
  have bump: "cell_bump (cs_cell_mirror example_state) (np_cell (sc_payload example_goal))
      = (Ok (2, \<lparr>cm_counts = [(CellKey 3, 2)]\<rparr>) :: (commit_error, u32 \<times> cell_mirror) res)"
    by (simp add: cell_bump_def cell_bump_by_def cell_count_def checked_add_def hm_insert_def example_state_def
        example_goal_def scored_child_new_def scored_child_goal_def example_payload_def)
  show ?thesis
    by (rule commit_child_keep[OF example_state_inv _ _ _ ins bump])
      (use zero_add_eps(1) in \<open>auto simp: example_goal_def scored_child_new_def scored_child_goal_def example_rules_def
        example_payload_def score_get_def\<close>)
qed

theorem commit_batch_goal_node_witness:
  "\<exists>out s'. commit_batch example_state ROOT [example_goal, example_dup] example_rules = (Ok out, s')
     \<and> bo_goal_node out = Some (NodeId 1)"
proof -
  have sc: "\<forall>ch \<in> set [example_goal, example_dup]. score_ok (np_score (sc_payload ch))" using example_scores by simp
  have hr: "headroom example_state ROOT (length [example_goal, example_dup])"
    using example_headroom by (simp add: numeral_2_eq_2)
  obtain out s' where c: "commit_batch example_state ROOT [example_goal, example_dup] example_rules = (Ok out, s')"
    using commit_batch_total[OF example_state_inv example_rules_ok sc hr] by blast
  obtain s1 where g: "commit_child example_state ROOT f_one example_goal example_rules
      = (Ok (child_commit_new Keep (Some (NodeId 1)) None), s1)" using example_goal_child by blast
  have ps: "score_get (nr_score (node_record_root example_payload)) = f_one"
    by (simp add: node_record_root_def node_record_new_def example_payload_def score_get_def)
  have "\<exists>cc. bo_child_commits out = [child_commit_new Keep (Some (NodeId 1)) None, cc]"
    using c by (auto simp: commit_batch_def bind_st_Ok Let_def example_tree_of_state example_get_root ps g)
  moreover have "length (records (cs_tree example_state)) + length [example_goal, example_dup] < 2 ^ 64"
    by (simp add: example_state_def example_root_def)
  note commit_batch_goal_node[OF example_state_inv this sc c]
  ultimately show ?thesis using c
    by (auto simp: child_commit_new_def example_goal_def scored_child_goal_def)
qed

definition example_worse :: scored_child where
  "example_worse = scored_child_new (example_payload\<lparr>np_score := Score (FiniteF64 f_zero)\<rparr>)"

theorem regression_is_worse_witness:
  "fst (commit_child example_state ROOT f_one example_worse example_rules)
     = Ok (child_commit_new (Discard Regression) None None)
   \<and> f_lt (score_get (np_score (sc_payload example_worse))) f_one"
proof -
  have run: "commit_child example_state ROOT (score_get (Score (FiniteF64 f_one))) example_worse example_rules
      = (Ok (child_commit_new (Discard Regression) None None), example_state)"
    using zero_add_eps(2) by (simp add: commit_child_def example_worse_def scored_child_new_def example_rules_def
        score_get_def example_state_def cell_count_def example_payload_def)
  have ok: "score_ok (np_score (sc_payload example_worse))" "score_ok (Score (FiniteF64 f_one))"
    by (simp_all add: example_worse_def scored_child_new_def score_ok_def finite_ok_def mag_f_one f_zero_def
        is_finite_def mag_def sign_bit_def inf_mag_def f_one_def)
  from regression_is_worse[OF example_rules_ok ok run] run show ?thesis
    by (simp add: child_commit_new_def score_get_def)
qed

theorem commit_batch_eviction_witness:
  "\<exists>out s'. commit_batch example_state ROOT [example_dup] example_rules = (Ok out, s')
     \<and> bo_parent_evicted out = Some AllDuplicateExpansions \<and> ROOT \<notin> frontier_ids (cs_frontier s')"
proof -
  obtain out s' where c: "commit_batch example_state ROOT [example_dup] example_rules = (Ok out, s')"
    and ev: "bo_parent_evicted out = Some AllDuplicateExpansions" using example_dup_commit by (cases "commit_batch example_state ROOT [example_dup] example_rules") auto
  have "length (records (cs_tree example_state)) + length [example_dup] < 2 ^ 64"
    "\<forall>ch \<in> set [example_dup]. score_ok (np_score (sc_payload ch))"
    using example_scores by (simp_all add: example_state_def example_root_def)
  from commit_batch_eviction[OF example_state_inv this c] ev show ?thesis using c by auto
qed

theorem commit_batch_succeeds_witness:
  "\<exists>out s'. commit_batch example_state ROOT [example_dup, example_goal] example_rules = (Ok out, s')"
  by (rule commit_batch_succeeds[OF example_state_inv example_rules_ok example_scores]) (use example_headroom in \<open>simp add: numeral_2_eq_2\<close>)

end
