(* ===== verification/Plateau.thy ===== *)
theory Plateau
  imports Types
begin

text \<open>
  Stall detection and the escalation ladder (\<open>crates/orch-core/src/plateau.rs\<close>). A detector
  counts the observations since the last improvement in windows; the ladder turns completed
  windows into an escalation level that only an improvement resets.
\<close>

section \<open>Knobs and levels\<close>

datatype escalation_level = L0 | L1 | L2 | L3 | L4

fun level_get :: "escalation_level \<Rightarrow> u32" where
  "level_get L0 = 0"
| "level_get L1 = 1"
| "level_get L2 = 2"
| "level_get L3 = 3"
| "level_get L4 = 4"

definition from_capped_u32 :: "u32 \<Rightarrow> escalation_level" where
  "from_capped_u32 v = (if v = 0 then L0 else if v = 1 then L1 else if v = 2 then L2
     else if v = 3 then L3 else L4)"

definition level_includes :: "escalation_level \<Rightarrow> escalation_level \<Rightarrow> bool" where
  "level_includes a b \<longleftrightarrow> level_get b \<le> level_get a"

instantiation escalation_level :: linorder
begin

definition less_eq_escalation_level :: "escalation_level \<Rightarrow> escalation_level \<Rightarrow> bool" where
  "a \<le> b \<longleftrightarrow> level_get a \<le> level_get b"

definition less_escalation_level :: "escalation_level \<Rightarrow> escalation_level \<Rightarrow> bool" where
  "a < b \<longleftrightarrow> level_get a < level_get b"

instance
proof
  fix a b :: escalation_level
  show "a \<le> b \<Longrightarrow> b \<le> a \<Longrightarrow> a = b"
    by (cases a; cases b) (simp_all add: less_eq_escalation_level_def word_le_nat_alt)
qed (auto simp: less_eq_escalation_level_def less_escalation_level_def)

end

record escalation_knobs =
  ek_burst_len_factor :: f64
  ek_temp_factor :: f64
  ek_macro_weight_hot :: f64
  ek_backtrack_kappa :: f64
  ek_backtrack_depth_quantile :: f64
  ek_radius_factor :: f64
  ek_max_level :: escalation_level

record plateau_knobs =
  pk_window_n :: u32
  pk_epsilon_s :: f64
  pk_ladder :: escalation_knobs

definition from_ladder_config :: "ladder_config \<Rightarrow> escalation_knobs" where
  "from_ladder_config c = \<lparr>ek_burst_len_factor = burst_len_factor c, ek_temp_factor = temp_factor c,
     ek_macro_weight_hot = macro_weight_hot c, ek_backtrack_kappa = backtrack_kappa c,
     ek_backtrack_depth_quantile = backtrack_depth_quantile c, ek_radius_factor = radius_factor c,
     ek_max_level = from_capped_u32 (max_level c)\<rparr>"

definition from_plateau_config :: "plateau_config \<Rightarrow> plateau_knobs" where
  "from_plateau_config c = \<lparr>pk_window_n = window_n c, pk_epsilon_s = epsilon_s c,
     pk_ladder = from_ladder_config (ladder c)\<rparr>"

definition plateau_knobs_from_config :: "experiment_config \<Rightarrow> plateau_knobs" where
  "plateau_knobs_from_config c = from_plateau_config (plateau c)"

section \<open>The stall detector\<close>

record stall_observation =
  so_observation_index :: u64
  so_score :: score
  so_best_score :: score
  so_improved :: bool
  so_observations_since_improvement :: u64
  so_completed_stall_windows :: u64
  so_stalled :: bool
  so_completed_new_window :: bool

record stall_detector =
  sd_window_n :: u32
  sd_epsilon_s :: f64
  sd_observations :: u64
  sd_best_score :: "score option"
  sd_observations_since_improvement :: u64
  sd_completed_stall_windows :: u64

definition stall_detector_new :: "u32 \<Rightarrow> f64 \<Rightarrow> stall_detector" where
  "stall_detector_new w e = \<lparr>sd_window_n = w, sd_epsilon_s = e, sd_observations = 0, sd_best_score = None,
     sd_observations_since_improvement = 0, sd_completed_stall_windows = 0\<rparr>"

definition stall_detector_from_knobs :: "plateau_knobs \<Rightarrow> stall_detector" where
  "stall_detector_from_knobs k = stall_detector_new (pk_window_n k) (pk_epsilon_s k)"

definition stall_reset :: "stall_detector \<Rightarrow> stall_detector" where
  "stall_reset d = d\<lparr>sd_observations := 0, sd_best_score := None,
     sd_observations_since_improvement := 0, sd_completed_stall_windows := 0\<rparr>"

definition stall_restore :: "plateau_knobs \<Rightarrow> u64 \<Rightarrow> score option \<Rightarrow> u64 \<Rightarrow> u64 \<Rightarrow> stall_detector" where
  "stall_restore k obs best since windows = \<lparr>sd_window_n = pk_window_n k, sd_epsilon_s = pk_epsilon_s k,
     sd_observations = obs, sd_best_score = best, sd_observations_since_improvement = since,
     sd_completed_stall_windows = windows\<rparr>"

text \<open>The counters after one observation; \<open>True\<close> marks an improvement.\<close>

definition observe_counters :: "stall_detector \<Rightarrow> score \<Rightarrow> bool \<times> stall_detector" where
  "observe_counters d s = (case sd_best_score d of
       Some b \<Rightarrow>
         if f_lt (f_add (score_get b) (sd_epsilon_s d)) (score_get s)
         then (True, d\<lparr>sd_best_score := Some s, sd_observations_since_improvement := 0,
                       sd_completed_stall_windows := 0\<rparr>)
         else let since = saturating_add (sd_observations_since_improvement d) 1 in
              (False, d\<lparr>sd_observations_since_improvement := since,
                        sd_completed_stall_windows :=
                          (if sd_window_n d = 0 then 0 else since div ucast (sd_window_n d))\<rparr>)
     | None \<Rightarrow> (True, d\<lparr>sd_best_score := Some s\<rparr>))"

definition observe :: "stall_detector \<Rightarrow> score \<Rightarrow> (unit, stall_observation \<times> stall_detector) res" where
  "observe d s =
     (let d = d\<lparr>sd_observations := saturating_add (sd_observations d) 1\<rparr>;
          observation_index = sd_observations d - 1;
          (improved, d) = observe_counters d s;
          since = sd_observations_since_improvement d;
          completed_new_window = (\<not> improved \<and> 0 < sd_window_n d \<and> 0 < since
             \<and> since mod ucast (sd_window_n d) = 0)
      in bind_res (expect (sd_best_score d) ''best score is set after observe'') (\<lambda>best.
           Ok (\<lparr>so_observation_index = observation_index, so_score = s, so_best_score = best,
                so_improved = improved, so_observations_since_improvement = since,
                so_completed_stall_windows = sd_completed_stall_windows d,
                so_stalled = (0 < sd_completed_stall_windows d),
                so_completed_new_window = completed_new_window\<rparr>, d)))"

section \<open>The ladder\<close>

record backtrack_knobs =
  bk_kappa :: f64
  bk_depth_quantile :: f64

record l3_override =
  l3_macro_weight_hot :: f64
  l3_backtrack :: backtrack_knobs

record l4_rebin =
  l4_feature_map_version :: u32
  l4_radius_factor :: f64

record escalation_snapshot =
  es_level :: escalation_level
  es_burst_len_factor :: f64
  es_temp_factor :: f64
  es_l3_override :: "l3_override option"
  es_l4_rebin :: "l4_rebin option"

record escalation_ladder =
  la_knobs :: escalation_knobs
  la_level :: escalation_level
  la_feature_map_version :: u32

definition ladder_new :: "escalation_knobs \<Rightarrow> escalation_ladder" where
  "ladder_new k = \<lparr>la_knobs = k, la_level = L0, la_feature_map_version = 0\<rparr>"

definition ladder_from_knobs :: "plateau_knobs \<Rightarrow> escalation_ladder" where
  "ladder_from_knobs k = ladder_new (pk_ladder k)"

definition ladder_restore :: "escalation_knobs \<Rightarrow> escalation_level \<Rightarrow> u32 \<Rightarrow> escalation_ladder" where
  "ladder_restore k l v = \<lparr>la_knobs = k, la_level = l, la_feature_map_version = v\<rparr>"

definition ladder_snapshot :: "escalation_ladder \<Rightarrow> escalation_snapshot" where
  "ladder_snapshot l =
     \<lparr>es_level = la_level l,
      es_burst_len_factor = (if level_includes (la_level l) L1 then ek_burst_len_factor (la_knobs l) else f_one),
      es_temp_factor = (if level_includes (la_level l) L2 then ek_temp_factor (la_knobs l) else f_one),
      es_l3_override = (if level_includes (la_level l) L3
        then Some \<lparr>l3_macro_weight_hot = ek_macro_weight_hot (la_knobs l),
                   l3_backtrack = \<lparr>bk_kappa = ek_backtrack_kappa (la_knobs l),
                                   bk_depth_quantile = ek_backtrack_depth_quantile (la_knobs l)\<rparr>\<rparr>
        else None),
      es_l4_rebin = (if level_includes (la_level l) L4
        then Some \<lparr>l4_feature_map_version = la_feature_map_version l,
                   l4_radius_factor = ek_radius_factor (la_knobs l)\<rparr>
        else None)\<rparr>"

definition reset_for_improvement :: "escalation_ladder \<Rightarrow> escalation_ladder" where
  "reset_for_improvement l = l\<lparr>la_level := L0\<rparr>"

definition set_level :: "escalation_ladder \<Rightarrow> escalation_level \<Rightarrow> escalation_ladder" where
  "set_level l requested =
     (let next = max (la_level l) (min requested (ek_max_level (la_knobs l)));
          l = (if la_level l < L4 \<and> L4 \<le> next
               then l\<lparr>la_feature_map_version := saturating_add (la_feature_map_version l) 1\<rparr> else l)
      in l\<lparr>la_level := next\<rparr>)"

text \<open>The narrowing of the capped count cannot fail: it is at most the top level.\<close>

definition set_completed_stall_windows :: "escalation_ladder \<Rightarrow> u64 \<Rightarrow> escalation_snapshot \<times> escalation_ladder" where
  "set_completed_stall_windows l windows =
     (let capped = min windows (ucast (level_get (ek_max_level (la_knobs l))));
          level = from_capped_u32 (if unat capped < 2 ^ 32 then ucast capped else - 1);
          l = set_level l level
      in (ladder_snapshot l, l))"

definition advance_one_stall_window :: "escalation_ladder \<Rightarrow> escalation_snapshot \<times> escalation_ladder" where
  "advance_one_stall_window l =
     (let l = set_level l (from_capped_u32 (saturating_add (level_get (la_level l)) 1))
      in (ladder_snapshot l, l))"

definition apply_stall_observation ::
  "escalation_ladder \<Rightarrow> stall_observation \<Rightarrow> escalation_snapshot \<times> escalation_ladder" where
  "apply_stall_observation l ob =
     (let l = (if so_improved ob then reset_for_improvement l
               else if so_completed_new_window ob
               then snd (set_completed_stall_windows l (so_completed_stall_windows ob))
               else l)
      in (ladder_snapshot l, l))"

section \<open>Facts on the detector\<close>

lemma observe_eq:
  "observe d s = (let d' = snd (observe_counters (d\<lparr>sd_observations := saturating_add (sd_observations d) 1\<rparr>) s);
       improved = fst (observe_counters (d\<lparr>sd_observations := saturating_add (sd_observations d) 1\<rparr>) s)
     in Ok (\<lparr>so_observation_index = saturating_add (sd_observations d) 1 - 1, so_score = s,
          so_best_score = the (sd_best_score d'), so_improved = improved,
          so_observations_since_improvement = sd_observations_since_improvement d',
          so_completed_stall_windows = sd_completed_stall_windows d',
          so_stalled = (0 < sd_completed_stall_windows d'),
          so_completed_new_window = (\<not> improved \<and> 0 < sd_window_n d' \<and> 0 < sd_observations_since_improvement d'
             \<and> sd_observations_since_improvement d' mod ucast (sd_window_n d') = 0)\<rparr>, d'))"
  by (auto simp: observe_def observe_counters_def Let_def split: option.splits)

definition improves :: "stall_detector \<Rightarrow> score \<Rightarrow> bool" where
  "improves d s \<longleftrightarrow> (case sd_best_score d of None \<Rightarrow> True
     | Some b \<Rightarrow> f_lt (f_add (score_get b) (sd_epsilon_s d)) (score_get s))"

lemma unat_saturating_Suc: "unat (x::u64) + 1 < 2 ^ 64 \<Longrightarrow> unat (saturating_add x 1) = unat x + 1"
  by (simp add: unat_saturating_add)

lemma observe_improves:
  assumes "observe d s = Ok (ob, d')" "improves d s"
  shows "so_improved ob" "sd_best_score d' = Some s" "so_best_score ob = s" "sd_window_n d' = sd_window_n d"
    "sd_epsilon_s d' = sd_epsilon_s d" "\<not> so_completed_new_window ob"
    "sd_best_score d \<noteq> None \<Longrightarrow> sd_observations_since_improvement d' = 0 \<and> sd_completed_stall_windows d' = 0"
    "sd_best_score d = None \<Longrightarrow> sd_observations_since_improvement d' = sd_observations_since_improvement d
       \<and> sd_completed_stall_windows d' = sd_completed_stall_windows d"
  using assms by (auto simp: observe_eq observe_counters_def improves_def Let_def split: option.splits if_splits)

lemma observe_stalls:
  assumes "observe d s = Ok (ob, d')" "\<not> improves d s" "unat (sd_observations_since_improvement d) + 1 < 2 ^ 64"
    "sd_window_n d \<noteq> 0"
  shows "\<not> so_improved ob" "sd_best_score d' = sd_best_score d" "sd_window_n d' = sd_window_n d"
    "sd_epsilon_s d' = sd_epsilon_s d"
    "unat (sd_observations_since_improvement d') = unat (sd_observations_since_improvement d) + 1"
    "unat (sd_completed_stall_windows d') = unat (sd_observations_since_improvement d') div unat (sd_window_n d)"
    "so_completed_stall_windows ob = sd_completed_stall_windows d'"
    "so_completed_new_window ob \<longleftrightarrow> unat (sd_window_n d) dvd unat (sd_observations_since_improvement d')"
proof -
  obtain b where b: "sd_best_score d = Some b" "\<not> f_lt (f_add (score_get b) (sd_epsilon_s d)) (score_get s)"
    using assms(2) by (auto simp: improves_def split: option.splits)
  let ?since = "saturating_add (sd_observations_since_improvement d) 1"
  have since: "unat ?since = unat (sd_observations_since_improvement d) + 1"
    by (rule unat_saturating_Suc[OF assms(3)])
  have pos: "0 < ?since" using since by (simp add: word_less_nat_alt)
  let ?w = "ucast (sd_window_n d) :: u64"
  let ?ob = "\<lparr>so_observation_index = saturating_add (sd_observations d) 1 - 1, so_score = s, so_best_score = b,
      so_improved = False, so_observations_since_improvement = ?since, so_completed_stall_windows = ?since div ?w,
      so_stalled = (0 < ?since div ?w), so_completed_new_window = (?since mod ?w = 0)\<rparr>"
  let ?d = "d\<lparr>sd_observations := saturating_add (sd_observations d) 1,
      sd_observations_since_improvement := ?since, sd_completed_stall_windows := ?since div ?w\<rparr>"
  have "observe d s = Ok (?ob, ?d)"
    using assms(4) b pos by (simp add: observe_eq observe_counters_def Let_def word_gt_0)
  then have ob_eq: "ob = ?ob" and d': "d' = ?d" using assms(1) by simp_all
  have ob: "\<not> so_improved ob" "so_completed_stall_windows ob = ?since div ?w"
      "so_completed_new_window ob \<longleftrightarrow> ?since mod ?w = 0"
    unfolding ob_eq by (rule stall_observation.select_convs | simp only: stall_observation.select_convs not_False_eq_True)+
  show "\<not> so_improved ob" by (rule ob(1))
  show "so_completed_stall_windows ob = sd_completed_stall_windows d'" by (simp add: d' ob(2))
  show "unat (sd_observations_since_improvement d') = unat (sd_observations_since_improvement d) + 1"
    by (simp add: d' since)
  show "unat (sd_completed_stall_windows d') = unat (sd_observations_since_improvement d') div unat (sd_window_n d)"
    by (simp add: d' unat_div)
  have "unat (?since mod ?w) = unat ?since mod unat (sd_window_n d)"
    by (simp only: unat_mod unat_ucast_u32_u64)
  then have "?since mod ?w = 0 \<longleftrightarrow> unat ?since mod unat (sd_window_n d) = 0"
    by (simp only: unat_eq_zero[symmetric])
  then show "so_completed_new_window ob \<longleftrightarrow> unat (sd_window_n d) dvd unat (sd_observations_since_improvement d')"
    unfolding ob(3) by (simp add: d' dvd_eq_mod_eq_0)
qed (use assms(1,2) in \<open>auto simp: observe_eq observe_counters_def improves_def Let_def split: option.splits if_splits\<close>)

section \<open>Facts on the ladder\<close>

lemma level_get_le: "level_get l \<le> 4" "unat (level_get l) \<le> 4"
  by (cases l; simp)+

lemma from_capped_get [simp]: "from_capped_u32 (level_get l) = l"
  by (cases l) (simp_all add: from_capped_u32_def)

lemma unat_get_from_capped: "unat (level_get (from_capped_u32 v)) = min (unat v) 4"
proof (cases "v = 0 \<or> v = 1 \<or> v = 2 \<or> v = 3")
  case True
  then show ?thesis by (auto simp: from_capped_u32_def)
next
  case False
  then have "unat v \<noteq> 0" "unat v \<noteq> 1" "unat v \<noteq> 2" "unat v \<noteq> 3"
    by (metis unat_0 word_unat_eq_iff) (use False in \<open>auto simp: word_unat_eq_iff\<close>)
  then show ?thesis using False by (auto simp: from_capped_u32_def)
qed

lemma level_eq_iff: "a = b \<longleftrightarrow> unat (level_get a) = unat (level_get b)"
  by (cases a; cases b) simp_all

lemma level_less_iff: "a < b \<longleftrightarrow> unat (level_get a) < unat (level_get b)"
  "a \<le> b \<longleftrightarrow> unat (level_get a) \<le> unat (level_get b)"
  by (simp_all add: less_escalation_level_def less_eq_escalation_level_def word_less_nat_alt word_le_nat_alt)

lemma unat_get_max: "unat (level_get (max a b)) = max (unat (level_get a)) (unat (level_get b))"
  "unat (level_get (min a b)) = min (unat (level_get a)) (unat (level_get b))"
  by (auto simp: max_def min_def level_less_iff)

lemma set_completed_level:
  "unat (level_get (la_level (snd (set_completed_stall_windows l w))))
     = max (unat (level_get (la_level l))) (min (unat w) (unat (level_get (ek_max_level (la_knobs l)))))"
  "la_knobs (snd (set_completed_stall_windows l w)) = la_knobs l"
  "la_feature_map_version (snd (set_completed_stall_windows l w))
     = (if la_level l < L4 \<and> la_level (snd (set_completed_stall_windows l w)) = L4
        then saturating_add (la_feature_map_version l) 1 else la_feature_map_version l)"
proof -
  let ?m = "level_get (ek_max_level (la_knobs l))"
  let ?c = "min w (ucast ?m)"
  have c: "unat ?c = min (unat w) (unat ?m)" by (simp add: min_def word_le_nat_alt)
  have c4: "unat ?c \<le> 4" using c level_get_le(2)[of "ek_max_level (la_knobs l)"] by simp
  have u: "unat (ucast ?c :: u32) = unat ?c"
    using c4 by (intro unat_ucast_u64_u32) simp
  have set: "la_level (snd (set_completed_stall_windows l w))
      = max (la_level l) (min (from_capped_u32 (ucast ?c)) (ek_max_level (la_knobs l)))"
    using c4 by (simp add: set_completed_stall_windows_def set_level_def Let_def)
  show "unat (level_get (la_level (snd (set_completed_stall_windows l w))))
     = max (unat (level_get (la_level l))) (min (unat w) (unat ?m))"
    unfolding set unat_get_max unat_get_from_capped u c using level_get_le(2)[of "ek_max_level (la_knobs l)"] by simp
  have top: "L4 \<le> x \<longleftrightarrow> x = L4" for x by (cases x) (simp_all add: level_less_iff)
  show "la_knobs (snd (set_completed_stall_windows l w)) = la_knobs l"
    "la_feature_map_version (snd (set_completed_stall_windows l w))
     = (if la_level l < L4 \<and> la_level (snd (set_completed_stall_windows l w)) = L4
        then saturating_add (la_feature_map_version l) 1 else la_feature_map_version l)"
    by (simp_all add: set_completed_stall_windows_def set_level_def Let_def top)
qed

section \<open>Runs of observations\<close>

text \<open>The two components as they are driven: each score is observed and the observation applied.\<close>

fun plateau_run :: "stall_detector \<times> escalation_ladder \<Rightarrow> score list \<Rightarrow> (unit, stall_detector \<times> escalation_ladder) res" where
  "plateau_run dl [] = Ok dl"
| "plateau_run (d, l) (s # ss) =
     bind_res (observe d s) (\<lambda>(ob, d'). plateau_run (d', snd (apply_stall_observation l ob)) ss)"

lemma observe_total: "\<exists>ob d'. observe d s = Ok (ob, d')"
  by (simp add: observe_eq Let_def)

text \<open>Where a detector and a ladder are \<open>n\<close> observations after the last improvement.\<close>

definition stalled_for :: "nat \<Rightarrow> u32 \<Rightarrow> score \<Rightarrow> f64 \<Rightarrow> escalation_knobs \<Rightarrow> u32 \<Rightarrow> stall_detector \<times> escalation_ladder \<Rightarrow> bool" where
  "stalled_for n w b e k v = (\<lambda>(d, l). sd_window_n d = w \<and> sd_epsilon_s d = e \<and> sd_best_score d = Some b
     \<and> unat (sd_observations_since_improvement d) = n \<and> unat (sd_completed_stall_windows d) = n div unat w
     \<and> la_knobs l = k \<and> unat (level_get (la_level l)) = min (n div unat w) (unat (level_get (ek_max_level k)))
     \<and> la_feature_map_version l = (if la_level l = L4 then saturating_add v 1 else v))"

lemma max_min_absorb: "a \<le> b \<Longrightarrow> max (min a m) (min b m) = min b (m :: nat)"
  by (simp add: max_def min_def)

lemma stalled_step:
  assumes st: "stalled_for n w b e k v (d, l)" and n: "n + 1 < 2 ^ 64" and w: "w \<noteq> 0"
    and s: "\<not> f_lt (f_add (score_get b) e) (score_get s)" and ob: "observe d s = Ok (ob, d')"
  shows "stalled_for (n + 1) w b e k v (d', snd (apply_stall_observation l ob))"
proof -
  have im: "\<not> improves d s" using st s by (simp add: stalled_for_def improves_def)
  have d: "unat (sd_observations_since_improvement d) + 1 < 2 ^ 64" "sd_window_n d \<noteq> 0"
    using st n w by (auto simp: stalled_for_def)
  note o = observe_stalls[OF ob im d]
  let ?l = "snd (apply_stall_observation l ob)"
  let ?m = "unat (level_get (ek_max_level k))"
  have wpos: "0 < unat w" using w by (simp add: unat_gt_0)
  have lev: "unat (level_get (la_level l)) = min (n div unat w) ?m" "la_knobs l = k"
    and ver: "la_feature_map_version l = (if la_level l = L4 then saturating_add v 1 else v)"
    using st by (auto simp: stalled_for_def)
  have lt4: "x < L4 \<longleftrightarrow> x \<noteq> L4" for x by (cases x) (simp_all add: level_less_iff)
  have "unat (level_get (la_level ?l)) = min ((n + 1) div unat w) ?m \<and> la_knobs ?l = k
      \<and> la_feature_map_version ?l = (if la_level ?l = L4 then saturating_add v 1 else v)"
  proof (cases "so_completed_new_window ob")
    case True
    then have l': "?l = snd (set_completed_stall_windows l (sd_completed_stall_windows d'))"
      using o by (simp add: apply_stall_observation_def Let_def)
    have win: "unat (sd_completed_stall_windows d') = (n + 1) div unat w"
      using o st by (simp add: stalled_for_def)
    have mono: "n div unat w \<le> (n + 1) div unat w" by (simp add: div_le_mono)
    have "unat (level_get (la_level ?l)) = min ((n + 1) div unat w) ?m"
      unfolding l' set_completed_level(1) win lev by (rule max_min_absorb[OF mono])
    moreover have "la_level l = L4 \<Longrightarrow> la_level ?l = L4"
      unfolding l' level_eq_iff set_completed_level(1) using level_get_le(2)[of "ek_max_level (la_knobs l)"] by simp
    ultimately show ?thesis using ver lev unfolding l' set_completed_level lt4 by auto
  next
    case False
    then have l': "?l = l" using o by (simp add: apply_stall_observation_def Let_def)
    have "\<not> unat w dvd n + 1" using False o st by (simp add: stalled_for_def)
    then have "(n + 1) div unat w = n div unat w" by (simp add: div_Suc dvd_eq_mod_eq_0)
    then show ?thesis using lev ver l' by simp
  qed
  then show ?thesis using o st by (simp add: stalled_for_def)
qed

lemma stalled_run:
  assumes "stalled_for n w b e k v dl" "n + length ss < 2 ^ 64" "w \<noteq> 0"
    "\<forall>s \<in> set ss. \<not> f_lt (f_add (score_get b) e) (score_get s)"
  shows "\<exists>dl'. plateau_run dl ss = Ok dl' \<and> stalled_for (n + length ss) w b e k v dl'"
  using assms
proof (induction ss arbitrary: n dl)
  case (Cons s ss)
  obtain d l where dl: "dl = (d, l)" by force
  obtain ob d' where ob: "observe d s = Ok (ob, d')" using observe_total by blast
  have "stalled_for (n + 1) w b e k v (d', snd (apply_stall_observation l ob))"
    using Cons.prems ob by (intro stalled_step[of n w b e k v d l s]) (auto simp: dl)
  from Cons.IH[OF this] Cons.prems show ?case using ob by (simp add: dl)
qed auto

section \<open>Properties\<close>

text \<open>C20: From an improvement on, the ladder follows the stall: after any number \<open>n\<close> of further
  observations none of which beats the best score by more than \<open>epsilon_s\<close>, the detector has
  completed \<open>n div window_n\<close> windows, keeps the best score, and the level is that number of
  windows capped at \<open>max_level\<close>. The feature-map version is one above its value at the start
  exactly when the level has reached L4, and unchanged below it.\<close>

theorem ladder_follows_stall:
  assumes "sd_best_score d = Some b" "sd_observations_since_improvement d = 0" "sd_completed_stall_windows d = 0"
    and "sd_window_n d \<noteq> 0" "la_level l = L0" "length ss < 2 ^ 64"
    and "\<forall>s \<in> set ss. \<not> f_lt (f_add (score_get b) (sd_epsilon_s d)) (score_get s)"
  shows "\<exists>d' l'. plateau_run (d, l) ss = Ok (d', l') \<and> sd_best_score d' = Some b
    \<and> unat (sd_completed_stall_windows d') = length ss div unat (sd_window_n d)
    \<and> unat (level_get (la_level l'))
        = min (length ss div unat (sd_window_n d)) (unat (level_get (ek_max_level (la_knobs l))))
    \<and> la_feature_map_version l'
        = (if la_level l' = L4 then saturating_add (la_feature_map_version l) 1 else la_feature_map_version l)"
proof -
  have "stalled_for 0 (sd_window_n d) b (sd_epsilon_s d) (la_knobs l) (la_feature_map_version l) (d, l)"
    using assms by (simp add: stalled_for_def)
  from stalled_run[OF this, of ss] assms(4,6,7)
  obtain d' l' where "plateau_run (d, l) ss = Ok (d', l')"
    "stalled_for (length ss) (sd_window_n d) b (sd_epsilon_s d) (la_knobs l) (la_feature_map_version l) (d', l')"
    by auto
  then show ?thesis by (intro exI[of _ d'] exI[of _ l']) (simp add: stalled_for_def)
qed

text \<open>C27: One observation either improves or stalls. With a finite non-negative threshold and valid
  scores, an improvement strictly raises the best score, clears the counters and resets the
  ladder to L0 without touching the feature-map version; otherwise the best score is kept and
  the level does not fall. The best score never decreases.\<close>

theorem observe_best_monotone:
  assumes "sd_best_score d = Some b" "score_ok b" "score_ok s"
    "is_finite (sd_epsilon_s d)" "f_le f_zero (sd_epsilon_s d)"
  shows "\<exists>ob d'. observe d s = Ok (ob, d') \<and> sd_best_score d' = Some (so_best_score ob)
    \<and> f_le (score_get b) (score_get (so_best_score ob))
    \<and> (if so_improved ob
       then so_best_score ob = s \<and> f_lt (score_get b) (score_get s)
         \<and> sd_observations_since_improvement d' = 0 \<and> sd_completed_stall_windows d' = 0
         \<and> la_level (snd (apply_stall_observation l ob)) = L0
         \<and> la_feature_map_version (snd (apply_stall_observation l ob)) = la_feature_map_version l
       else so_best_score ob = b \<and> la_level l \<le> la_level (snd (apply_stall_observation l ob)))"
proof -
  obtain ob d' where ob: "observe d s = Ok (ob, d')" using observe_total by blast
  have eps: "0 \<le> skey (sd_epsilon_s d)" using assms(5) by (simp add: f_le_def f_zero_def skey_def mag_def split: if_splits)
  have inc: "f_le (score_get b) (f_add (score_get b) (sd_epsilon_s d))"
    using assms(2,4) eps by (intro f_add_increasing) auto
  show ?thesis
  proof (cases "improves d s")
    case True
    note o = observe_improves[OF ob True]
    have lt: "f_lt (score_get b) (score_get s)"
      using True assms(1) inc by (auto simp: improves_def intro: f_le_lt_trans)
    then have "f_le (score_get b) (score_get s)" by (auto simp: f_lt_def f_le_def)
    then show ?thesis using o ob lt assms(1)
      by (intro exI[of _ ob] exI[of _ d']) (simp add: apply_stall_observation_def reset_for_improvement_def Let_def)
  next
    case False
    then have "\<not> so_improved ob" "so_best_score ob = b" "sd_best_score d' = Some b"
      using ob assms(1) by (auto simp: observe_eq observe_counters_def improves_def Let_def)
    moreover have "f_le (score_get b) (score_get b)" using assms(2) by (simp add: f_le_def)
    moreover have "la_level l \<le> la_level (snd (set_completed_stall_windows l w))" for w
      by (simp add: level_less_iff set_completed_level)
    ultimately show ?thesis using ob
      by (intro exI[of _ ob] exI[of _ d']) (simp add: apply_stall_observation_def Let_def)
  qed
qed

definition example_detector :: stall_detector where
  "example_detector = (stall_detector_new 2 f_zero)\<lparr>sd_best_score := Some (Score (FiniteF64 f_one))\<rparr>"

definition example_ladder :: escalation_ladder where
  "example_ladder = ladder_new (from_ladder_config ladder_config_default)"

lemma example_no_improvement: "\<not> f_lt (f_add f_one f_zero) f_one"
proof -
  have "mag f_zero = 0" by (simp add: mag_def f_zero_def)
  then show ?thesis using f_add_zero[of f_one f_zero] by (simp add: mag_f_one)
qed

theorem ladder_follows_stall_witness:
  "\<exists>d' l'. plateau_run (example_detector, example_ladder) (replicate 9 (Score (FiniteF64 f_one))) = Ok (d', l')
     \<and> unat (sd_completed_stall_windows d') = 4 \<and> unat (level_get (la_level l')) = 4
     \<and> la_feature_map_version l' = 1"
proof -
  have m: "ek_max_level (la_knobs example_ladder) = L4" "la_feature_map_version example_ladder = 0"
    by (simp_all add: example_ladder_def ladder_new_def from_ladder_config_def ladder_config_default_def
        from_capped_u32_def)
  have s: "saturating_add (0::u32) 1 = 1" by (simp add: saturating_add_def)
  have d: "sd_window_n example_detector = 2" by (simp add: example_detector_def stall_detector_new_def)
  have "\<exists>d' l'. plateau_run (example_detector, example_ladder) (replicate 9 (Score (FiniteF64 f_one))) = Ok (d', l')
     \<and> sd_best_score d' = Some (Score (FiniteF64 f_one))
    \<and> unat (sd_completed_stall_windows d') = length (replicate 9 (Score (FiniteF64 f_one))) div unat (sd_window_n example_detector)
    \<and> unat (level_get (la_level l')) = min (length (replicate 9 (Score (FiniteF64 f_one))) div unat (sd_window_n example_detector))
         (unat (level_get (ek_max_level (la_knobs example_ladder))))
    \<and> la_feature_map_version l' = (if la_level l' = L4 then saturating_add (la_feature_map_version example_ladder) 1
         else la_feature_map_version example_ladder)"
    using example_no_improvement
    by (intro ladder_follows_stall)
      (auto simp: example_detector_def stall_detector_new_def example_ladder_def ladder_new_def score_get_def)
  then show ?thesis by (auto simp: m d s level_eq_iff)
qed

theorem observe_best_monotone_witness:
  "\<exists>ob d'. observe example_detector (Score (FiniteF64 f_one)) = Ok (ob, d')
     \<and> sd_best_score d' = Some (Score (FiniteF64 f_one))"
proof -
  have one: "score_ok (Score (FiniteF64 f_one))"
    using f_one_finite by (simp add: score_ok_def finite_ok_def mag_f_one)
  have z: "is_finite f_zero" "f_le f_zero f_zero"
    by (simp_all add: is_finite_def f_le_def is_nan_def f_zero_def mag_def inf_mag_def)
  have "sd_best_score example_detector = Some (Score (FiniteF64 f_one))" "sd_epsilon_s example_detector = f_zero"
    by (simp_all add: example_detector_def stall_detector_new_def)
  from observe_best_monotone[OF this(1) one one, unfolded this(2), OF z, of example_ladder] show ?thesis
    by (auto split: if_splits)
qed

end
