(* ===== verification/Rng.thy ===== *)
theory Rng
  imports Float64
begin

text \<open>
  The deterministic random substreams (\<open>crates/orch-core/src/rng.rs\<close>). The block cipher
  generator and the hash are external crates: the hash is the parameter \<open>blake3\<close>, a function of
  the bytes fed to the hasher, and the generator is the parameter \<open>G\<close>, its three entry points
  as a record over an arbitrary state type.
\<close>

unbundle bit_operations_syntax

section \<open>Streams\<close>

definition STREAM_SEED_LEN :: nat where "STREAM_SEED_LEN = 32"

datatype rng_purpose = Selection | Synth | Misc | Boot | Entropy

definition ascii :: "string \<Rightarrow> u8 list" where
  "ascii s = map of_char s"

fun purpose_tag :: "rng_purpose \<Rightarrow> u8 list" where
  "purpose_tag Selection = ascii ''selection''"
| "purpose_tag Synth = ascii ''synth''"
| "purpose_tag Misc = ascii ''misc''"
| "purpose_tag Boot = ascii ''boot''"
| "purpose_tag Entropy = ascii ''entropy''"

record stream_spec =
  ss_seed :: u64
  ss_purpose :: rng_purpose
  ss_batch_seq :: u64

definition stream_spec_new :: "u64 \<Rightarrow> rng_purpose \<Rightarrow> u64 \<Rightarrow> stream_spec" where
  "stream_spec_new seed purpose batch_seq =
     \<lparr>ss_seed = seed, ss_purpose = purpose, ss_batch_seq = batch_seq\<rparr>"

text \<open>The entry points of the external generator.\<close>

record 'g generator =
  gen_from_seed :: "u8 list \<Rightarrow> 'g"
  gen_next_u32 :: "'g \<Rightarrow> u32 \<times> 'g"
  gen_next_u64 :: "'g \<Rightarrow> u64 \<times> 'g"

record 'g det_rng =
  dr_spec :: stream_spec
  dr_inner :: 'g
  dr_draws :: u64

text \<open>The three \<open>update\<close> calls feed the concatenation of their arguments to the hash.\<close>

definition stream_preimage :: "u64 \<Rightarrow> rng_purpose \<Rightarrow> u64 \<Rightarrow> u8 list" where
  "stream_preimage seed purpose batch_seq = to_le_bytes seed @ purpose_tag purpose @ to_le_bytes batch_seq"

definition derive_stream_seed :: "(u8 list \<Rightarrow> u8 list) \<Rightarrow> u64 \<Rightarrow> rng_purpose \<Rightarrow> u64 \<Rightarrow> u8 list" where
  "derive_stream_seed blake3 seed purpose batch_seq = blake3 (stream_preimage seed purpose batch_seq)"

definition rng_from_spec :: "(u8 list \<Rightarrow> u8 list) \<Rightarrow> 'g generator \<Rightarrow> stream_spec \<Rightarrow> 'g det_rng" where
  "rng_from_spec blake3 G spec =
     \<lparr>dr_spec = spec,
      dr_inner = gen_from_seed G (derive_stream_seed blake3 (ss_seed spec) (ss_purpose spec) (ss_batch_seq spec)),
      dr_draws = 0\<rparr>"

definition rng_new ::
  "(u8 list \<Rightarrow> u8 list) \<Rightarrow> 'g generator \<Rightarrow> u64 \<Rightarrow> rng_purpose \<Rightarrow> u64 \<Rightarrow> 'g det_rng" where
  "rng_new blake3 G seed purpose batch_seq = rng_from_spec blake3 G (stream_spec_new seed purpose batch_seq)"

definition rng_selection :: "(u8 list \<Rightarrow> u8 list) \<Rightarrow> 'g generator \<Rightarrow> u64 \<Rightarrow> u64 \<Rightarrow> 'g det_rng" where
  "rng_selection blake3 G seed batch_seq = rng_new blake3 G seed Selection batch_seq"

definition rng_synth :: "(u8 list \<Rightarrow> u8 list) \<Rightarrow> 'g generator \<Rightarrow> u64 \<Rightarrow> u64 \<Rightarrow> 'g det_rng" where
  "rng_synth blake3 G seed batch_seq = rng_new blake3 G seed Synth batch_seq"

definition rng_misc :: "(u8 list \<Rightarrow> u8 list) \<Rightarrow> 'g generator \<Rightarrow> u64 \<Rightarrow> u64 \<Rightarrow> 'g det_rng" where
  "rng_misc blake3 G seed batch_seq = rng_new blake3 G seed Misc batch_seq"

section \<open>Draws\<close>

definition bump_draws :: "'g det_rng \<Rightarrow> ('e, 'g det_rng) res" where
  "bump_draws r =
     bind_res (expect (checked_add (dr_draws r) 1) ''deterministic rng draw count overflowed'')
       (\<lambda>n. Ok (r\<lparr>dr_draws := n\<rparr>))"

definition rng_next_u32 :: "'g generator \<Rightarrow> 'g det_rng \<Rightarrow> ('e, u32 \<times> 'g det_rng) res" where
  "rng_next_u32 G r = (let (value, inner) = gen_next_u32 G (dr_inner r)
     in bind_res (bump_draws (r\<lparr>dr_inner := inner\<rparr>)) (\<lambda>r. Ok (value, r)))"

definition rng_next_u64 :: "'g generator \<Rightarrow> 'g det_rng \<Rightarrow> ('e, u64 \<times> 'g det_rng) res" where
  "rng_next_u64 G r = (let (value, inner) = gen_next_u64 G (dr_inner r)
     in bind_res (bump_draws (r\<lparr>dr_inner := inner\<rparr>)) (\<lambda>r. Ok (value, r)))"

definition UNIT_SCALE :: f64 where
  "UNIT_SCALE = f_div f_one (f64_of_nat (2 ^ 53))"

definition next_unit_f64 :: "'g generator \<Rightarrow> 'g det_rng \<Rightarrow> ('e, f64 \<times> 'g det_rng) res" where
  "next_unit_f64 G r = bind_res (rng_next_u64 G r) (\<lambda>(v, r).
     let bits = drop_bit 11 v in Ok (f_mul (f64_of_nat (unat bits)) UNIT_SCALE, r))"

section \<open>Derived seeds\<close>

definition derive_synth_request_seed ::
  "(u8 list \<Rightarrow> u8 list) \<Rightarrow> 'g generator \<Rightarrow> u64 \<Rightarrow> u64 \<Rightarrow> ('e, u64) res" where
  "derive_synth_request_seed blake3 G experiment_seed batch_seq =
     bind_res (rng_next_u64 G (rng_synth blake3 G experiment_seed batch_seq)) (\<lambda>(v, _). Ok v)"

definition derive_boot_entropy_seed :: "(u8 list \<Rightarrow> u8 list) \<Rightarrow> u64 \<Rightarrow> u8 list" where
  "derive_boot_entropy_seed blake3 experiment_seed = derive_stream_seed blake3 experiment_seed Boot 0"

definition derive_job_entropy_seed :: "(u8 list \<Rightarrow> u8 list) \<Rightarrow> u64 \<Rightarrow> u64 \<Rightarrow> u32 \<Rightarrow> u8 list" where
  "derive_job_entropy_seed blake3 experiment_seed batch_seq job_idx =
     blake3 (derive_stream_seed blake3 experiment_seed Entropy batch_seq @ to_le_bytes job_idx)"

section \<open>Facts\<close>

lemma purpose_tag_inject: "purpose_tag p = purpose_tag q \<longleftrightarrow> p = q"
  by (cases p; cases q) (simp_all add: ascii_def of_char_def)

lemma stream_preimage_inject:
  "stream_preimage s p b = stream_preimage s' p' b' \<longleftrightarrow> s = s' \<and> p = p' \<and> b = b'"
proof
  assume eq: "stream_preimage s p b = stream_preimage s' p' b'"
  then have s: "to_le_bytes s = to_le_bytes s'"
    and rest: "purpose_tag p @ to_le_bytes b = purpose_tag p' @ to_le_bytes b'"
    by (auto simp: stream_preimage_def)
  have "length (purpose_tag p) = length (purpose_tag p')"
    using arg_cong[OF rest, of length] by simp
  with rest have "purpose_tag p = purpose_tag p'" "to_le_bytes b = to_le_bytes b'" by auto
  with s show "s = s' \<and> p = p' \<and> b = b'" by (simp add: purpose_tag_inject to_le_bytes_inject)
qed simp

lemma bump_draws_Ok:
  "bump_draws r = Ok r' \<longleftrightarrow> unat (dr_draws r) + 1 < 2 ^ 64 \<and> r' = r\<lparr>dr_draws := dr_draws r + 1\<rparr>"
  by (auto simp: bump_draws_def res_simps checked_simps)

lemma rng_next_u64_Ok:
  assumes "rng_next_u64 G r = Ok (v, r')"
  shows "v = fst (gen_next_u64 G (dr_inner r))" "dr_inner r' = snd (gen_next_u64 G (dr_inner r))"
    "dr_spec r' = dr_spec r" "unat (dr_draws r') = unat (dr_draws r) + 1"
  using assms by (auto simp: rng_next_u64_def Let_def res_simps bump_draws_Ok unat_add_no_overflow split: prod.splits)

lemma rng_next_u64_total:
  "unat (dr_draws r) + 1 < 2 ^ 64 \<Longrightarrow> rng_next_u64 G r = Ok (fst (gen_next_u64 G (dr_inner r)),
     r\<lparr>dr_inner := snd (gen_next_u64 G (dr_inner r)), dr_draws := dr_draws r + 1\<rparr>)"
  by (simp add: rng_next_u64_def bump_draws_def checked_add_def split: prod.splits)

section \<open>The unit interval\<close>

lemma round_mag_cancel:
  assumes "0 < d" shows "round_mag (q * d) d = round_mag q 1"
  using assms by (intro antisym round_mag_mono) simp_all

lemma scaled_top: "scaled (Suc e * 2 ^ 52 + (2 ^ 52 - 1)) = (2 ^ 53 - 1) * 2 ^ e"
  using scaled_cases(2)[of "2 ^ 52 - 1" e] by simp

lemma mag_of_nat_power: "mag (f64_of_nat (2 ^ 53)) = Suc 1075 * 2 ^ 52" "\<not> sign_bit (f64_of_nat (2 ^ 53))"
proof -
  have "(2::nat) ^ 53 * 2 ^ 1074 = 2 ^ (52 + 1075)" by (simp only: power_add[symmetric]) simp
  also have "\<dots> = scaled (Suc 1075 * 2 ^ 52)" by (rule scaled_power[symmetric])
  finally have "round_mag (2 ^ 53 * 2 ^ 1074) 1 = Suc 1075 * 2 ^ 52" by (simp only: round_mag_scaled)
  then have "int (mag (f64_of_nat (2 ^ 53))) = int (min inf_mag (Suc 1075 * 2 ^ 52))"
    using f64_of_nat_props(1,2)[of "2 ^ 53"] by (simp only: skey_def if_False)
  then show "mag (f64_of_nat (2 ^ 53)) = Suc 1075 * 2 ^ 52" by (simp add: inf_mag_def)
qed (rule f64_of_nat_props)

lemma unit_scale: "scaled (mag UNIT_SCALE) = 2 ^ 1021" "\<not> sign_bit UNIT_SCALE" "is_finite UNIT_SCALE"
proof -
  let ?y = "f64_of_nat (2 ^ 53)"
  have fin: "is_finite ?y" by (rule f64_of_nat_bound(2)) simp
  have pos: "0 < skey ?y" using mag_of_nat_power by (simp add: skey_def)
  have e: "(1074::nat) + 1074 = 52 + 969 + (52 + 1075)" "(52::nat) + 969 = 1021" by simp_all
  have "scaled (mag f_one) * 2 ^ 1074 = 2 ^ (52 + 969) * 2 ^ (52 + 1075)"
    unfolding mag_f_one scaled_one power_add[symmetric] e(1) ..
  then have "round_mag (scaled (mag f_one) * 2 ^ 1074) (scaled (mag ?y)) = round_mag (2 ^ (52 + 969)) 1"
    unfolding mag_of_nat_power(1) scaled_power
    using round_mag_cancel[of "2 ^ (52 + 1075)" "2 ^ (52 + 969)"] by (simp only: zero_less_power pos2)
  also have "\<dots> = Suc 969 * 2 ^ 52" unfolding scaled_power[symmetric] by (rule round_mag_scaled)
  finally have q: "f_div f_one ?y = mk_f64 False (min inf_mag (Suc 969 * 2 ^ 52))"
    using fin pos mag_of_nat_power mag_f_one by (simp only: f_div_def Let_def round_f64_def) auto
  have lt: "min inf_mag (Suc 969 * 2 ^ 52) = Suc 969 * 2 ^ 52" "Suc 969 * 2 ^ 52 < (2::nat) ^ 63"
    "Suc 969 * 2 ^ 52 < inf_mag" by (simp_all add: inf_mag_def)
  have m: "mag UNIT_SCALE = Suc 969 * 2 ^ 52"
    unfolding UNIT_SCALE_def q lt(1) by (rule mag_mk[OF lt(2)])
  show "scaled (mag UNIT_SCALE) = 2 ^ 1021" unfolding m scaled_power e(2) ..
  show "\<not> sign_bit UNIT_SCALE" unfolding UNIT_SCALE_def q lt(1) sign_mk[OF lt(2)] by simp
  show "is_finite UNIT_SCALE" unfolding is_finite_def m by (rule lt(3))
qed

lemma unit_draw_less_one:
  assumes "n < 2 ^ 53"
  shows "is_finite (f_mul (f64_of_nat n) UNIT_SCALE)" "0 \<le> skey (f_mul (f64_of_nat n) UNIT_SCALE)"
    "skey (f_mul (f64_of_nat n) UNIT_SCALE) < skey f_one"
proof -
  let ?x = "f64_of_nat n"
  define g where "g = Suc 1021 * 2 ^ 52 + (2 ^ 52 - 1)"
  define h where "h = Suc 1074 * 2 ^ 52 + (2 ^ 52 - 1)"
  have n: "n \<le> 2 ^ 53 - 1" using assms by simp
  have "n * 2 ^ 1074 \<le> scaled h" unfolding h_def scaled_top by (rule mult_le_mono1[OF n])
  then have "round_mag (n * 2 ^ 1074) 1 \<le> round_mag (scaled h) 1" by (intro round_mag_mono) simp_all
  then have "mag ?x \<le> h"
    using f64_of_nat_props(1,2)[of n] unfolding round_mag_scaled by (simp add: skey_def)
  then have "scaled (mag ?x) \<le> (2 ^ 53 - 1) * 2 ^ 1074" unfolding scaled_top[symmetric] h_def by (simp add: scaled_le)
  then have "scaled (mag ?x) * 2 ^ 1021 \<le> (2 ^ 53 - 1) * 2 ^ 1074 * 2 ^ 1021" by (rule mult_le_mono1)
  then have "scaled (mag ?x) * scaled (mag UNIT_SCALE) * 1 \<le> scaled g * 2 ^ 1074"
    unfolding unit_scale g_def scaled_top mult_1_right by (simp only: ac_simps)
  then have "round_mag (scaled (mag ?x) * scaled (mag UNIT_SCALE)) (2 ^ 1074) \<le> round_mag (scaled g) 1"
    by (intro round_mag_mono) simp_all
  then have le: "round_mag (scaled (mag ?x) * scaled (mag UNIT_SCALE)) (2 ^ 1074) \<le> g"
    unfolding round_mag_scaled .
  have fin: "is_finite ?x" using assms by (intro f64_of_nat_bound) simp
  have mul: "f_mul ?x UNIT_SCALE
      = mk_f64 False (min inf_mag (round_mag (scaled (mag ?x) * scaled (mag UNIT_SCALE)) (2 ^ 1074)))"
    using fin unit_scale(2,3) f64_of_nat_props(2)[of n] by (simp only: f_mul_def Let_def round_f64_def) simp
  define k where "k = min inf_mag (round_mag (scaled (mag ?x) * scaled (mag UNIT_SCALE)) (2 ^ 1074))"
  have k: "k \<le> g" "k < 2 ^ 63" using le inf_mag_less unfolding k_def by linarith+
  have g: "g < mag f_one" "g < inf_mag" by (simp_all add: g_def mag_f_one inf_mag_def)
  have mk: "mag (f_mul ?x UNIT_SCALE) = k" "\<not> sign_bit (f_mul ?x UNIT_SCALE)"
    unfolding mul k_def[symmetric] using k(2) by simp_all
  show "is_finite (f_mul ?x UNIT_SCALE)" "0 \<le> skey (f_mul ?x UNIT_SCALE)"
    "skey (f_mul ?x UNIT_SCALE) < skey f_one"
    using mk k(1) g by (simp_all add: is_finite_def skey_def mag_f_one(2))
qed

section \<open>Properties\<close>

text \<open>The stream seeds separate the streams: if two streams with different experiment seed,
  purpose or batch number had the same derived seed, the two byte strings hashed for them would
  be a collision of the hash function.\<close>

theorem derive_stream_seed_separates:
  assumes "derive_stream_seed blake3 s p b = derive_stream_seed blake3 s' p' b'"
    "(s, p, b) \<noteq> (s', p', b')"
  shows "stream_preimage s p b \<noteq> stream_preimage s' p' b'
    \<and> blake3 (stream_preimage s p b) = blake3 (stream_preimage s' p' b')"
  using assms by (auto simp: derive_stream_seed_def stream_preimage_inject)

text \<open>C40: A unit draw consumes exactly one 64-bit word of the stream, counts one draw, and returns a
  finite double in the half-open interval [0, 1). It succeeds unless the draw counter is full.\<close>

theorem next_unit_f64_range:
  assumes "unat (dr_draws r) + 1 < 2 ^ 64"
  shows "\<exists>u r'. next_unit_f64 G r = Ok (u, r') \<and> f_le f_zero u \<and> f_lt u f_one
    \<and> unat (dr_draws r') = unat (dr_draws r) + 1
    \<and> dr_inner r' = snd (gen_next_u64 G (dr_inner r)) \<and> dr_spec r' = dr_spec r"
proof -
  let ?v = "fst (gen_next_u64 G (dr_inner r))"
  let ?r = "r\<lparr>dr_inner := snd (gen_next_u64 G (dr_inner r)), dr_draws := dr_draws r + 1\<rparr>"
  let ?u = "f_mul (f64_of_nat (unat (drop_bit 11 ?v))) UNIT_SCALE"
  have "unat ?v < 2 ^ LENGTH(64)" by (rule unsigned_less)
  then have "unat (drop_bit 11 ?v) < 2 ^ 53"
    by (subst unat_drop_bit_eq) (simp add: drop_bit_eq_div)
  note u = unit_draw_less_one[OF this]
  have "f_le f_zero ?u" "f_lt ?u f_one" using u by (simp_all add: f_le_def f_lt_def)
  moreover have "next_unit_f64 G r = Ok (?u, ?r)"
    by (simp add: next_unit_f64_def rng_next_u64_total[OF assms] Let_def)
  moreover have "unat (dr_draws ?r) = unat (dr_draws r) + 1" using assms by (simp add: unat_add_no_overflow)
  ultimately show ?thesis by (intro exI[of _ ?u] exI[of _ ?r]) simp
qed

text \<open>A counter as a concrete generator.\<close>

definition counter_generator :: "u64 generator" where
  "counter_generator = \<lparr>gen_from_seed = (\<lambda>_. 0), gen_next_u32 = (\<lambda>g. (ucast g, g + 1)),
     gen_next_u64 = (\<lambda>g. (g, g + 1))\<rparr>"

theorem derive_stream_seed_separates_witness:
  "stream_preimage 1 Misc 0 \<noteq> stream_preimage 1 Boot 0"
proof -
  have "derive_stream_seed (\<lambda>_. replicate 32 0) 1 Misc 0 = derive_stream_seed (\<lambda>_. replicate 32 0) 1 Boot 0"
    by (simp add: derive_stream_seed_def)
  from derive_stream_seed_separates[OF this] show ?thesis by simp
qed

theorem next_unit_f64_range_witness:
  "\<exists>u r'. next_unit_f64 counter_generator (rng_selection (\<lambda>_. replicate 32 0) counter_generator 5 1) = Ok (u, r')
     \<and> f_lt u f_one \<and> unat (dr_draws r') = 1"
proof -
  let ?r = "rng_selection (\<lambda>_. replicate 32 0) counter_generator 5 1"
  have d: "dr_draws ?r = 0" by (simp add: rng_selection_def rng_new_def rng_from_spec_def)
  then have "unat (dr_draws ?r) + 1 < 2 ^ 64" by simp
  from next_unit_f64_range[OF this, of counter_generator] d show ?thesis by auto
qed

end
