(* ===== verification/Policy.thy ===== *)
theory Policy
  imports Frontier_Set Mirror Plateau Rng
begin

text \<open>
  What the selection policies share (\<open>crates/orch-core/src/policy/mod.rs\<close>): their errors, the
  context they read, the scored candidate list with its priority terms, and the contract of the
  trait \<open>SelectionPolicy\<close> as the locale \<open>selection_policy\<close>. The elementary functions come from the
  crate \<open>libm\<close>: \<open>log\<close>, \<open>exp\<close> and \<open>sqrt\<close> are the fields of the parameter \<open>lm\<close>, and \<open>log_laws\<close>,
  \<open>exp_laws\<close> and \<open>sqrt_laws\<close> are what the totality results use of them: range and monotone bounds.
\<close>

declare map_of_eq_Some_iff [simp del]

section \<open>Errors\<close>

datatype policy_error =
    PolicyFrontier frontier_error
  | EmptyCandidateSet
  | PolicyInvalidConfig string
  | PolicyInvalidWeight string f64
  | PolicyNonFiniteValue string f64

definition ensure_finite :: "string \<Rightarrow> f64 \<Rightarrow> (policy_error, unit) res" where
  "ensure_finite field value = (if is_finite value then Ok () else Err (PolicyNonFiniteValue field value))"

definition ensure_non_negative_weight :: "string \<Rightarrow> f64 \<Rightarrow> (policy_error, unit) res" where
  "ensure_non_negative_weight field value =
     (if \<not> is_finite value \<or> f_lt value f_zero then Err (PolicyInvalidWeight field value) else Ok ())"

definition validate_selection_weights :: "selection_config \<Rightarrow> (policy_error, unit) res" where
  "validate_selection_weights s =
     bind_res (for_res (\<lambda>(field, value). ensure_non_negative_weight field value)
       [(''selection.alpha'', alpha s), (''selection.beta'', beta s), (''selection.gamma'', gamma s),
        (''selection.delta'', delta s), (''selection.ucb_c'', ucb_c s)]) (\<lambda>_.
     if \<not> is_finite (temperature s) \<or> f_le (temperature s) f_zero
     then Err (PolicyInvalidWeight ''selection.temperature'' (temperature s))
     else if \<not> is_finite (epsilon_regress (staged s))
       \<or> \<not> (f_le f_zero (epsilon_regress (staged s)) \<and> f_le (epsilon_regress (staged s)) f_one)
     then Err (PolicyInvalidWeight ''selection.staged.epsilon_regress'' (epsilon_regress (staged s)))
     else if max_visits_per_node s = 0
     then Err (PolicyInvalidConfig ''selection.max_visits_per_node'')
     else if exhaust_after_dup_expansions s = 0
     then Err (PolicyInvalidConfig ''selection.exhaust_after_dup_expansions'')
     else if sel_policy s = Staged \<and> inner (staged s) = Staged
     then Err (PolicyInvalidConfig ''selection.staged.inner'')
     else Ok ())"

section \<open>Context and choices\<close>

record policy_context =
  pc_tree :: tree
  pc_frontier :: frontier
  pc_mirror :: cell_mirror
  pc_plateau :: plateau_knobs
  pc_selection :: selection_config
  pc_backtrack :: "backtrack_knobs option"

definition policy_context_new ::
  "tree \<Rightarrow> frontier \<Rightarrow> cell_mirror \<Rightarrow> plateau_knobs \<Rightarrow> selection_config \<Rightarrow> policy_context" where
  "policy_context_new t f m p s = \<lparr>pc_tree = t, pc_frontier = f, pc_mirror = m, pc_plateau = p,
     pc_selection = s, pc_backtrack = None\<rparr>"

definition with_backtrack :: "policy_context \<Rightarrow> backtrack_knobs option \<Rightarrow> policy_context" where
  "with_backtrack c b = c\<lparr>pc_backtrack := b\<rparr>"

record selection_choice =
  sc_selected :: node_id
  sc_candidate_index :: nat

section \<open>Priority terms\<close>

text \<open>The functions of \<open>libm\<close> the policies call.\<close>

record libm =
  lm_log :: "f64 \<Rightarrow> f64"
  lm_exp :: "f64 \<Rightarrow> f64"
  lm_sqrt :: "f64 \<Rightarrow> f64"

record priority_terms =
  pt_normalized_score :: f64
  pt_novelty :: f64
  pt_visit_penalty :: f64
  pt_depth_penalty :: f64

definition priority_terms_new :: "f64 \<Rightarrow> f64 \<Rightarrow> f64 \<Rightarrow> f64 \<Rightarrow> priority_terms" where
  "priority_terms_new n v p d = \<lparr>pt_normalized_score = n, pt_novelty = v, pt_visit_penalty = p,
     pt_depth_penalty = d\<rparr>"

text \<open>The sum \<open>alpha * score + beta * novelty - gamma * visits - delta * depth\<close>, left to right.\<close>

definition priority_sum :: "selection_config \<Rightarrow> priority_terms \<Rightarrow> f64" where
  "priority_sum s p =
     f_sub (f_sub (f_add (f_mul (alpha s) (pt_normalized_score p)) (f_mul (beta s) (pt_novelty p)))
       (f_mul (gamma s) (pt_visit_penalty p))) (f_mul (delta s) (pt_depth_penalty p))"

definition weighted_priority :: "priority_terms \<Rightarrow> selection_config \<Rightarrow> (policy_error, f64) res" where
  "weighted_priority p s =
     bind_res (validate_selection_weights s) (\<lambda>_.
     bind_res (ensure_finite ''priority.normalized_score'' (pt_normalized_score p)) (\<lambda>_.
     bind_res (ensure_finite ''priority.novelty'' (pt_novelty p)) (\<lambda>_.
     bind_res (ensure_finite ''priority.visit_penalty'' (pt_visit_penalty p)) (\<lambda>_.
     bind_res (ensure_finite ''priority.depth_penalty'' (pt_depth_penalty p)) (\<lambda>_.
     let priority = priority_sum s p in
     bind_res (ensure_finite ''priority.weighted'' priority) (\<lambda>_. Ok priority))))))"

definition visit_penalty :: "libm \<Rightarrow> u32 \<Rightarrow> (policy_error, f64) res" where
  "visit_penalty lm visits =
     (let penalty = lm_log lm (f_add f_one (f64_of_nat (unat visits)))
      in bind_res (ensure_finite ''priority.visit_penalty'' penalty) (\<lambda>_. Ok penalty))"

definition depth_penalty :: "libm \<Rightarrow> u32 \<Rightarrow> (policy_error, f64) res" where
  "depth_penalty lm depth =
     (let penalty = lm_log lm (f_add f_one (f64_of_nat (unat depth)))
      in bind_res (ensure_finite ''priority.depth_penalty'' penalty) (\<lambda>_. Ok penalty))"

section \<open>Score normalisation\<close>

definition normalize_scores_with_scale :: "f64 list \<Rightarrow> f64 \<Rightarrow> f64 \<Rightarrow> (policy_error, f64 list) res" where
  "normalize_scores_with_scale scores mn mx =
     (let scale = f_max (f_abs mn) (f_abs mx) in
      bind_res (ensure_finite ''score.scale'' scale) (\<lambda>_.
      if f_eq scale f_zero then Ok (replicate (length scores) f_zero)
      else
        let scaled_min = f_div mn scale; scaled_max = f_div mx scale; span = f_sub scaled_max scaled_min in
        bind_res (ensure_finite ''score.span'' span) (\<lambda>_.
        if f_eq span f_zero then Ok (replicate (length scores) f_zero)
        else collect_res (\<lambda>score.
          let normalized = f_div (f_sub (f_div score scale) scaled_min) span in
          bind_res (ensure_finite ''score.normalized'' normalized) (\<lambda>_. Ok normalized)) scores)))"

text \<open>The loop that computes the least and the greatest score.\<close>

fun score_range :: "f64 list \<Rightarrow> f64 \<Rightarrow> f64 \<Rightarrow> (policy_error, f64 \<times> f64) res" where
  "score_range [] mn mx = Ok (mn, mx)"
| "score_range (score # scores) mn mx =
     bind_res (ensure_finite ''score'' score) (\<lambda>_. score_range scores (f_min mn score) (f_max mx score))"

definition normalize_scores :: "f64 list \<Rightarrow> (policy_error, f64 list) res" where
  "normalize_scores scores =
     (if scores = [] then Ok []
      else bind_res (score_range scores f_inf f_neg_inf) (\<lambda>(mn, mx).
        let span = f_sub mx mn in
        if f_eq span f_zero then Ok (replicate (length scores) f_zero)
        else if \<not> is_finite span then normalize_scores_with_scale scores mn mx
        else collect_res (\<lambda>score.
          let normalized = f_div (f_sub score mn) span in
          bind_res (ensure_finite ''score.normalized'' normalized) (\<lambda>_. Ok normalized)) scores))"

section \<open>Candidate snapshots\<close>

record candidate_snapshot =
  cs_id :: node_id
  cs_parent :: "node_id option"
  cs_depth :: u32
  cs_visits :: u32
  cs_children :: u32
  cs_cell :: cell_key
  cs_stage :: stage
  cs_raw_score :: f64
  cs_priority_terms :: priority_terms
  cs_priority :: f64

text \<open>\<open>expect\<close> on a lookup of a candidate.\<close>

definition candidate_record :: "tree \<Rightarrow> node_id \<Rightarrow> (policy_error, node_record) res" where
  "candidate_record t i = expect (tree_get t i) ''frontier candidates exist in tree''"

definition depth_cutoff :: "f64 \<Rightarrow> u32 list \<Rightarrow> (policy_error, u32) res" where
  "depth_cutoff depth_quantile depths =
     (let quantile = f_clamp depth_quantile f_zero f_one;
          rank = f_floor_usize (f_mul (f64_of_nat (length depths - 1)) quantile)
      in index_vec (sort depths) rank)"

fun backtrack_cutoff :: "policy_context \<Rightarrow> backtrack_knobs option \<Rightarrow> (policy_error, (f64 \<times> u32) option) res" where
  "backtrack_cutoff c None = Ok None"
| "backtrack_cutoff c (Some knobs) =
     (case deterministic_candidates (pc_frontier c) (pc_tree c) of
        Err _ \<Rightarrow> Panic ''candidates already validated''
      | Panic m \<Rightarrow> Panic m
      | Ok ids \<Rightarrow>
        bind_res (collect_res (\<lambda>i. bind_res (candidate_record (pc_tree c) i) (\<lambda>r. Ok (nr_depth r))) ids) (\<lambda>depths.
        bind_res (depth_cutoff (bk_depth_quantile knobs) depths) (\<lambda>d.
        Ok (Some (bk_kappa knobs, d)))))"

definition add_backtrack_bonus ::
  "(f64 \<times> u32) option \<Rightarrow> node_record \<Rightarrow> f64 \<Rightarrow> f64 \<Rightarrow> (policy_error, f64) res" where
  "add_backtrack_bonus cutoff r novelty priority =
     (case cutoff of
        Some (kappa, cutoff_depth) \<Rightarrow>
          if nr_depth r \<le> cutoff_depth then
            let priority = f_add priority (f_mul kappa novelty) in
            bind_res (ensure_finite ''priority.backtrack'' priority) (\<lambda>_. Ok priority)
          else Ok priority
      | None \<Rightarrow> Ok priority)"

definition candidate_snapshot_of ::
  "libm \<Rightarrow> policy_context \<Rightarrow> f64 list \<Rightarrow> f64 list \<Rightarrow> (f64 \<times> u32) option \<Rightarrow> nat \<times> node_id
     \<Rightarrow> (policy_error, candidate_snapshot) res" where
  "candidate_snapshot_of lm c raw_scores normalized_scores cutoff = (\<lambda>(index, i).
     bind_res (candidate_record (pc_tree c) i) (\<lambda>r.
     let novelty = cell_novelty (pc_mirror c) (nr_cell r) in
     bind_res (ensure_finite ''candidate.novelty'' novelty) (\<lambda>_.
     bind_res (index_vec normalized_scores index) (\<lambda>normalized.
     bind_res (visit_penalty lm (nr_visits r)) (\<lambda>vp.
     bind_res (depth_penalty lm (nr_depth r)) (\<lambda>dp.
     let terms = priority_terms_new normalized novelty vp dp in
     bind_res (weighted_priority terms (pc_selection c)) (\<lambda>priority.
     bind_res (add_backtrack_bonus cutoff r novelty priority) (\<lambda>priority.
     bind_res (index_vec raw_scores index) (\<lambda>raw.
     Ok \<lparr>cs_id = i, cs_parent = nr_parent r, cs_depth = nr_depth r, cs_visits = nr_visits r,
         cs_children = nr_children r, cs_cell = nr_cell r, cs_stage = nr_stage r, cs_raw_score = raw,
         cs_priority_terms = terms, cs_priority = priority\<rparr>)))))))))"

definition candidate_snapshots :: "libm \<Rightarrow> policy_context \<Rightarrow> (policy_error, candidate_snapshot list) res" where
  "candidate_snapshots lm c =
     bind_res (validate_selection_weights (pc_selection c)) (\<lambda>_.
     bind_res (map_err PolicyFrontier (deterministic_candidates (pc_frontier c) (pc_tree c))) (\<lambda>ids.
     if ids = [] then Err EmptyCandidateSet
     else
       bind_res (collect_res (\<lambda>i. bind_res (candidate_record (pc_tree c) i) (\<lambda>r. Ok (score_get (nr_score r)))) ids)
         (\<lambda>raw_scores.
       bind_res (normalize_scores raw_scores) (\<lambda>normalized_scores.
       bind_res (backtrack_cutoff c (pc_backtrack c)) (\<lambda>cutoff.
       collect_res (candidate_snapshot_of lm c raw_scores normalized_scores cutoff) (enumerate 0 ids))))))"

section \<open>Normalised scores\<close>

lemma ensure_finite_eq [res_simps]:
  "ensure_finite field v = Ok u \<longleftrightarrow> is_finite v"
  "ensure_finite field v = Err e \<longleftrightarrow> \<not> is_finite v \<and> e = PolicyNonFiniteValue field v"
  "ensure_finite field v \<noteq> Panic m"
  by (auto simp: ensure_finite_def)

lemma score_range_Ok:
  assumes "\<forall>x \<in> set xs. is_finite x" "\<not> is_nan mn" "\<not> is_nan mx"
  shows "\<exists>a b. score_range xs mn mx = Ok (a, b) \<and> a \<in> insert mn (set xs) \<and> b \<in> insert mx (set xs)
    \<and> skey a \<le> skey mn \<and> skey mx \<le> skey b \<and> (\<forall>x \<in> set xs. skey a \<le> skey x \<and> skey x \<le> skey b)"
  using assms
proof (induction xs arbitrary: mn mx)
  case (Cons x xs)
  have x: "is_finite x" "\<not> is_nan x" using Cons.prems(1) by auto
  let ?mn = "f_min mn x" and ?mx = "f_max mx x"
  have m: "?mn \<in> {mn, x}" "?mx \<in> {mx, x}" "skey ?mn \<le> skey mn" "skey ?mn \<le> skey x"
    "skey mx \<le> skey ?mx" "skey x \<le> skey ?mx" "\<not> is_nan ?mn" "\<not> is_nan ?mx"
    using Cons.prems(2,3) x by (auto simp: f_min_def f_max_def f_lt_def)
  from Cons.IH[OF _ m(7,8)] Cons.prems(1) obtain a b where
    "score_range xs ?mn ?mx = Ok (a, b)" "a \<in> insert ?mn (set xs)" "b \<in> insert ?mx (set xs)"
    "skey a \<le> skey ?mn" "skey ?mx \<le> skey b" "\<forall>x \<in> set xs. skey a \<le> skey x \<and> skey x \<le> skey b" by auto
  moreover from this m have "skey a \<le> skey mn" "skey mx \<le> skey b" "skey a \<le> skey x" "skey x \<le> skey b"
    by linarith+
  moreover have "score_range (x # xs) mn mx = score_range xs ?mn ?mx" using x(1) by (simp add: ensure_finite_def)
  ultimately show ?case using m(1,2) by (intro exI[of _ a] exI[of _ b]) (simp, blast)
qed simp

lemma score_range_bounds:
  assumes "\<forall>x \<in> set xs. is_finite x" "xs \<noteq> []"
  obtains a b where "score_range xs f_inf f_neg_inf = Ok (a, b)" "a \<in> set xs" "b \<in> set xs"
    "\<And>x. x \<in> set xs \<Longrightarrow> skey a \<le> skey x \<and> skey x \<le> skey b"
proof -
  obtain a b where r: "score_range xs f_inf f_neg_inf = Ok (a, b)" "a \<in> insert f_inf (set xs)"
    "b \<in> insert f_neg_inf (set xs)" "\<forall>x \<in> set xs. skey a \<le> skey x \<and> skey x \<le> skey b"
    using score_range_Ok[OF assms(1) skey_inf(3,4)] by blast
  obtain x where x: "x \<in> set xs" "\<bar>skey x\<bar> < int inf_mag"
    using assms by (cases xs) (auto simp: is_finite_skey)
  then have "skey a < skey f_inf" "skey f_neg_inf < skey b" using r(4) by force+
  then have "a \<in> set xs" "b \<in> set xs" using r(2,3) by auto
  with r that show thesis by blast
qed

lemma score_range_Err:
  "score_range xs mn mx = Err e \<Longrightarrow> \<exists>x \<in> set xs. \<not> is_finite x \<and> e = PolicyNonFiniteValue ''score'' x"
  by (induction xs arbitrary: mn mx) (auto simp: res_simps)

text \<open>The result \<open>ns\<close> of a normalisation of \<open>xs\<close>: in the unit interval, in the order of \<open>xs\<close>.\<close>

definition unit_scaled :: "f64 list \<Rightarrow> f64 list \<Rightarrow> bool" where
  "unit_scaled xs ns \<longleftrightarrow> length ns = length xs
     \<and> (\<forall>i < length xs. f_le f_zero (ns ! i) \<and> f_le (ns ! i) f_one)
     \<and> (\<forall>i < length xs. \<forall>j < length xs. f_le (xs ! i) (xs ! j) \<longrightarrow> f_le (ns ! i) (ns ! j))"

lemma unit_scaled_zero: "unit_scaled xs (replicate (length xs) f_zero)"
  by (auto simp: unit_scaled_def f_le_def skey_def[of f_one] mag_f_one)

lemma unit_scaled_quotients:
  assumes "is_finite w" "0 < skey w"
    and h: "\<And>x. x \<in> set xs \<Longrightarrow> is_finite (h x) \<and> 0 \<le> skey (h x) \<and> skey (h x) \<le> skey w"
    and mono: "\<And>x y. x \<in> set xs \<Longrightarrow> y \<in> set xs \<Longrightarrow> skey x \<le> skey y \<Longrightarrow> skey (h x) \<le> skey (h y)"
  shows "\<exists>ns. collect_res (\<lambda>x. let n = f_div (h x) w in bind_res (ensure_finite field n) (\<lambda>_. Ok n)) xs = Ok ns
    \<and> unit_scaled xs ns"
proof -
  have fin: "is_finite (f_div (h x) w)" "0 \<le> skey (f_div (h x) w)"
    "skey (f_div (h x) w) \<le> skey f_one" if "x \<in> set xs" for x
    using f_div_unit[of "h x" w] h[OF that] assms(1,2) by auto
  have "collect_res (\<lambda>x. let n = f_div (h x) w in bind_res (ensure_finite field n) (\<lambda>_. Ok n)) xs
      = Ok (map (\<lambda>x. f_div (h x) w) xs)"
    unfolding collect_res_Ok_iff using fin(1) by (simp add: ensure_finite_def)
  moreover have "unit_scaled xs (map (\<lambda>x. f_div (h x) w) xs)"
    unfolding unit_scaled_def using fin h mono f_div_mono[OF _ _ assms(1,2)] by (simp add: f_le_def)
  ultimately show ?thesis by blast
qed

lemma normalize_with_scale_unit:
  assumes "\<forall>x \<in> set xs. is_finite x" "a \<in> set xs" "b \<in> set xs"
    and bounds: "\<And>x. x \<in> set xs \<Longrightarrow> skey a \<le> skey x \<and> skey x \<le> skey b"
  shows "\<exists>ns. normalize_scores_with_scale xs a b = Ok ns \<and> unit_scaled xs ns"
proof -
  define scale where "scale = f_max (f_abs a) (f_abs b)"
  have ab: "is_finite a" "is_finite b" using assms by auto
  have scale: "is_finite scale" "int (mag a) \<le> skey scale" "int (mag b) \<le> skey scale" "skey scale = int (mag scale)"
    using ab by (auto simp: scale_def f_max_def f_lt_def)
  show ?thesis
  proof (cases "skey scale = 0")
    case True
    then have "f_eq scale f_zero" using scale(1) by (simp add: f_eq_def)
    then show ?thesis using unit_scaled_zero[of xs] scale(1)
      by (simp add: normalize_scores_with_scale_def scale_def[symmetric] ensure_finite_def)
  next
    case False
    then have pos: "0 < skey scale" "\<not> f_eq scale f_zero" using scale by (auto simp: f_eq_def)
    have q: "is_finite (f_div x scale)" "\<bar>skey (f_div x scale)\<bar> \<le> skey f_one" if "x \<in> set xs" for x
    proof -
      have "mag x \<le> mag scale"
        using bounds[OF that] scale(2-4) by (auto simp: skey_def[of x] skey_def[of a] skey_def[of b] split: if_splits)
      then show "is_finite (f_div x scale)" "\<bar>skey (f_div x scale)\<bar> \<le> skey f_one"
        using f_div_le_one[OF _ scale(1) pos(1)] assms(1) that by auto
    qed
    have qm: "skey (f_div x scale) \<le> skey (f_div y scale)" if "x \<in> set xs" "y \<in> set xs" "skey x \<le> skey y" for x y
      using f_div_mono[OF _ _ scale(1) pos(1) that(3)] assms(1) that by auto
    let ?lo = "f_div a scale"
    define span where "span = f_sub (f_div b scale) ?lo"
    have span: "is_finite span" "0 \<le> skey span"
      unfolding span_def using q assms(2,3) qm[OF assms(2,3)] bounds[OF assms(2)]
      by (auto intro!: f_sub_unit_finite f_sub_nonneg)
    show ?thesis
    proof (cases "skey span = 0")
      case True
      then show ?thesis using unit_scaled_zero[of xs] scale(1) pos span(1)
        by (simp add: normalize_scores_with_scale_def scale_def[symmetric] span_def[symmetric]
            ensure_finite_def f_eq_def)
    next
      case False
      let ?h = "\<lambda>x. f_sub (f_div x scale) ?lo"
      have "is_finite (?h x) \<and> 0 \<le> skey (?h x) \<and> skey (?h x) \<le> skey span" if "x \<in> set xs" for x
        using q[OF that] q[OF assms(2)] qm[OF assms(2) that] qm[OF that assms(3)] bounds[OF that] q[OF assms(3)]
        unfolding span_def by (auto intro!: f_sub_unit_finite f_sub_nonneg f_sub_mono_left)
      moreover have "skey (?h x) \<le> skey (?h y)" if "x \<in> set xs" "y \<in> set xs" "skey x \<le> skey y" for x y
        using q[OF that(1)] q[OF that(2)] q[OF assms(2)] qm[OF that] by (intro f_sub_mono_left)
      ultimately have "\<exists>ns. collect_res (\<lambda>x. let n = f_div (?h x) span in
          bind_res (ensure_finite ''score.normalized'' n) (\<lambda>_. Ok n)) xs = Ok ns \<and> unit_scaled xs ns"
        using span False by (intro unit_scaled_quotients) auto
      then show ?thesis using scale(1) pos span False
        by (simp add: normalize_scores_with_scale_def scale_def[symmetric] span_def[symmetric]
            ensure_finite_def f_eq_def)
    qed
  qed
qed

lemma normalize_scores_Ok:
  assumes "\<forall>x \<in> set xs. is_finite x"
  shows "\<exists>ns. normalize_scores xs = Ok ns \<and> unit_scaled xs ns"
proof (cases "xs = []")
  case True
  then show ?thesis by (simp add: normalize_scores_def unit_scaled_def)
next
  case False
  obtain a b where r: "score_range xs f_inf f_neg_inf = Ok (a, b)" "a \<in> set xs" "b \<in> set xs"
    and bounds: "\<And>x. x \<in> set xs \<Longrightarrow> skey a \<le> skey x \<and> skey x \<le> skey b"
    using score_range_bounds[OF assms False] by blast
  have ab: "is_finite a" "is_finite b" using assms r by auto
  define span where "span = f_sub b a"
  have span: "0 \<le> skey span" "\<not> is_nan span"
    unfolding span_def using f_sub_nonneg[OF ab(2,1)] bounds[OF r(2)] f_sub_finite(1)[OF ab(2,1)] by auto
  note unf = normalize_scores_def r(1) span_def[symmetric] f_eq_def
  consider "skey span = 0" | "0 < skey span" "\<not> is_finite span" | "0 < skey span" "is_finite span"
    using span by linarith
  then show ?thesis
  proof cases
    case 1
    then show ?thesis using unit_scaled_zero[of xs] False span by (simp add: unf)
  next
    case 2
    then show ?thesis using normalize_with_scale_unit[OF assms r(2,3) bounds] False by (simp add: unf)
  next
    case 3
    let ?h = "\<lambda>x. f_sub x a"
    have "is_finite (?h x) \<and> 0 \<le> skey (?h x) \<and> skey (?h x) \<le> skey span" if "x \<in> set xs" for x
    proof -
      have x: "is_finite x" using assms that by auto
      have "0 \<le> skey (?h x)" "skey (?h x) \<le> skey span"
        unfolding span_def using x ab bounds[OF that] by (auto intro!: f_sub_nonneg f_sub_mono_left)
      moreover from this 3(2) have "is_finite (?h x)" unfolding is_finite_skey by linarith
      ultimately show ?thesis by simp
    qed
    moreover have "skey (?h x) \<le> skey (?h y)" if "x \<in> set xs" "y \<in> set xs" "skey x \<le> skey y" for x y
      using assms that ab by (intro f_sub_mono_left) auto
    ultimately have "\<exists>ns. collect_res (\<lambda>x. let n = f_div (?h x) span in
        bind_res (ensure_finite ''score.normalized'' n) (\<lambda>_. Ok n)) xs = Ok ns \<and> unit_scaled xs ns"
      using 3 by (intro unit_scaled_quotients) auto
    then show ?thesis using False 3 by (simp add: unf)
  qed
qed

section \<open>Candidates\<close>

text \<open>The ids a policy chooses from.\<close>

definition candidate_ids :: "policy_context \<Rightarrow> node_id list" where
  "candidate_ids c = sorted_list_of_set {i \<in> frontier_ids (pc_frontier c). candidate_in (pc_tree c) i}"

text \<open>A context the rest of the core hands out: the frontier is consistent and its nodes are known.\<close>

definition context_ok :: "policy_context \<Rightarrow> bool" where
  "context_ok c \<longleftrightarrow> wf_tree (pc_tree c) \<and> frontier_inv (pc_frontier c)
     \<and> (\<forall>i \<in> frontier_ids (pc_frontier c). tree_get (pc_tree c) i \<noteq> None)"

lemma context_candidates:
  assumes "context_ok c"
  shows "deterministic_candidates (pc_frontier c) (pc_tree c) = Ok (candidate_ids c)"
    "distinct (candidate_ids c)" "sorted (candidate_ids c)"
    "set (candidate_ids c) = {i \<in> frontier_ids (pc_frontier c). candidate_in (pc_tree c) i}"
  using assms deterministic_candidates_eq[of "pc_frontier c" "pc_tree c"]
  by (auto simp: context_ok_def candidate_ids_def)

definition record_of :: "policy_context \<Rightarrow> node_id \<Rightarrow> node_record" where
  "record_of c i = the (tree_get (pc_tree c) i)"

lemma candidate_record_Ok:
  assumes "context_ok c" "i \<in> set (candidate_ids c)"
  shows "tree_get (pc_tree c) i = Some (record_of c i)" "candidate_record (pc_tree c) i = Ok (record_of c i)"
    "is_finite (score_get (nr_score (record_of c i)))"
proof -
  obtain r where r: "tree_get (pc_tree c) i = Some r"
    using assms(2) context_candidates(4)[OF assms(1)] by (auto simp: candidate_in_def split: option.splits)
  then show "tree_get (pc_tree c) i = Some (record_of c i)" "candidate_record (pc_tree c) i = Ok (record_of c i)"
    by (simp_all add: record_of_def candidate_record_def)
  have "score_ok (nr_score r)" using tree_get_props[OF _ r] assms(1) by (simp add: context_ok_def)
  then show "is_finite (score_get (nr_score (record_of c i)))" using r by (simp add: record_of_def score_ok_finite)
qed

lemma collect_candidates:
  assumes "context_ok c"
  shows "collect_res (\<lambda>i. bind_res (candidate_record (pc_tree c) i) (\<lambda>r. Ok (f r))) (candidate_ids c)
    = Ok (map (\<lambda>i. f (record_of c i)) (candidate_ids c))"
  unfolding collect_res_Ok_iff using candidate_record_Ok(2)[OF assms] by simp

text \<open>The rank of the quantile is a valid index.\<close>

lemma clamp_unit:
  assumes "\<not> is_nan q"
  shows "is_finite (f_clamp q f_zero f_one)" "\<bar>skey (f_clamp q f_zero f_one)\<bar> \<le> skey f_one"
proof -
  have one: "0 < skey f_one" "skey f_one < int inf_mag" by (simp_all add: skey_def mag_f_one inf_mag_def)
  have "skey (f_clamp q f_zero f_one) = max 0 (min (skey q) (skey f_one))"
    using assms one by (auto simp: f_clamp_def f_lt_def Let_def)
  then show "\<bar>skey (f_clamp q f_zero f_one)\<bar> \<le> skey f_one" using one by linarith
  with one show "is_finite (f_clamp q f_zero f_one)" unfolding is_finite_skey by linarith
qed

lemma quantile_rank:
  assumes "m \<le> 2 ^ 53"
  shows "f_floor_usize (f_mul (f64_of_nat m) (f_clamp q f_zero f_one)) \<le> m"
proof (cases "is_nan q")
  case True
  then have "f_clamp q f_zero f_one = q" by (simp add: f_clamp_def f_lt_def)
  then have "f_mul (f64_of_nat m) (f_clamp q f_zero f_one) = f_nan" using True by (simp add: f_mul_def)
  moreover have "is_nan f_nan" by (simp add: f_nan_def is_nan_def mag_def inf_mag_def)
  ultimately show ?thesis by (simp add: f_floor_usize_def)
next
  case False
  note q = clamp_unit[OF False]
  have m: "is_finite (f64_of_nat m)" using assms by (intro f64_of_nat_bound) simp
  let ?p = "f_mul (f64_of_nat m) (f_clamp q f_zero f_one)"
  have p: "mag ?p \<le> mag (f64_of_nat m)" "\<not> is_nan ?p" by (rule f_mul_unit[OF m q])+
  then have "scaled (mag ?p) div 2 ^ 1074 \<le> scaled (mag (f64_of_nat m)) div 2 ^ 1074"
    by (intro div_le_mono) (simp add: scaled_le)
  also have "\<dots> = m" unfolding f64_of_nat_exact(2)[OF assms] by (rule nonzero_mult_div_cancel_right) simp
  finally have "scaled (mag ?p) div 2 ^ 1074 \<le> m" .
  moreover have "\<not> is_inf ?p" using p(1) m by (simp add: is_inf_def is_finite_def)
  ultimately show ?thesis by (simp add: f_floor_usize_def min.coboundedI2)
qed

lemma depth_cutoff_total:
  assumes "depths \<noteq> []" "length depths \<le> 2 ^ 53"
  shows "\<exists>d \<in> set depths. depth_cutoff q depths = Ok d"
proof -
  let ?k = "f_floor_usize (f_mul (f64_of_nat (length depths - 1)) (f_clamp q f_zero f_one))"
  have "?k \<le> length depths - 1" using assms(2) by (intro quantile_rank) simp
  then have "?k < length (sort depths)" using assms(1) by (cases depths) auto
  then show ?thesis using nth_mem[of ?k "sort depths"]
    by (intro bexI[of _ "sort depths ! ?k"]) (simp_all add: depth_cutoff_def index_vec_def)
qed

lemma backtrack_cutoff_total:
  assumes "context_ok c" "candidate_ids c \<noteq> []" "length (candidate_ids c) \<le> 2 ^ 53"
  shows "\<exists>cutoff. backtrack_cutoff c b = Ok cutoff \<and> map_option fst cutoff = map_option bk_kappa b"
proof (cases b)
  case (Some knobs)
  obtain d where "depth_cutoff (bk_depth_quantile knobs) (map (\<lambda>i. nr_depth (record_of c i)) (candidate_ids c)) = Ok d"
    using depth_cutoff_total[of "map (\<lambda>i. nr_depth (record_of c i)) (candidate_ids c)"] assms by auto
  then show ?thesis using Some context_candidates(1)[OF assms(1)] collect_candidates[OF assms(1), of nr_depth] by simp
qed simp

section \<open>Scored candidates\<close>

lemma ensure_weight_Ok: "ensure_non_negative_weight field v = Ok u \<longleftrightarrow> is_finite v \<and> 0 \<le> skey v"
  by (auto simp: ensure_non_negative_weight_def f_lt_def)

lemma finite_le_iff: "is_finite x \<Longrightarrow> is_finite y \<Longrightarrow> f_le x y \<longleftrightarrow> skey x \<le> skey y"
  by (simp add: f_le_def)

lemma weights_Ok:
  "validate_selection_weights s = Ok u \<longleftrightarrow>
     (\<forall>w \<in> {alpha s, beta s, gamma s, delta s, ucb_c s}. is_finite w \<and> 0 \<le> skey w)
     \<and> is_finite (temperature s) \<and> 0 < skey (temperature s)
     \<and> is_finite (epsilon_regress (staged s)) \<and> 0 \<le> skey (epsilon_regress (staged s))
     \<and> skey (epsilon_regress (staged s)) \<le> skey f_one
     \<and> max_visits_per_node s \<noteq> 0 \<and> exhaust_after_dup_expansions s \<noteq> 0
     \<and> \<not> (sel_policy s = Staged \<and> inner (staged s) = Staged)"
proof -
  have "for_res (\<lambda>(field, value). ensure_non_negative_weight field value)
       [(''selection.alpha'', alpha s), (''selection.beta'', beta s), (''selection.gamma'', gamma s),
        (''selection.delta'', delta s), (''selection.ucb_c'', ucb_c s)] = Ok () \<longleftrightarrow>
      (\<forall>w \<in> {alpha s, beta s, gamma s, delta s, ucb_c s}. is_finite w \<and> 0 \<le> skey w)"
    unfolding for_res_Ok_iff by (simp add: ensure_weight_Ok)
  then show ?thesis
    unfolding validate_selection_weights_def bind_res_eq_Ok
    by (cases "is_finite (temperature s)"; cases "is_finite (epsilon_regress (staged s))")
      (simp_all add: finite_le_iff not_le cong: conj_cong)
qed

lemma weights_no_panic: "validate_selection_weights s \<noteq> Panic m"
  by (auto simp: validate_selection_weights_def ensure_non_negative_weight_def res_simps split: if_splits)

definition log_penalty :: "libm \<Rightarrow> u32 \<Rightarrow> f64" where
  "log_penalty lm n = lm_log lm (f_add f_one (f64_of_nat (unat n)))"

lemma penalties_eq:
  "visit_penalty lm n = (if is_finite (log_penalty lm n) then Ok (log_penalty lm n)
     else Err (PolicyNonFiniteValue ''priority.visit_penalty'' (log_penalty lm n)))"
  "depth_penalty lm n = (if is_finite (log_penalty lm n) then Ok (log_penalty lm n)
     else Err (PolicyNonFiniteValue ''priority.depth_penalty'' (log_penalty lm n)))"
  by (simp_all add: visit_penalty_def depth_penalty_def log_penalty_def ensure_finite_def)

definition node_terms :: "libm \<Rightarrow> policy_context \<Rightarrow> f64 \<Rightarrow> node_record \<Rightarrow> priority_terms" where
  "node_terms lm c n r = priority_terms_new n (cell_novelty (pc_mirror c) (nr_cell r))
     (log_penalty lm (nr_visits r)) (log_penalty lm (nr_depth r))"

text \<open>The priority with the bonus of shallow nodes.\<close>

definition node_priority :: "selection_config \<Rightarrow> (f64 \<times> u32) option \<Rightarrow> node_record \<Rightarrow> priority_terms \<Rightarrow> f64" where
  "node_priority s cutoff r p = (case cutoff of
     Some (kappa, d) \<Rightarrow> if nr_depth r \<le> d then f_add (priority_sum s p) (f_mul kappa (pt_novelty p)) else priority_sum s p
   | None \<Rightarrow> priority_sum s p)"

definition node_snapshot ::
  "libm \<Rightarrow> policy_context \<Rightarrow> (f64 \<times> u32) option \<Rightarrow> f64 \<Rightarrow> f64 \<Rightarrow> node_id \<Rightarrow> candidate_snapshot" where
  "node_snapshot lm c cutoff raw n i = (let r = record_of c i; p = node_terms lm c n r in
     \<lparr>cs_id = i, cs_parent = nr_parent r, cs_depth = nr_depth r, cs_visits = nr_visits r,
      cs_children = nr_children r, cs_cell = nr_cell r, cs_stage = nr_stage r, cs_raw_score = raw,
      cs_priority_terms = p, cs_priority = node_priority (pc_selection c) cutoff r p\<rparr>)"

lemma weighted_priority_eq:
  assumes "validate_selection_weights s = Ok ()" "is_finite (pt_normalized_score p)" "is_finite (pt_novelty p)"
    "is_finite (pt_visit_penalty p)" "is_finite (pt_depth_penalty p)"
  shows "weighted_priority p s = (if is_finite (priority_sum s p) then Ok (priority_sum s p)
    else Err (PolicyNonFiniteValue ''priority.weighted'' (priority_sum s p)))"
  using assms by (simp add: weighted_priority_def ensure_finite_def)

lemma weighted_priority_Ok:
  "weighted_priority p s = Ok x \<Longrightarrow> x = priority_sum s p \<and> is_finite x"
  by (auto simp: weighted_priority_def res_simps Let_def)

lemma weighted_priority_no_panic: "weighted_priority p s \<noteq> Panic m"
  by (auto simp: weighted_priority_def res_simps Let_def weights_no_panic)

lemma novelty_unit:
  "is_finite (cell_novelty m c)" "\<bar>skey (cell_novelty m c)\<bar> \<le> skey f_one" "f_le f_zero (cell_novelty m c)"
  using cell_novelty_facts[of m c m c] by (auto simp: f_lt_def f_le_def)

lemma snapshot_of_Ok:
  assumes "context_ok c" "i \<in> set (candidate_ids c)" "candidate_snapshot_of lm c raw ns cutoff (k, i) = Ok s"
  shows "s = node_snapshot lm c cutoff (raw ! k) (ns ! k) i" "is_finite (cs_priority s)" "k < length raw" "k < length ns"
proof -
  note rec = candidate_record_Ok(2)[OF assms(1,2)]
  show "k < length raw" "k < length ns"
    using assms(3) by (auto simp: candidate_snapshot_of_def rec res_simps Let_def)
  obtain p where p: "weighted_priority (node_terms lm c (ns ! k) (record_of c i)) (pc_selection c) = Ok p"
    "add_backtrack_bonus cutoff (record_of c i) (cell_novelty (pc_mirror c) (nr_cell (record_of c i))) p
       = Ok (cs_priority s)"
    and s: "s = (node_snapshot lm c cutoff (raw ! k) (ns ! k) i)\<lparr>cs_priority := cs_priority s\<rparr>"
    using assms(3)
    by (auto simp: candidate_snapshot_of_def rec res_simps Let_def penalties_eq node_terms_def node_snapshot_def
        split: if_splits)
  note sum = weighted_priority_Ok[OF p(1)]
  have nov: "pt_novelty (node_terms lm c n r) = cell_novelty (pc_mirror c) (nr_cell r)" for n r
    by (simp add: node_terms_def priority_terms_new_def)
  have "cs_priority s = node_priority (pc_selection c) cutoff (record_of c i) (node_terms lm c (ns ! k) (record_of c i))"
    and "is_finite (cs_priority s)"
    using p(2) sum
    by (auto simp: add_backtrack_bonus_def node_priority_def res_simps Let_def nov split: option.splits if_splits)
  then show "s = node_snapshot lm c cutoff (raw ! k) (ns ! k) i" "is_finite (cs_priority s)"
    using s by (simp_all add: node_snapshot_def Let_def)
qed

definition raw_scores :: "policy_context \<Rightarrow> f64 list" where
  "raw_scores c = map (\<lambda>i. score_get (nr_score (record_of c i))) (candidate_ids c)"

lemma raw_scores_finite: "context_ok c \<Longrightarrow> \<forall>x \<in> set (raw_scores c). is_finite x"
  using candidate_record_Ok(3) by (auto simp: raw_scores_def)

lemma snapshots_eq:
  assumes "context_ok c" "validate_selection_weights (pc_selection c) = Ok ()" "candidate_ids c \<noteq> []"
    "normalize_scores (raw_scores c) = Ok ns"
  shows "candidate_snapshots lm c = bind_res (backtrack_cutoff c (pc_backtrack c))
    (\<lambda>cutoff. collect_res (candidate_snapshot_of lm c (raw_scores c) ns cutoff) (enumerate 0 (candidate_ids c)))"
  using assms(2-4) context_candidates(1)[OF assms(1)] collect_candidates[OF assms(1), of "\<lambda>r. score_get (nr_score r)"]
  by (simp add: candidate_snapshots_def raw_scores_def)

lemma snapshots_failures:
  assumes "context_ok c"
  shows "validate_selection_weights (pc_selection c) = Err e \<Longrightarrow> candidate_snapshots lm c = Err e"
    "validate_selection_weights (pc_selection c) = Ok () \<Longrightarrow> candidate_ids c = [] \<Longrightarrow>
       candidate_snapshots lm c = Err EmptyCandidateSet"
  using context_candidates(1)[OF assms] by (simp_all add: candidate_snapshots_def)

lemma snapshots_Ok:
  assumes "context_ok c" "candidate_snapshots lm c = Ok cs"
  obtains ns cutoff where "unit_scaled (raw_scores c) ns" "backtrack_cutoff c (pc_backtrack c) = Ok cutoff"
    "length cs = length (candidate_ids c)"
    "\<And>k. k < length cs \<Longrightarrow> cs ! k = node_snapshot lm c cutoff (raw_scores c ! k) (ns ! k) (candidate_ids c ! k)"
    "\<And>k. k < length cs \<Longrightarrow> is_finite (cs_priority (cs ! k))"
    "validate_selection_weights (pc_selection c) = Ok ()" "cs \<noteq> []"
proof -
  have w: "validate_selection_weights (pc_selection c) = Ok ()" and ne: "candidate_ids c \<noteq> []"
    using assms(2) context_candidates(1)[OF assms(1)] by (auto simp: candidate_snapshots_def res_simps split: if_splits)
  obtain ns where ns: "normalize_scores (raw_scores c) = Ok ns" "unit_scaled (raw_scores c) ns"
    using normalize_scores_Ok[OF raw_scores_finite[OF assms(1)]] by blast
  obtain cutoff where cut: "backtrack_cutoff c (pc_backtrack c) = Ok cutoff"
    and cs: "collect_res (candidate_snapshot_of lm c (raw_scores c) ns cutoff) (enumerate 0 (candidate_ids c)) = Ok cs"
    using assms(2) unfolding snapshots_eq[OF assms(1) w ne ns(1)] by (auto simp: res_simps)
  have len: "length cs = length (candidate_ids c)" using cs by (simp add: collect_res_Ok_iff)
  have "cs ! k = node_snapshot lm c cutoff (raw_scores c ! k) (ns ! k) (candidate_ids c ! k)
      \<and> is_finite (cs_priority (cs ! k))" if "k < length cs" for k
  proof -
    have "candidate_snapshot_of lm c (raw_scores c) ns cutoff (k, candidate_ids c ! k) = Ok (cs ! k)"
      using cs that len by (simp add: collect_res_Ok_iff nth_enumerate_eq)
    from snapshot_of_Ok[OF assms(1) _ this] show ?thesis using that len by simp
  qed
  then show thesis using that[OF ns(2) cut len] w ne len by fastforce
qed

section \<open>Every candidate list can be scored\<close>

text \<open>
  What the policies rely on of \<open>libm\<close>: for finite \<open>x \<ge> 1\<close>, \<open>log x\<close> lies in \<open>[0, 1024]\<close> (the logarithm
  of the largest double is below 710), and \<open>exp x\<close> lies in \<open>[0, 1]\<close> for \<open>x \<le> 0\<close>, with \<open>exp 0 = 1\<close>.
\<close>

definition LOG_LIMIT :: f64 where "LOG_LIMIT = F64 0x4090000000000000"

definition log_laws :: "libm \<Rightarrow> bool" where
  "log_laws lm \<longleftrightarrow> (\<forall>x. is_finite x \<longrightarrow> f_le f_one x \<longrightarrow>
     f_le f_zero (lm_log lm x) \<and> f_le (lm_log lm x) LOG_LIMIT)"

definition exp_laws :: "libm \<Rightarrow> bool" where
  "exp_laws lm \<longleftrightarrow> (\<forall>x. f_le x f_zero \<longrightarrow> f_le f_zero (lm_exp lm x) \<and> f_le (lm_exp lm x) f_one)
     \<and> (\<forall>x. mag x = 0 \<longrightarrow> lm_exp lm x = f_one)"

definition sqrt_laws :: "libm \<Rightarrow> bool" where
  "sqrt_laws lm \<longleftrightarrow> (\<forall>x. is_finite x \<longrightarrow> f_le f_zero x \<longrightarrow>
     f_le f_zero (lm_sqrt lm x) \<and> (f_le (lm_sqrt lm x) x \<or> f_le (lm_sqrt lm x) f_one))"

text \<open>\<open>2 ^ 1000\<close>, below which no weight can make a priority overflow.\<close>

definition WEIGHT_LIMIT :: f64 where "WEIGHT_LIMIT = F64 0x7E70000000000000"

definition weights_bounded :: "policy_context \<Rightarrow> bool" where
  "weights_bounded c \<longleftrightarrow>
     (\<forall>w \<in> {alpha (pc_selection c), beta (pc_selection c), gamma (pc_selection c), delta (pc_selection c)}.
        f_le w WEIGHT_LIMIT)
     \<and> (\<forall>b. pc_backtrack c = Some b \<longrightarrow> f_le (f_abs (bk_kappa b)) WEIGHT_LIMIT)"

lemma limit_mags: "mag LOG_LIMIT = Suc 1032 * 2 ^ 52" "mag WEIGHT_LIMIT = Suc 2022 * 2 ^ 52"
  "skey LOG_LIMIT = int (mag LOG_LIMIT)" "skey WEIGHT_LIMIT = int (mag WEIGHT_LIMIT)"
  by (simp_all add: LOG_LIMIT_def WEIGHT_LIMIT_def mag_def skey_def sign_bit_def)

lemma log_penalty_bound:
  assumes "log_laws lm"
  shows "is_finite (log_penalty lm n)" "mag_le 1032 (log_penalty lm n)"
proof -
  have "unat n < 2 ^ LENGTH(32)" by (rule unsigned_less)
  then have n: "unat n \<le> 2 ^ 64" by simp
  have "f_le f_one (f_add f_one (f64_of_nat (unat n)))"
    using one_plus_count[OF n] by (simp add: f_le_def)
  then have "f_le f_zero (log_penalty lm n)" "f_le (log_penalty lm n) LOG_LIMIT"
    using assms one_plus_count(1)[OF n] unfolding log_laws_def log_penalty_def by auto
  then have "\<bar>skey (log_penalty lm n)\<bar> \<le> skey LOG_LIMIT" by (auto simp: f_le_def)
  then show "mag_le 1032 (log_penalty lm n)" by (rule mag_le_key) (rule limit_mags)
  then show "is_finite (log_penalty lm n)" by (rule mag_le_finite) simp
qed

lemma weight_mag: "0 \<le> skey w \<Longrightarrow> f_le w WEIGHT_LIMIT \<Longrightarrow> mag_le 2022 w"
  by (rule mag_le_key[of _ WEIGHT_LIMIT]) (auto simp: f_le_def limit_mags(2))

lemma priority_sum_bound:
  assumes "mag_le 2022 (alpha s)" "mag_le 2022 (beta s)" "mag_le 2022 (gamma s)" "mag_le 2022 (delta s)"
    "mag_le 1022 (pt_normalized_score p)" "mag_le 1022 (pt_novelty p)"
    "mag_le 1032 (pt_visit_penalty p)" "mag_le 1032 (pt_depth_penalty p)"
  shows "mag_le 2034 (priority_sum s p)"
proof -
  have a: "mag_le 2022 (f_mul (alpha s) (pt_normalized_score p))" "mag_le 2022 (f_mul (beta s) (pt_novelty p))"
    using mag_le_mul[OF assms(1,5)] mag_le_mul[OF assms(2,6)] by simp_all
  have b: "mag_le 2032 (f_mul (gamma s) (pt_visit_penalty p))" "mag_le 2032 (f_mul (delta s) (pt_depth_penalty p))"
    using mag_le_mul[OF assms(3,7)] mag_le_mul[OF assms(4,8)] by simp_all
  have "mag_le 2032 (f_add (f_mul (alpha s) (pt_normalized_score p)) (f_mul (beta s) (pt_novelty p)))"
    using mag_le_add[OF a] by (rule mag_le_mono) simp_all
  from mag_le_mono[OF mag_le_sub[OF this b(1)], of 2033]
  show ?thesis unfolding priority_sum_def
    using mag_le_sub[OF _ mag_le_mono[OF b(2), of 2033]] by fastforce
qed

lemma sum_bound:
  assumes "validate_selection_weights (pc_selection c) = Ok ()" "log_laws lm" "weights_bounded c"
    "f_le f_zero n" "f_le n f_one"
  shows "mag_le 2034 (priority_sum (pc_selection c) (node_terms lm c n r))"
proof -
  let ?sel = "pc_selection c"
  have n: "mag_le 1022 n" using assms(4,5) by (intro mag_le_one) (auto simp: f_le_def)
  have "mag_le 2022 (alpha ?sel)" "mag_le 2022 (beta ?sel)" "mag_le 2022 (gamma ?sel)" "mag_le 2022 (delta ?sel)"
    using assms(1,3) unfolding weights_bounded_def weights_Ok by (auto intro!: weight_mag)
  then show ?thesis using n mag_le_one[OF novelty_unit(2)] log_penalty_bound(2)[OF assms(2)]
    by (intro priority_sum_bound) (simp_all add: node_terms_def priority_terms_new_def)
qed

lemma bonus_bound:
  assumes "mag_le 2022 kappa" "mag_le 2034 x"
  shows "mag_le 2035 (f_add x (f_mul kappa (cell_novelty m cell)))"
proof -
  have "mag_le 2022 (f_mul kappa (cell_novelty m cell))"
    using mag_le_mul[OF assms(1) mag_le_one[OF novelty_unit(2)]] by simp
  then show ?thesis using mag_le_add[OF assms(2) mag_le_mono[of 2022 _ 2034]] by simp
qed

lemma snapshot_of_total:
  assumes c: "context_ok c" "i \<in> set (candidate_ids c)" and w: "validate_selection_weights (pc_selection c) = Ok ()"
    and lm: "log_laws lm" and b: "weights_bounded c" "\<And>kappa d. cutoff = Some (kappa, d) \<Longrightarrow> mag_le 2022 kappa"
    and k: "k < length raw" "k < length ns" "f_le f_zero (ns ! k)" "f_le (ns ! k) f_one"
  shows "\<exists>s. candidate_snapshot_of lm c raw ns cutoff (k, i) = Ok s \<and> mag_le 2035 (cs_priority s)"
proof -
  let ?r = "record_of c i" and ?sel = "pc_selection c"
  let ?p = "node_terms lm c (ns ! k) ?r" and ?nov = "cell_novelty (pc_mirror c) (nr_cell ?r)"
  have ns: "is_finite (ns ! k)" using k(3,4) by (intro mag_le_finite[OF mag_le_one]) (auto simp: f_le_def)
  note pen = log_penalty_bound(1)[OF lm] and sum = sum_bound[OF w lm b(1) k(3,4), of ?r]
  have "weighted_priority ?p ?sel = Ok (priority_sum ?sel ?p)"
    using weighted_priority_eq[OF w, of ?p] ns novelty_unit(1) pen mag_le_finite[OF sum]
    by (simp add: node_terms_def priority_terms_new_def)
  moreover have "\<exists>x. add_backtrack_bonus cutoff ?r ?nov (priority_sum ?sel ?p) = Ok x \<and> mag_le 2035 x"
  proof (cases cutoff)
    case (Some kd)
    then obtain kappa d where kd: "cutoff = Some (kappa, d)" by (cases kd) auto
    note bonus = bonus_bound[OF b(2)[OF kd] sum, of "pc_mirror c" "nr_cell ?r"]
    show ?thesis using bonus mag_le_finite[OF bonus] mag_le_mono[OF sum, of 2035]
      by (simp add: add_backtrack_bonus_def kd ensure_finite_def Let_def)
  qed (use mag_le_mono[OF sum, of 2035] in \<open>simp add: add_backtrack_bonus_def\<close>)
  ultimately show ?thesis
    using candidate_record_Ok(2)[OF c] k novelty_unit(1) pen
    by (auto simp: candidate_snapshot_of_def penalties_eq ensure_finite_def index_vec_def node_terms_def Let_def)
qed

lemma snapshots_total:
  assumes "context_ok c" "validate_selection_weights (pc_selection c) = Ok ()" "candidate_ids c \<noteq> []"
    "length (candidate_ids c) \<le> 2 ^ 53" "log_laws lm" "weights_bounded c"
  shows "\<exists>cs. candidate_snapshots lm c = Ok cs \<and> (\<forall>s \<in> set cs. mag_le 2035 (cs_priority s))"
proof -
  obtain ns where ns: "normalize_scores (raw_scores c) = Ok ns" "unit_scaled (raw_scores c) ns"
    using normalize_scores_Ok[OF raw_scores_finite[OF assms(1)]] by blast
  obtain cutoff where cut: "backtrack_cutoff c (pc_backtrack c) = Ok cutoff"
    and kappa: "map_option fst cutoff = map_option bk_kappa (pc_backtrack c)"
    using backtrack_cutoff_total[OF assms(1,3,4)] by blast
  have "mag_le 2022 kappa" if eq: "cutoff = Some (kappa, d)" for kappa d
  proof -
    obtain b where b: "pc_backtrack c = Some b" "bk_kappa b = kappa"
      using kappa eq by (cases "pc_backtrack c") auto
    then have "f_le (f_abs kappa) WEIGHT_LIMIT" using assms(6) by (auto simp: weights_bounded_def)
    then have "mag_le 2022 (f_abs kappa)" by (intro weight_mag) simp_all
    then show ?thesis by (simp add: mag_le_def)
  qed
  then have one: "\<exists>s. candidate_snapshot_of lm c (raw_scores c) ns cutoff (k, candidate_ids c ! k) = Ok s
      \<and> mag_le 2035 (cs_priority s)"
    if "k < length (candidate_ids c)" for k
    using ns(2) that by (intro snapshot_of_total assms) (auto simp: unit_scaled_def raw_scores_def)
  then obtain cs where cs: "collect_res (candidate_snapshot_of lm c (raw_scores c) ns cutoff) (enumerate 0 (candidate_ids c)) = Ok cs"
    using collect_res_total[of "enumerate 0 (candidate_ids c)" "candidate_snapshot_of lm c (raw_scores c) ns cutoff"]
    by (fastforce simp: in_set_enumerate_eq)
  have "mag_le 2035 (cs_priority (cs ! k))" if "k < length (candidate_ids c)" for k
    using one[OF that] cs that by (auto simp: collect_res_Ok_iff nth_enumerate_eq)
  then have "\<forall>s \<in> set cs. mag_le 2035 (cs_priority s)" using cs by (auto simp: collect_res_Ok_iff in_set_conv_nth)
  then show ?thesis unfolding snapshots_eq[OF assms(1-3) ns(1)] cut using cs by simp
qed

section \<open>The policy contract\<close>

text \<open>
  What every implementation of \<open>SelectionPolicy\<close> promises: it fails like the scoring of the candidates
  without drawing, and a choice names a candidate by its index and its id.
\<close>

locale selection_policy =
  fixes lm :: libm
    and select :: "'p \<Rightarrow> policy_context \<Rightarrow> 'r \<Rightarrow> (policy_error, selection_choice) res \<times> 'r"
  assumes select_fails: "candidate_snapshots lm c = Err e \<Longrightarrow> select p c r = (Err e, r)"
    and select_panics: "candidate_snapshots lm c = Panic m \<Longrightarrow> select p c r = (Panic m, r)"
    and select_picks: "candidate_snapshots lm c = Ok cs \<Longrightarrow> select p c r = (Ok ch, r') \<Longrightarrow>
      sc_candidate_index ch < length cs \<and> sc_selected ch = cs_id (cs ! sc_candidate_index ch)"
begin

lemma selects_candidate:
  assumes "context_ok c" "select p c r = (Ok ch, r')"
  shows "sc_candidate_index ch < length (candidate_ids c)"
    "sc_selected ch = candidate_ids c ! sc_candidate_index ch"
proof -
  obtain cs where cs: "candidate_snapshots lm c = Ok cs"
    using assms(2) select_fails select_panics by (cases "candidate_snapshots lm c") fastforce+
  obtain ns cutoff where len: "length cs = length (candidate_ids c)"
    and nth: "\<And>k. k < length cs \<Longrightarrow> cs ! k = node_snapshot lm c cutoff (raw_scores c ! k) (ns ! k) (candidate_ids c ! k)"
    using snapshots_Ok[OF assms(1) cs] by metis
  note pick = select_picks[OF cs assms(2)]
  then show "sc_candidate_index ch < length (candidate_ids c)"
    "sc_selected ch = candidate_ids c ! sc_candidate_index ch"
    using len nth[of "sc_candidate_index ch"] by (simp_all add: node_snapshot_def Let_def)
qed

lemma selects_live:
  assumes "context_ok c" "select p c r = (Ok ch, r')"
  shows "sc_selected ch \<in> frontier_ids (pc_frontier c)" "candidate_in (pc_tree c) (sc_selected ch)"
  using selects_candidate[OF assms] context_candidates(4)[OF assms(1)] nth_mem by fastforce+

lemma select_empty:
  "context_ok c \<Longrightarrow> validate_selection_weights (pc_selection c) = Ok () \<Longrightarrow> candidate_ids c = [] \<Longrightarrow>
     select p c r = (Err EmptyCandidateSet, r)"
  using select_fails snapshots_failures(2) by blast

end

section \<open>Properties\<close>

text \<open>Normalisation of any list of finite scores succeeds, also where the span of the scores overflows.
  Every result is a double in [0, 1] and the order of the scores is kept.\<close>

theorem normalize_scores_unit:
  assumes "\<forall>x \<in> set xs. is_finite x"
  shows "\<exists>ns. normalize_scores xs = Ok ns \<and> length ns = length xs
    \<and> (\<forall>i < length xs. f_le f_zero (ns ! i) \<and> f_le (ns ! i) f_one)
    \<and> (\<forall>i < length xs. \<forall>j < length xs. f_le (xs ! i) (xs ! j) \<longrightarrow> f_le (ns ! i) (ns ! j))"
  using normalize_scores_Ok[OF assms] by (simp only: unit_scaled_def)

text \<open>C38: A scored candidate list is exactly the sorted list of the live frontier nodes, each with its
  record's depth, visits, stage and score. Every priority is finite, every normalised score and novelty
  lies in [0, 1], and the priority is the weighted sum of the terms, with the backtrack bonus added
  exactly to the nodes at or above the cutoff depth.\<close>

theorem candidate_snapshots_spec:
  assumes "context_ok c" "candidate_snapshots lm c = Ok cs"
  shows "map cs_id cs = candidate_ids c \<and> cs \<noteq> [] \<and> (\<exists>cutoff. backtrack_cutoff c (pc_backtrack c) = Ok cutoff
    \<and> (\<forall>s \<in> set cs. tree_get (pc_tree c) (cs_id s) = Some (record_of c (cs_id s))
      \<and> cs_stage s = nr_stage (record_of c (cs_id s)) \<and> cs_visits s = nr_visits (record_of c (cs_id s))
      \<and> cs_depth s = nr_depth (record_of c (cs_id s)) \<and> f_le f_zero (pt_novelty (cs_priority_terms s))
      \<and> cs_raw_score s = score_get (nr_score (record_of c (cs_id s))) \<and> is_finite (cs_priority s)
      \<and> f_le f_zero (pt_normalized_score (cs_priority_terms s)) \<and> f_le (pt_normalized_score (cs_priority_terms s)) f_one
      \<and> f_le (pt_novelty (cs_priority_terms s)) f_one
      \<and> cs_priority s = node_priority (pc_selection c) cutoff (record_of c (cs_id s)) (cs_priority_terms s)))"
proof -
  obtain ns cutoff where ns: "unit_scaled (raw_scores c) ns" and cut: "backtrack_cutoff c (pc_backtrack c) = Ok cutoff"
    and len: "length cs = length (candidate_ids c)" and ne: "cs \<noteq> []"
    and nth: "\<And>k. k < length cs \<Longrightarrow> cs ! k = node_snapshot lm c cutoff (raw_scores c ! k) (ns ! k) (candidate_ids c ! k)"
    and fin: "\<And>k. k < length cs \<Longrightarrow> is_finite (cs_priority (cs ! k))"
    using snapshots_Ok[OF assms] by metis
  have "map cs_id cs = candidate_ids c"
    using len nth by (intro nth_equalityI) (simp_all add: node_snapshot_def Let_def)
  moreover have "tree_get (pc_tree c) (cs_id s) = Some (record_of c (cs_id s))
      \<and> cs_stage s = nr_stage (record_of c (cs_id s)) \<and> cs_visits s = nr_visits (record_of c (cs_id s))
      \<and> cs_depth s = nr_depth (record_of c (cs_id s)) \<and> f_le f_zero (pt_novelty (cs_priority_terms s))
      \<and> cs_raw_score s = score_get (nr_score (record_of c (cs_id s))) \<and> is_finite (cs_priority s)
      \<and> f_le f_zero (pt_normalized_score (cs_priority_terms s)) \<and> f_le (pt_normalized_score (cs_priority_terms s)) f_one
      \<and> f_le (pt_novelty (cs_priority_terms s)) f_one
      \<and> cs_priority s = node_priority (pc_selection c) cutoff (record_of c (cs_id s)) (cs_priority_terms s)"
    if "s \<in> set cs" for s
  proof -
    obtain k where k: "k < length cs" "s = cs ! k" using \<open>s \<in> set cs\<close> by (auto simp: in_set_conv_nth)
    have s: "s = node_snapshot lm c cutoff (raw_scores c ! k) (ns ! k) (candidate_ids c ! k)"
      and i: "candidate_ids c ! k \<in> set (candidate_ids c)" using nth[OF k(1)] k len by simp_all
    have "f_le f_zero (ns ! k) \<and> f_le (ns ! k) f_one" using ns k len by (simp add: unit_scaled_def raw_scores_def)
    then show ?thesis
      using candidate_record_Ok(1)[OF assms(1) i] fin[OF k(1), folded k(2)] novelty_unit(1,3) abs_le_D1[OF novelty_unit(2)] k(1) len
      by (simp add: s node_snapshot_def Let_def node_terms_def priority_terms_new_def raw_scores_def f_le_def)
  qed
  ultimately show ?thesis using ne cut by blast
qed

text \<open>Scoring always succeeds: with valid weights of at most \<open>2 ^ 1000\<close>, a logarithm in the documented
  range and at least one candidate, no error and no panic of the scoring is reached, and every candidate
  gets its snapshot.\<close>

theorem candidate_snapshots_total:
  assumes "context_ok c" "validate_selection_weights (pc_selection c) = Ok ()" "candidate_ids c \<noteq> []"
    "length (candidate_ids c) \<le> 2 ^ 53" "log_laws lm" "weights_bounded c"
  shows "\<exists>cs. candidate_snapshots lm c = Ok cs \<and> length cs = length (candidate_ids c)"
  using snapshots_total[OF assms] snapshots_Ok[OF assms(1)] by metis

text \<open>A context with two candidates, over stand-ins for \<open>log\<close> and \<open>exp\<close>.\<close>

definition example_libm :: libm where
  "example_libm = \<lparr>lm_log = (\<lambda>_. f_zero), lm_exp = (\<lambda>x. if mag x = 0 then f_one else f_zero),
     lm_sqrt = f_sqrt\<rparr>"

definition example_selection :: selection_config where
  "example_selection = \<lparr>sel_policy = Softmax, alpha = f_one, beta = f_one, gamma = f_zero, delta = f_zero,
     temperature = f_one, ucb_c = f_one, staged = \<lparr>inner = Softmax, epsilon_regress = f_zero\<rparr>,
     max_visits_per_node = 8, exhaust_after_dup_expansions = 2\<rparr>"

definition example_context :: policy_context where
  "example_context = \<lparr>pc_tree = example_tree, pc_frontier = example_frontier, pc_mirror = cell_mirror_new,
     pc_plateau = from_plateau_config plateau_config_default, pc_selection = example_selection, pc_backtrack = None\<rparr>"

lemma unit_key: "0 < skey f_one" "skey f_one < skey WEIGHT_LIMIT" "\<not> is_nan WEIGHT_LIMIT" "\<not> is_nan LOG_LIMIT"
  unfolding limit_mags(3,4) is_nan_def limit_mags(1,2) by (simp_all add: skey_def mag_f_one inf_mag_def)

lemma example_laws: "log_laws example_libm" "exp_laws example_libm"
  using unit_key by (auto simp: log_laws_def exp_laws_def example_libm_def f_le_def limit_mags)

lemma example_sqrt_laws: "sqrt_laws example_libm"
proof -
  have "f_le f_zero (f_sqrt x) \<and> (f_le (f_sqrt x) x \<or> f_le (f_sqrt x) f_one)" if x: "is_finite x" "f_le f_zero x" for x
  proof -
    have pos: "0 \<le> skey x" using x(2) by (simp add: f_le_def)
    let ?y = "if skey f_one \<le> skey x then x else f_one"
    have b: "\<bar>skey (f_sqrt x)\<bar> \<le> skey ?y" using x(1) pos by (intro f_sqrt_bound) auto
    moreover have "is_finite ?y" using x(1) by simp
    ultimately have fin: "is_finite (f_sqrt x)" by (auto simp: is_finite_skey split: if_splits)
    have "0 \<le> skey (f_sqrt x)"
    proof (cases "skey x = 0")
      case True
      then have "mag x = 0" by (auto simp: skey_def split: if_splits)
      then show ?thesis using True x(1) by (simp add: f_sqrt_def)
    next
      case False
      then show ?thesis using skey_sqrt(1)[OF x(1)] pos by simp
    qed
    then show ?thesis using b fin x(1) by (auto simp: f_le_def split: if_splits)
  qed
  then show ?thesis by (simp add: sqrt_laws_def example_libm_def)
qed

lemma example_weights: "validate_selection_weights example_selection = Ok ()"
  using unit_key by (simp add: weights_Ok example_selection_def)

lemma example_context_ok: "context_ok example_context"
  using example_frontier_inv insert_child_wf[OF example_root_wf example_insert _ example_score_ok]
  by (simp add: context_ok_def example_context_def example_root_def example_frontier_def tree_get_def index_of_def
      example_tree_def Let_def ROOT_def)

lemma example_candidate_ids: "set (candidate_ids example_context) = {ROOT, NodeId 1}" "length (candidate_ids example_context) = 2"
proof -
  show s: "set (candidate_ids example_context) = {ROOT, NodeId 1}"
    using context_candidates(4)[OF example_context_ok]
    by (auto simp: candidate_in_def example_context_def example_frontier_def tree_get_def index_of_def example_defs Let_def
        ROOT_def is_frontier_candidate_def)
  have "length (candidate_ids example_context) = card (set (candidate_ids example_context))"
    using context_candidates(2)[OF example_context_ok] by (simp add: distinct_card)
  then show "length (candidate_ids example_context) = 2" unfolding s by (simp add: ROOT_def)
qed

lemma example_bounded: "weights_bounded example_context"
  using unit_key by (simp add: weights_bounded_def example_context_def example_selection_def f_le_def)

lemma example_snapshots: "\<exists>cs. candidate_snapshots example_libm example_context = Ok cs"
proof -
  have "validate_selection_weights (pc_selection example_context) = Ok ()" "candidate_ids example_context \<noteq> []"
    "length (candidate_ids example_context) \<le> 2 ^ 53"
    using example_weights example_candidate_ids by (auto simp: example_context_def)
  from snapshots_total[OF example_context_ok this example_laws(1) example_bounded] show ?thesis by blast
qed

theorem normalize_scores_unit_witness:
  "\<exists>ns. normalize_scores [f_one, f_zero] = Ok ns \<and> f_le (ns ! 1) (ns ! 0)"
proof -
  have "\<forall>x \<in> set [f_one, f_zero]. is_finite x" by simp
  from normalize_scores_unit[OF this] obtain ns where "normalize_scores [f_one, f_zero] = Ok ns"
    "\<forall>i < 2. \<forall>j < 2. f_le ([f_one, f_zero] ! i) ([f_one, f_zero] ! j) \<longrightarrow> f_le (ns ! i) (ns ! j)"
    by (auto simp: numeral_2_eq_2)
  moreover have "f_le f_zero f_one" using unit_key by (simp add: f_le_def)
  ultimately show ?thesis by force
qed

theorem candidate_snapshots_spec_witness:
  "\<exists>cs. candidate_snapshots example_libm example_context = Ok cs \<and> map cs_id cs = candidate_ids example_context"
  using example_snapshots candidate_snapshots_spec[OF example_context_ok] by blast

theorem candidate_snapshots_total_witness:
  "\<exists>cs. candidate_snapshots example_libm example_context = Ok cs \<and> length cs = 2"
proof -
  have "validate_selection_weights (pc_selection example_context) = Ok ()" "candidate_ids example_context \<noteq> []"
    "length (candidate_ids example_context) \<le> 2 ^ 53"
    using example_weights example_candidate_ids by (auto simp: example_context_def)
  from candidate_snapshots_total[OF example_context_ok this example_laws(1) example_bounded] show ?thesis
    by (simp add: example_candidate_ids)
qed

end
