(* ===== verification/Softmax_Policy.thy ===== *)
theory Softmax_Policy
  imports Policy
begin

text \<open>
  The softmax policy (\<open>crates/orch-core/src/policy/softmax.rs\<close>): weights \<open>exp ((p - max) / T)\<close>, one draw, and
  the walk over the prefix sums; below the temperature \<open>ARGMAX_TEMPERATURE\<close> the first candidate of
  greatest priority, without a draw.
\<close>

definition ARGMAX_TEMPERATURE :: f64 where "ARGMAX_TEMPERATURE = f64_lit 1 (10 ^ 12)"

definition validate_temperature :: "f64 \<Rightarrow> (policy_error, unit) res" where
  "validate_temperature t =
     (if \<not> is_finite t \<or> f_le t f_zero then Err (PolicyInvalidWeight ''selection.temperature'' t) else Ok ())"

definition validate_priorities :: "candidate_snapshot list \<Rightarrow> (policy_error, unit) res" where
  "validate_priorities cs =
     (if cs = [] then Err EmptyCandidateSet
      else for_res (\<lambda>s. ensure_finite ''candidate.priority'' (cs_priority s)) cs)"

text \<open>The loop of \<open>argmax_choice\<close> over the candidates after the first, from index \<open>k\<close>.\<close>

fun argmax_loop :: "nat \<Rightarrow> candidate_snapshot list \<Rightarrow> nat \<times> candidate_snapshot \<Rightarrow> nat \<times> candidate_snapshot" where
  "argmax_loop k [] best = best"
| "argmax_loop k (s # cs) best =
     argmax_loop (k + 1) cs (if f_lt (cs_priority (snd best)) (cs_priority s) then (k, s) else best)"

definition argmax_choice :: "candidate_snapshot list \<Rightarrow> (policy_error, selection_choice) res" where
  "argmax_choice cs = (case cs of
     [] \<Rightarrow> Err EmptyCandidateSet
   | s # rest \<Rightarrow> let best = argmax_loop 1 rest (0, s)
       in Ok \<lparr>sc_selected = cs_id (snd best), sc_candidate_index = fst best\<rparr>)"

text \<open>The loop that fills \<open>weights\<close> and \<open>total_weight\<close>.\<close>

fun softmax_weights ::
  "libm \<Rightarrow> f64 \<Rightarrow> f64 \<Rightarrow> candidate_snapshot list \<Rightarrow> f64 list \<Rightarrow> f64 \<Rightarrow> (policy_error, f64 list \<times> f64) res" where
  "softmax_weights lm max_priority t [] weights total_weight = Ok (weights, total_weight)"
| "softmax_weights lm max_priority t (s # cs) weights total_weight =
     (let weight = lm_exp lm (f_div (f_sub (cs_priority s) max_priority) t) in
      bind_res (ensure_finite ''softmax.weight'' weight) (\<lambda>_.
      let total_weight = f_add total_weight weight in
      bind_res (ensure_finite ''softmax.total_weight'' total_weight) (\<lambda>_.
      softmax_weights lm max_priority t cs (weights @ [weight]) total_weight)))"

text \<open>The prefix walk from index \<open>k\<close>; \<open>n\<close> is the number of candidates.\<close>

fun prefix_walk :: "nat \<Rightarrow> f64 \<Rightarrow> nat \<Rightarrow> f64 \<Rightarrow> f64 list \<Rightarrow> (policy_error, nat) res" where
  "prefix_walk n target k prefix [] = Panic ''non-empty candidates return during prefix walk''"
| "prefix_walk n target k prefix (w # ws) =
     (let prefix = f_add prefix w in
      if f_lt target prefix \<or> k + 1 = n then Ok k else prefix_walk n target (k + 1) prefix ws)"

text \<open>A draw that leaves the generator behind.\<close>

definition draw_unit :: "'g generator \<Rightarrow> 'g det_rng \<Rightarrow> (policy_error, f64) res \<times> 'g det_rng" where
  "draw_unit G r = (case next_unit_f64 G r of
     Ok (u, r') \<Rightarrow> (Ok u, r') | Err e \<Rightarrow> (Err e, r) | Panic m \<Rightarrow> (Panic m, r))"

definition softmax_draw ::
  "libm \<Rightarrow> 'g generator \<Rightarrow> candidate_snapshot list \<Rightarrow> f64 \<Rightarrow> 'g det_rng
     \<Rightarrow> (policy_error, selection_choice) res \<times> 'g det_rng" where
  "softmax_draw lm G cs t r =
     (let max_priority = fold (\<lambda>s m. f_max m (cs_priority s)) cs f_neg_inf in
      bind_st (softmax_weights lm max_priority t cs [] f_zero, r) (\<lambda>(weights, total_weight) r.
      if f_le total_weight f_zero then (Err (PolicyNonFiniteValue ''softmax.total_weight'' total_weight), r)
      else bind_st (draw_unit G r) (\<lambda>u r.
        (bind_res (prefix_walk (length cs) (f_mul u total_weight) 0 f_zero weights) (\<lambda>k.
         bind_res (index_vec cs k) (\<lambda>s. Ok \<lparr>sc_selected = cs_id s, sc_candidate_index = k\<rparr>)), r))))"

definition softmax_select_from ::
  "libm \<Rightarrow> 'g generator \<Rightarrow> candidate_snapshot list \<Rightarrow> f64 \<Rightarrow> 'g det_rng
     \<Rightarrow> (policy_error, selection_choice) res \<times> 'g det_rng" where
  "softmax_select_from lm G cs t r =
     bind_st (validate_temperature t, r) (\<lambda>_ r.
     bind_st (validate_priorities cs, r) (\<lambda>_ r.
     if f_le t ARGMAX_TEMPERATURE then (argmax_choice cs, r) else softmax_draw lm G cs t r))"

datatype softmax_policy = SoftmaxPolicy

definition softmax_kind :: "softmax_policy \<Rightarrow> policy_kind" where
  "softmax_kind p = Softmax"

definition softmax_select ::
  "libm \<Rightarrow> 'g generator \<Rightarrow> softmax_policy \<Rightarrow> policy_context \<Rightarrow> 'g det_rng
     \<Rightarrow> (policy_error, selection_choice) res \<times> 'g det_rng" where
  "softmax_select lm G p c r =
     bind_st (candidate_snapshots lm c, r) (\<lambda>cs r. softmax_select_from lm G cs (temperature (pc_selection c)) r)"

section \<open>Argmax\<close>

text \<open>\<open>first_max f cs k\<close>: index \<open>k\<close> holds the first greatest value of \<open>f\<close>.\<close>

definition first_max :: "('a \<Rightarrow> f64) \<Rightarrow> 'a list \<Rightarrow> nat \<Rightarrow> bool" where
  "first_max f cs k \<longleftrightarrow> k < length cs \<and> (\<forall>i < length cs. f_le (f (cs ! i)) (f (cs ! k)))
     \<and> (\<forall>i < k. f_lt (f (cs ! i)) (f (cs ! k)))"

lemma argmax_loop_first_max:
  assumes "\<forall>s \<in> set (pre @ cs). is_finite (cs_priority s)" "first_max cs_priority pre k"
  shows "\<exists>j. argmax_loop (length pre) cs (k, pre ! k) = (j, (pre @ cs) ! j) \<and> first_max cs_priority (pre @ cs) j"
  using assms
proof (induction cs arbitrary: pre k)
  case Nil
  then show ?case by simp
next
  case (Cons s cs)
  let ?pre = "pre @ [s]"
  have k: "k < length pre" and fin: "\<forall>s \<in> set pre. is_finite (cs_priority s)" "is_finite (cs_priority s)"
    using Cons.prems by (auto simp: first_max_def)
  let ?j = "if f_lt (cs_priority (pre ! k)) (cs_priority s) then length pre else k"
  have "first_max cs_priority ?pre ?j"
    using Cons.prems(2) fin k nth_mem[OF k]
    by (auto simp: first_max_def f_lt_def f_le_def nth_append less_Suc_eq not_less split: if_splits)
  from Cons.IH[OF _ this] Cons.prems(1) show ?case using k by (auto simp: nth_append split: if_splits)
qed

lemma argmax_choice_spec:
  assumes "\<forall>s \<in> set cs. is_finite (cs_priority s)" "cs \<noteq> []"
  shows "\<exists>k. argmax_choice cs = Ok \<lparr>sc_selected = cs_id (cs ! k), sc_candidate_index = k\<rparr> \<and> first_max cs_priority cs k"
proof (cases cs)
  case (Cons s rest)
  have "first_max cs_priority [s] 0" using assms Cons by (auto simp: first_max_def f_le_def)
  from argmax_loop_first_max[OF _ this, of rest] assms Cons show ?thesis by (auto simp: argmax_choice_def)
qed (use assms in simp)

section \<open>Weights\<close>

lemma max_priority_spec:
  assumes "\<forall>s \<in> set cs. is_finite (cs_priority s)" "\<not> is_nan m"
  shows "\<exists>M. fold (\<lambda>s m. f_max m (cs_priority s)) cs m = M \<and> \<not> is_nan M \<and> M \<in> insert m (cs_priority ` set cs)
    \<and> skey m \<le> skey M \<and> (\<forall>s \<in> set cs. skey (cs_priority s) \<le> skey M)"
  using assms
proof (induction cs arbitrary: m)
  case (Cons s cs)
  let ?m = "f_max m (cs_priority s)"
  have m: "\<not> is_nan ?m" "?m \<in> {m, cs_priority s}" "skey m \<le> skey ?m" "skey (cs_priority s) \<le> skey ?m"
    using Cons.prems by (auto simp: f_max_def f_lt_def)
  let ?M = "fold (\<lambda>s m. f_max m (cs_priority s)) cs ?m"
  have "\<not> is_nan ?M" "?M \<in> insert ?m (cs_priority ` set cs)" "skey ?m \<le> skey ?M"
    "\<forall>s \<in> set cs. skey (cs_priority s) \<le> skey ?M"
    using Cons.IH[OF _ m(1)] Cons.prems(1) by auto
  moreover from this m have "skey m \<le> skey ?M" "skey (cs_priority s) \<le> skey ?M" by linarith+
  ultimately show ?case using m(2) by (intro exI[of _ ?M]) auto
qed simp

lemma max_priority_member:
  assumes "\<forall>s \<in> set cs. is_finite (cs_priority s)" "cs \<noteq> []"
  obtains s where "s \<in> set cs" "fold (\<lambda>s m. f_max m (cs_priority s)) cs f_neg_inf = cs_priority s"
    "\<forall>s' \<in> set cs. skey (cs_priority s') \<le> skey (cs_priority s)"
proof -
  let ?M = "fold (\<lambda>s m. f_max m (cs_priority s)) cs f_neg_inf"
  have M: "?M \<in> insert f_neg_inf (cs_priority ` set cs)" "\<forall>s \<in> set cs. skey (cs_priority s) \<le> skey ?M"
    using max_priority_spec[OF assms(1) skey_inf(4)] by auto
  obtain s where s: "s \<in> set cs" using assms(2) by (cases cs) auto
  then have "- int inf_mag < skey (cs_priority s)" using assms(1) by (auto simp: is_finite_skey)
  then have "?M \<noteq> f_neg_inf" using M(2) s by fastforce
  then obtain s' where "s' \<in> set cs" "?M = cs_priority s'" using M(1) by auto
  then show thesis using that M(2) by simp
qed

lemma softmax_exponent:
  assumes "is_finite p" "is_finite m" "skey p \<le> skey m" "is_finite t" "0 < skey t"
  shows "f_le (f_div (f_sub p m) t) f_zero" "skey p = skey m \<Longrightarrow> mag (f_div (f_sub p m) t) = 0"
proof -
  let ?d = "f_sub p m"
  have d: "\<not> is_nan ?d" "skey ?d = srnd (fval p - fval m)" by (rule f_sub_finite[OF assms(1,2)])+
  have "fval p \<le> fval m" using assms(3) by (simp add: fval_le_iff)
  then have neg: "skey ?d \<le> 0" unfolding d(2) using srnd_mono[of "fval p - fval m" 0] by simp
  have q: "sign_bit ?d \<or> mag ?d = 0" using neg by (auto simp: skey_def split: if_splits)
  show "f_le (f_div ?d t) f_zero"
  proof (cases "is_finite ?d")
    case True
    note s = skey_div[OF True assms(4,5)]
    show ?thesis using q s(2) quot_mag_0[of ?d t] unfolding f_le_def s(1) by auto
  next
    case False
    then have inf: "is_inf ?d" "sign_bit ?d"
      using d(1) q by (auto simp: is_finite_def is_inf_def is_nan_def inf_mag_def)
    have "\<not> sign_bit t" using assms(5) by (auto simp: skey_def split: if_splits)
    then have "f_div ?d t = mk_f64 True inf_mag" using inf d(1) assms(4) by (simp add: f_div_def Let_def)
    then show ?thesis using inf_mag_less by (simp add: f_le_def is_nan_def skey_def)
  qed
  assume "skey p = skey m"
  then have "fval p = fval m" by (simp add: antisym_conv fval_le_iff order_antisym)
  then have "skey ?d = 0" unfolding d(2) by simp
  then have m0: "mag ?d = 0" by (auto simp: skey_def split: if_splits)
  then have "is_finite ?d" by (simp add: is_finite_def inf_mag_def)
  from skey_div(4)[OF this assms(4,5)] show "mag (f_div ?d t) = 0" using quot_mag_0[OF m0] by simp
qed

lemma accumulate_unit:
  assumes "is_finite tot" "0 \<le> skey tot" "skey tot \<le> skey (f64_of_nat k)" "Suc k \<le> 2 ^ 53"
    and w: "f_le f_zero w" "f_le w f_one"
  shows "is_finite w" "is_finite (f_add tot w)" "skey tot \<le> skey (f_add tot w)" "skey w \<le> skey (f_add tot w)"
    "skey (f_add tot w) \<le> skey (f64_of_nat (Suc k))"
proof -
  have one: "skey f_one < int inf_mag" by (simp add: skey_def mag_f_one inf_mag_def)
  show fw: "is_finite w" using w one by (auto simp: f_le_def is_finite_skey)
  have "fval w \<le> 2 ^ 1074" using fval_unit[of w] w by (auto simp: f_le_def)
  moreover have "fval tot \<le> fval (f64_of_nat k)" using assms(3) by (simp only: fval_le_iff)
  ultimately have "fval tot + fval w \<le> fval (f64_of_nat (Suc k))"
    using assms(4) f64_of_nat_exact(1)[of k] f64_of_nat_exact(1)[of "Suc k"] by (simp add: algebra_simps)
  note sum = this
  have k: "is_finite (f64_of_nat (Suc k))" using assms(4) by (intro f64_of_nat_bound) simp
  show le: "skey (f_add tot w) \<le> skey (f64_of_nat (Suc k))"
    unfolding f_add_finite(2)[OF assms(1) fw] srnd_fval[OF k, symmetric] by (rule srnd_mono[OF sum])
  have "0 \<le> fval tot" "0 \<le> fval w"
    using assms(2) w(1) fval_le_iff[of f_zero] by (auto simp: f_le_def fval_def)
  then have "srnd (fval tot) \<le> srnd (fval tot + fval w)" "srnd (fval w) \<le> srnd (fval tot + fval w)"
    by (simp_all add: srnd_mono)
  then show mono: "skey tot \<le> skey (f_add tot w)" "skey w \<le> skey (f_add tot w)"
    unfolding f_add_finite(2)[OF assms(1) fw] using assms(1) fw by simp_all
  show "is_finite (f_add tot w)"
    using le mono(1) assms(2) k unfolding is_finite_skey by linarith
qed

lemma softmax_weights_total:
  assumes "exp_laws lm" "is_finite t" "0 < skey t" "is_finite m"
    "\<forall>s \<in> set cs. is_finite (cs_priority s) \<and> skey (cs_priority s) \<le> skey m"
    "is_finite tot" "0 \<le> skey tot" "skey tot \<le> skey (f64_of_nat k)" "k + length cs \<le> 2 ^ 53"
  shows "\<exists>ws tot'. softmax_weights lm m t cs acc tot = Ok (acc @ ws, tot') \<and> length ws = length cs
    \<and> is_finite tot' \<and> skey tot \<le> skey tot'
    \<and> ((\<exists>s \<in> set cs. skey (cs_priority s) = skey m) \<longrightarrow> skey f_one \<le> skey tot')"
  using assms(5-9)
proof (induction cs arbitrary: acc tot k)
  case (Cons s cs)
  let ?e = "f_div (f_sub (cs_priority s) m) t" and ?w = "lm_exp lm (f_div (f_sub (cs_priority s) m) t)"
  have s: "is_finite (cs_priority s)" "skey (cs_priority s) \<le> skey m" using Cons.prems(1) by auto
  note e = softmax_exponent[OF s(1) assms(4) s(2) assms(2,3)]
  have w: "f_le f_zero ?w" "f_le ?w f_one" and w1: "skey (cs_priority s) = skey m \<Longrightarrow> ?w = f_one"
    using assms(1) e by (auto simp: exp_laws_def)
  have k: "Suc k \<le> 2 ^ 53" using Cons.prems(5) by simp
  note acc = accumulate_unit[OF Cons.prems(2-4) k w]
  have "0 \<le> skey (f_add tot ?w)" using acc(3) Cons.prems(3) by linarith
  from Cons.IH[OF _ acc(2) this acc(5), of "acc @ [?w]"] Cons.prems(1,5) obtain ws tot' where IH:
    "softmax_weights lm m t cs (acc @ [?w]) (f_add tot ?w) = Ok ((acc @ [?w]) @ ws, tot')" "length ws = length cs"
    "is_finite tot'" "skey (f_add tot ?w) \<le> skey tot'"
    "(\<exists>s \<in> set cs. skey (cs_priority s) = skey m) \<longrightarrow> skey f_one \<le> skey tot'" by auto
  have "softmax_weights lm m t (s # cs) acc tot = Ok (acc @ (?w # ws), tot')"
    using IH(1) acc(1,2) by (simp add: ensure_finite_def Let_def)
  moreover have "skey f_one \<le> skey tot'" if "\<exists>s' \<in> set (s # cs). skey (cs_priority s') = skey m"
    using that IH(4,5) acc(4) w1 by (metis order.trans set_ConsD)
  ultimately show ?case using IH(2-4) acc(3) by (intro exI[of _ "?w # ws"] exI[of _ tot']) auto
qed simp

section \<open>The walk\<close>

definition prefix_sum :: "f64 list \<Rightarrow> nat \<Rightarrow> f64" where
  "prefix_sum ws j = foldl f_add f_zero (take (Suc j) ws)"

lemma prefix_walk_total:
  "ws \<noteq> [] \<Longrightarrow> n = k + length ws \<Longrightarrow> \<exists>j. prefix_walk n target k prefix ws = Ok j \<and> k \<le> j \<and> j < n"
proof (induction ws arbitrary: k prefix)
  case (Cons w ws)
  show ?case
  proof (cases "f_lt target (f_add prefix w) \<or> k + 1 = n")
    case True
    then show ?thesis using Cons.prems by (simp add: Let_def)
  next
    case False
    then have "ws \<noteq> []" using Cons.prems(2) by auto
    from Cons.IH[OF this, of "k + 1" "f_add prefix w"] Cons.prems(2) False show ?thesis by (auto simp: Let_def)
  qed
qed simp

lemma prefix_walk_spec:
  assumes "prefix_walk n target k prefix ws = Ok j"
  shows "k \<le> j \<and> j - k < length ws \<and> (\<forall>i < j - k. \<not> f_lt target (foldl f_add prefix (take (Suc i) ws)))
    \<and> (f_lt target (foldl f_add prefix (take (Suc (j - k)) ws)) \<or> j + 1 = n)"
  using assms
proof (induction n target k prefix ws rule: prefix_walk.induct)
  case (2 n target k prefix w ws)
  show ?case
  proof (cases "f_lt target (f_add prefix w) \<or> k + 1 = n")
    case True
    then show ?thesis using 2(2) by (auto simp: Let_def)
  next
    case False
    from 2(1)[OF refl False] 2(2) False
    have IH: "k + 1 \<le> j" "j - (k + 1) < length ws"
      "\<And>i. i < j - (k + 1) \<Longrightarrow> \<not> f_lt target (foldl f_add (f_add prefix w) (take (Suc i) ws))"
      "f_lt target (foldl f_add (f_add prefix w) (take (Suc (j - (k + 1))) ws)) \<or> j + 1 = n"
      by (auto simp: Let_def)
    have d: "j - k = Suc (j - (k + 1))" using IH(1) by simp
    show ?thesis unfolding d using IH False by (auto simp: less_Suc_eq_0_disj)
  qed
qed simp

section \<open>The choice\<close>

definition softmax_weight :: "libm \<Rightarrow> f64 \<Rightarrow> candidate_snapshot list \<Rightarrow> candidate_snapshot \<Rightarrow> f64" where
  "softmax_weight lm t cs s =
     lm_exp lm (f_div (f_sub (cs_priority s) (fold (\<lambda>s m. f_max m (cs_priority s)) cs f_neg_inf)) t)"

lemma softmax_weights_Ok:
  "softmax_weights lm m t cs acc tot = Ok (ws, tot') \<Longrightarrow>
     ws = acc @ map (\<lambda>s. lm_exp lm (f_div (f_sub (cs_priority s) m) t)) cs
     \<and> tot' = foldl f_add tot (map (\<lambda>s. lm_exp lm (f_div (f_sub (cs_priority s) m) t)) cs)"
proof (induction cs arbitrary: acc tot)
  case (Cons s cs)
  let ?w = "lm_exp lm (f_div (f_sub (cs_priority s) m) t)"
  from Cons.prems have "softmax_weights lm m t cs (acc @ [?w]) (f_add tot ?w) = Ok (ws, tot')"
    by (auto simp: res_simps Let_def)
  from Cons.IH[OF this] show ?case by simp
qed simp

lemma softmax_draw_Ok:
  assumes "softmax_draw lm G cs t r = (Ok ch, r')"
  obtains u where "next_unit_f64 G r = (Ok (u, r') :: (policy_error, f64 \<times> 'g det_rng) res)"
    "prefix_walk (length cs) (f_mul u (foldl f_add f_zero (map (softmax_weight lm t cs) cs))) 0 f_zero
       (map (softmax_weight lm t cs) cs) = Ok (sc_candidate_index ch)"
    "sc_candidate_index ch < length cs" "sc_selected ch = cs_id (cs ! sc_candidate_index ch)"
proof -
  let ?M = "fold (\<lambda>s m. f_max m (cs_priority s)) cs f_neg_inf"
  obtain ws tot where w: "softmax_weights lm ?M t cs [] f_zero = Ok (ws, tot)"
    using assms by (auto simp: softmax_draw_def bind_st_Ok)
  then have ws: "ws = map (softmax_weight lm t cs) cs" "tot = foldl f_add f_zero ws"
    using softmax_weights_Ok[OF w] by (auto simp: softmax_weight_def comp_def)
  obtain u where u: "next_unit_f64 G r = (Ok (u, r') :: (policy_error, f64 \<times> 'g det_rng) res)"
    and walk: "bind_res (prefix_walk (length cs) (f_mul u tot) 0 f_zero ws) (\<lambda>k.
         bind_res (index_vec cs k) (\<lambda>s. Ok \<lparr>sc_selected = cs_id s, sc_candidate_index = k\<rparr>)) = Ok ch"
    using assms w by (auto simp: softmax_draw_def bind_st_Ok draw_unit_def split: if_splits res.splits prod.splits)
  from walk show thesis using that[OF u] ws by (auto simp: res_simps)
qed

lemma softmax_select_from_Ok:
  assumes "softmax_select_from lm G cs t r = (Ok ch, r')"
  shows "is_finite t" "cs \<noteq> []" "\<forall>s \<in> set cs. is_finite (cs_priority s)"
    "if f_le t ARGMAX_TEMPERATURE then argmax_choice cs = Ok ch \<and> r' = r else softmax_draw lm G cs t r = (Ok ch, r')"
  using assms
  by (auto simp: softmax_select_from_def bind_st_Ok validate_temperature_def validate_priorities_def for_res_Ok_iff
      res_simps split: if_splits)

lemma softmax_select_from_picks:
  assumes "softmax_select_from lm G cs t r = (Ok ch, r')"
  shows "sc_candidate_index ch < length cs \<and> sc_selected ch = cs_id (cs ! sc_candidate_index ch)"
proof (cases "f_le t ARGMAX_TEMPERATURE")
  case True
  then show ?thesis using softmax_select_from_Ok[OF assms] argmax_choice_spec[of cs] by (auto simp: first_max_def)
next
  case False
  then show ?thesis using softmax_select_from_Ok(4)[OF assms] softmax_draw_Ok[of lm G cs t r ch r'] by auto
qed

lemma draw_unit_total:
  assumes "unat (dr_draws r) + 1 < 2 ^ 64"
  shows "\<exists>u r'. draw_unit G r = (Ok u, r') \<and> unat (dr_draws r') = unat (dr_draws r) + 1"
  using assms by (simp add: draw_unit_def next_unit_f64_def rng_next_u64_total Let_def unat_add_no_overflow)

lemma softmax_select_from_total:
  assumes "exp_laws lm" "is_finite t" "0 < skey t" "cs \<noteq> []" "\<forall>s \<in> set cs. is_finite (cs_priority s)"
    "length cs \<le> 2 ^ 53" "unat (dr_draws r) + 1 < 2 ^ 64"
  shows "\<exists>ch r'. softmax_select_from lm G cs t r = (Ok ch, r')
    \<and> unat (dr_draws r') = unat (dr_draws r) + (if f_le t ARGMAX_TEMPERATURE then 0 else 1)"
proof -
  have valid: "validate_temperature t = Ok ()" "validate_priorities cs = Ok ()"
    using assms(2-5) by (auto simp: validate_temperature_def validate_priorities_def f_le_def for_res_Ok_iff ensure_finite_def)
  show ?thesis
  proof (cases "f_le t ARGMAX_TEMPERATURE")
    case True
    then show ?thesis using valid argmax_choice_spec[OF assms(5,4)] by (auto simp: softmax_select_from_def)
  next
    case False
    let ?M = "fold (\<lambda>s m. f_max m (cs_priority s)) cs f_neg_inf"
    obtain s where s: "s \<in> set cs" "?M = cs_priority s" "\<forall>s' \<in> set cs. skey (cs_priority s') \<le> skey (cs_priority s)"
      using max_priority_member[OF assms(5,4)] .
    have z: "0 \<le> skey f_zero" "skey f_zero \<le> skey (f64_of_nat 0)" by (simp_all add: f64_of_nat_props(1))
    obtain ws tot where w: "softmax_weights lm ?M t cs [] f_zero = Ok (ws, tot)" "length ws = length cs" "skey f_one \<le> skey tot"
      using softmax_weights_total[OF assms(1-3), of ?M cs f_zero 0 "[]"] assms(5,6) s z by auto
    have "\<not> f_le tot f_zero" using w(3) unit_key(1) by (simp add: f_le_def)
    moreover obtain u r' where u: "draw_unit G r = (Ok u, r')" "unat (dr_draws r') = unat (dr_draws r) + 1"
      using draw_unit_total[OF assms(7)] by blast
    moreover obtain j where "prefix_walk (length cs) (f_mul u tot) 0 f_zero ws = Ok j" "j < length cs"
      using prefix_walk_total[of ws "length cs" 0 "f_mul u tot" f_zero] w(2) assms(4) by (cases "ws = []") auto
    ultimately show ?thesis using valid False w(1)
      by (auto simp: softmax_select_from_def softmax_draw_def index_vec_def Let_def)
  qed
qed

interpretation softmax_pol: selection_policy lm "softmax_select lm G" for lm G
  by unfold_locales (auto simp: softmax_select_def dest!: softmax_select_from_picks)

section \<open>Properties\<close>

text \<open>C21: How the softmax policy chooses from a candidate list. At or below the argmax temperature it takes
  the first candidate of greatest priority and draws nothing. Above it, it draws one number \<open>u\<close>, gives each
  candidate the weight \<open>exp ((p - max) / T)\<close>, and takes the first candidate whose prefix sum of weights
  exceeds \<open>u\<close> times the total, or else the last candidate.\<close>

theorem softmax_choice:
  assumes "softmax_select_from lm G cs t r = (Ok ch, r')"
  shows "sc_selected ch = cs_id (cs ! sc_candidate_index ch) \<and> sc_candidate_index ch < length cs
    \<and> (if f_le t ARGMAX_TEMPERATURE then r' = r \<and> first_max cs_priority cs (sc_candidate_index ch)
       else \<exists>u. next_unit_f64 G r = (Ok (u, r') :: (policy_error, f64 \<times> 'g det_rng) res)
         \<and> (let ws = map (softmax_weight lm t cs) cs; target = f_mul u (foldl f_add f_zero ws)
            in (\<forall>i < sc_candidate_index ch. \<not> f_lt target (prefix_sum ws i))
               \<and> (f_lt target (prefix_sum ws (sc_candidate_index ch)) \<or> sc_candidate_index ch + 1 = length cs)))"
proof (cases "f_le t ARGMAX_TEMPERATURE")
  case True
  then show ?thesis using softmax_select_from_Ok[OF assms] argmax_choice_spec[of cs] by (auto simp: first_max_def)
next
  case False
  then have "softmax_draw lm G cs t r = (Ok ch, r')" using softmax_select_from_Ok(4)[OF assms] by simp
  from softmax_draw_Ok[OF this] obtain u where u: "next_unit_f64 G r = (Ok (u, r') :: (policy_error, f64 \<times> 'g det_rng) res)"
    and walk: "prefix_walk (length cs) (f_mul u (foldl f_add f_zero (map (softmax_weight lm t cs) cs))) 0 f_zero
       (map (softmax_weight lm t cs) cs) = Ok (sc_candidate_index ch)" by blast
  show ?thesis
    using False u prefix_walk_spec[OF walk] softmax_select_from_picks[OF assms] by (auto simp: prefix_sum_def Let_def)
qed

lemma softmax_select_chooses:
  assumes "context_ok c" "validate_selection_weights (pc_selection c) = Ok ()" "candidate_ids c \<noteq> []"
    "length (candidate_ids c) \<le> 2 ^ 53" "log_laws lm" "exp_laws lm" "weights_bounded c" "unat (dr_draws r) + 1 < 2 ^ 64"
  shows "\<exists>ch r'. softmax_select lm G SoftmaxPolicy c r = (Ok ch, r')
    \<and> sc_selected ch \<in> frontier_ids (pc_frontier c) \<and> candidate_in (pc_tree c) (sc_selected ch)
    \<and> unat (dr_draws r') \<le> unat (dr_draws r) + 1"
proof -
  obtain cs where cs: "candidate_snapshots lm c = Ok cs" using snapshots_total[OF assms(1-5,7)] by blast
  have len: "length cs = length (candidate_ids c)" "cs \<noteq> []" "\<forall>s \<in> set cs. is_finite (cs_priority s)"
    using snapshots_Ok[OF assms(1) cs] by (metis in_set_conv_nth)+
  have "is_finite (temperature (pc_selection c))" "0 < skey (temperature (pc_selection c))"
    using assms(2) by (auto simp: weights_Ok)
  from softmax_select_from_total[OF assms(6) this len(2,3) _ assms(8), of G] len(1) assms(4)
  obtain ch r' where sel: "softmax_select_from lm G cs (temperature (pc_selection c)) r = (Ok ch, r')"
    "unat (dr_draws r') \<le> unat (dr_draws r) + 1" by (auto split: if_splits)
  then have "softmax_select lm G SoftmaxPolicy c r = (Ok ch, r')" by (simp add: softmax_select_def cs)
  with sel(2) softmax_pol.selects_live[OF assms(1) this] show ?thesis by blast
qed

text \<open>C32: The softmax policy always chooses: with valid, bounded weights, at least one candidate, the laws
  of \<open>log\<close> and \<open>exp\<close> and a draw left, selection returns a live frontier node. No weight overflows, the total
  weight is positive, and the unreachable end of the walk is not reached.\<close>

theorem softmax_select_total:
  assumes "context_ok c" "validate_selection_weights (pc_selection c) = Ok ()" "candidate_ids c \<noteq> []"
    "length (candidate_ids c) \<le> 2 ^ 53" "log_laws lm" "exp_laws lm" "weights_bounded c" "unat (dr_draws r) + 1 < 2 ^ 64"
  shows "\<exists>ch r'. softmax_select lm G SoftmaxPolicy c r = (Ok ch, r')
    \<and> sc_selected ch \<in> frontier_ids (pc_frontier c) \<and> candidate_in (pc_tree c) (sc_selected ch)
    \<and> unat (dr_draws r') \<le> unat (dr_draws r) + 1"
  by (rule softmax_select_chooses[OF assms])

theorem softmax_choice_witness:
  "\<exists>cs ch r'. softmax_select_from example_libm counter_generator cs f_one
      (rng_selection (\<lambda>_. replicate 32 0) counter_generator 5 1) = (Ok ch, r')
     \<and> sc_selected ch = cs_id (cs ! sc_candidate_index ch) \<and> sc_candidate_index ch < 2"
proof -
  obtain cs where cs: "candidate_snapshots example_libm example_context = Ok cs" using example_snapshots by blast
  have len: "length cs = 2" "\<forall>s \<in> set cs. is_finite (cs_priority s)"
    using snapshots_Ok[OF example_context_ok cs] example_candidate_ids(2) by (metis in_set_conv_nth)+
  let ?r = "rng_selection (\<lambda>_. replicate 32 0) counter_generator 5 1"
  have d: "unat (dr_draws ?r) + 1 < 2 ^ 64" by (simp add: rng_selection_def rng_new_def rng_from_spec_def)
  obtain ch r' where ch: "softmax_select_from example_libm counter_generator cs f_one ?r = (Ok ch, r')"
    using softmax_select_from_total[OF example_laws(2) f_one_finite unit_key(1) _ len(2) _ d] len(1) by fastforce
  from softmax_choice[OF ch] show ?thesis using ch len(1) by (intro exI[of _ cs] exI[of _ ch] exI[of _ r']) simp
qed

theorem softmax_select_total_witness:
  "\<exists>ch r'. softmax_select example_libm counter_generator SoftmaxPolicy example_context
      (rng_selection (\<lambda>_. replicate 32 0) counter_generator 5 1) = (Ok ch, r') \<and> sc_selected ch \<in> {ROOT, NodeId 1}"
proof -
  have h: "validate_selection_weights (pc_selection example_context) = Ok ()" "candidate_ids example_context \<noteq> []"
    "length (candidate_ids example_context) \<le> 2 ^ 53"
    using example_weights example_candidate_ids by (auto simp: example_context_def)
  have d: "unat (dr_draws (rng_selection (\<lambda>_. replicate 32 0) counter_generator 5 1)) + 1 < 2 ^ 64"
    by (simp add: rng_selection_def rng_new_def rng_from_spec_def)
  from softmax_select_total[OF example_context_ok h example_laws example_bounded d, of counter_generator]
  show ?thesis using context_candidates(4)[OF example_context_ok] unfolding example_candidate_ids by blast
qed

end
