(* ===== verification/Ucb_Policy.thy ===== *)
theory Ucb_Policy
  imports Policy
begin

text \<open>
  The UCB policy (\<open>crates/orch-core/src/policy/ucb.rs\<close>): the candidate of greatest priority plus
  \<open>c * sqrt (log N / (visits + 1))\<close>, the smallest id among equals. It draws nothing.
\<close>

record ucb_policy =
  up_total_expansions :: u64

definition ucb_policy_new :: ucb_policy where
  "ucb_policy_new = \<lparr>up_total_expansions = 0\<rparr>"

definition ucb_with_total_expansions :: "u64 \<Rightarrow> ucb_policy" where
  "ucb_with_total_expansions n = \<lparr>up_total_expansions = n\<rparr>"

definition ucb_set_total_expansions :: "ucb_policy \<Rightarrow> u64 \<Rightarrow> ucb_policy" where
  "ucb_set_total_expansions p n = p\<lparr>up_total_expansions := n\<rparr>"

definition ucb_kind :: "ucb_policy \<Rightarrow> policy_kind" where
  "ucb_kind p = Ucb"

definition validate_ucb_c :: "f64 \<Rightarrow> (policy_error, unit) res" where
  "validate_ucb_c k =
     (if \<not> is_finite k \<or> f_lt k f_zero then Err (PolicyInvalidWeight ''selection.ucb_c'' k) else Ok ())"

definition exploration :: "libm \<Rightarrow> candidate_snapshot \<Rightarrow> u64 \<Rightarrow> f64 \<Rightarrow> f64" where
  "exploration lm s total_expansions k =
     (let effective_total = f64_of_nat (unat (max total_expansions 2));
          visit_denominator = f64_of_nat (unat (saturating_add (ucast (cs_visits s) :: u64) 1))
      in f_mul k (lm_sqrt lm (f_div (lm_log lm effective_total) visit_denominator)))"

definition ucb_value :: "libm \<Rightarrow> candidate_snapshot \<Rightarrow> u64 \<Rightarrow> f64 \<Rightarrow> (policy_error, f64) res" where
  "ucb_value lm s total_expansions k =
     bind_res (validate_ucb_c k) (\<lambda>_.
     bind_res (ensure_finite ''candidate.priority'' (cs_priority s)) (\<lambda>_.
     let e = exploration lm s total_expansions k in
     bind_res (ensure_finite ''ucb.exploration'' e) (\<lambda>_.
     let value = f_add (cs_priority s) e in
     bind_res (ensure_finite ''ucb.value'' value) (\<lambda>_. Ok value))))"

text \<open>The loop over the candidates after the first, from index \<open>k\<close>.\<close>

fun ucb_loop ::
  "(candidate_snapshot \<Rightarrow> (policy_error, f64) res) \<Rightarrow> nat \<Rightarrow> candidate_snapshot list
     \<Rightarrow> nat \<times> candidate_snapshot \<times> f64 \<Rightarrow> (policy_error, nat \<times> candidate_snapshot \<times> f64) res" where
  "ucb_loop val k [] best = Ok best"
| "ucb_loop val k (s # cs) (bk, b, bv) =
     bind_res (val s) (\<lambda>v.
     ucb_loop val (k + 1) cs
       (if f_lt bv v \<or> f_eq v bv \<and> cs_id s < cs_id b then (k, s, v) else (bk, b, bv)))"

definition ucb_select_from ::
  "libm \<Rightarrow> candidate_snapshot list \<Rightarrow> u64 \<Rightarrow> f64 \<Rightarrow> (policy_error, selection_choice) res" where
  "ucb_select_from lm cs total_expansions k = (case cs of
     [] \<Rightarrow> Err EmptyCandidateSet
   | s # rest \<Rightarrow>
       bind_res (ucb_value lm s total_expansions k) (\<lambda>v.
       bind_res (ucb_loop (\<lambda>s. ucb_value lm s total_expansions k) 1 rest (0, s, v)) (\<lambda>(j, b, _).
       Ok \<lparr>sc_selected = cs_id b, sc_candidate_index = j\<rparr>)))"

definition ucb_select ::
  "libm \<Rightarrow> ucb_policy \<Rightarrow> policy_context \<Rightarrow> 'r \<Rightarrow> (policy_error, selection_choice) res \<times> 'r" where
  "ucb_select lm p c r =
     (bind_res (candidate_snapshots lm c) (\<lambda>cs. ucb_select_from lm cs (up_total_expansions p) (ucb_c (pc_selection c))), r)"

section \<open>The best candidate\<close>

text \<open>\<open>ucb_best f cs j\<close>: candidate \<open>j\<close> has the greatest value and, among the equals, the smallest id.\<close>

definition ucb_best :: "(candidate_snapshot \<Rightarrow> f64) \<Rightarrow> candidate_snapshot list \<Rightarrow> nat \<Rightarrow> bool" where
  "ucb_best f cs j \<longleftrightarrow> j < length cs
     \<and> (\<forall>i < length cs. f_lt (f (cs ! i)) (f (cs ! j)) \<or> f_eq (f (cs ! i)) (f (cs ! j)) \<and> cs_id (cs ! j) \<le> cs_id (cs ! i))"

lemma ucb_value_Ok:
  "ucb_value lm s n k = Ok v \<longleftrightarrow> is_finite k \<and> \<not> f_lt k f_zero \<and> is_finite (cs_priority s)
     \<and> is_finite (exploration lm s n k) \<and> v = f_add (cs_priority s) (exploration lm s n k) \<and> is_finite v"
  by (auto simp: ucb_value_def validate_ucb_c_def res_simps Let_def split: if_splits)

lemma ucb_loop_best:
  assumes "ucb_loop val (length pre) cs (j, pre ! j, f (pre ! j)) = Ok (j', b, v)" "ucb_best f pre j"
    "\<And>s. s \<in> set pre \<Longrightarrow> is_finite (f s)" "\<And>s v. val s = Ok v \<Longrightarrow> v = f s \<and> is_finite v"
  shows "ucb_best f (pre @ cs) j' \<and> b = (pre @ cs) ! j' \<and> (\<forall>s \<in> set cs. val s = Ok (f s))"
  using assms(1-3)
proof (induction cs arbitrary: pre j)
  case Nil
  then show ?case by (auto simp: ucb_best_def)
next
  case (Cons s cs)
  let ?pre = "pre @ [s]"
  have j: "j < length pre" using Cons.prems(2) by (simp add: ucb_best_def)
  have v: "val s = Ok (f s)" using Cons.prems(1) assms(4) by (cases "val s") auto
  then have fs: "is_finite (f s)" using assms(4) by blast
  let ?j = "if f_lt (f (pre ! j)) (f s) \<or> f_eq (f s) (f (pre ! j)) \<and> cs_id s < cs_id (pre ! j) then length pre else j"
  have loop: "ucb_loop val (length ?pre) cs (?j, ?pre ! ?j, f (?pre ! ?j)) = Ok (j', b, v)"
    using Cons.prems(1) v j by (auto simp: nth_append split: if_splits)
  have fin: "is_finite (f s)" "\<And>i. i < length pre \<Longrightarrow> is_finite (f (pre ! i))" using Cons.prems(3) fs by auto
  have best: "\<And>i. i < length pre \<Longrightarrow> skey (f (pre ! i)) < skey (f (pre ! j)) \<or>
      skey (f (pre ! i)) = skey (f (pre ! j)) \<and> cs_id (pre ! j) \<le> cs_id (pre ! i)"
    using Cons.prems(2) by (auto simp: ucb_best_def f_lt_def f_eq_def)
  have "ucb_best f ?pre ?j"
    using j fin fin(2)[OF j] best
    by (auto simp: ucb_best_def f_lt_def f_eq_def nth_append less_Suc_eq) (force dest: best)+
  moreover have "is_finite (f s')" if "s' \<in> set ?pre" for s' using that Cons.prems(3) fs by auto
  ultimately have "ucb_best f (?pre @ cs) j' \<and> b = (?pre @ cs) ! j' \<and> (\<forall>s \<in> set cs. val s = Ok (f s))"
    by (rule Cons.IH[OF loop])
  then show ?case using v by simp
qed

lemma ucb_select_from_best:
  assumes "ucb_select_from lm cs n k = Ok ch"
  shows "ucb_best (\<lambda>s. f_add (cs_priority s) (exploration lm s n k)) cs (sc_candidate_index ch)"
    "sc_selected ch = cs_id (cs ! sc_candidate_index ch)"
    "\<forall>s \<in> set cs. ucb_value lm s n k = Ok (f_add (cs_priority s) (exploration lm s n k))"
proof -
  let ?f = "\<lambda>s. f_add (cs_priority s) (exploration lm s n k)"
  obtain s rest b v where cs: "cs = s # rest" and s: "ucb_value lm s n k = Ok (?f s)"
    and loop: "ucb_loop (\<lambda>s. ucb_value lm s n k) 1 rest (0, s, ?f s) = Ok (sc_candidate_index ch, b, v)"
    and sel: "sc_selected ch = cs_id b"
    using assms by (auto simp: ucb_select_from_def res_simps ucb_value_Ok split: list.splits)
  have fin: "is_finite (?f s)" using s by (simp add: ucb_value_Ok)
  then have "ucb_best ?f [s] 0" by (simp add: ucb_best_def f_eq_def)
  then have "ucb_best ?f ([s] @ rest) (sc_candidate_index ch) \<and> b = ([s] @ rest) ! sc_candidate_index ch
      \<and> (\<forall>s \<in> set rest. ucb_value lm s n k = Ok (?f s))"
    by (rule ucb_loop_best[rotated]) (use loop fin in \<open>auto simp: ucb_value_Ok\<close>)
  then show "ucb_best ?f cs (sc_candidate_index ch)" "sc_selected ch = cs_id (cs ! sc_candidate_index ch)"
    "\<forall>s \<in> set cs. ucb_value lm s n k = Ok (?f s)"
    using cs sel s by simp_all
qed

lemma ucb_loop_total:
  "(\<And>s. s \<in> set cs \<Longrightarrow> \<exists>v. val s = Ok v) \<Longrightarrow> \<exists>b. ucb_loop val k cs best = Ok b"
proof (induction cs arbitrary: k best)
  case Nil
  then show ?case by (cases best) simp
next
  case (Cons s cs)
  obtain v where "val s = Ok v" using Cons.prems by auto
  then show ?case using Cons.IH Cons.prems by (cases best) auto
qed

lemma ucb_select_from_total:
  assumes "cs \<noteq> []" "\<And>s. s \<in> set cs \<Longrightarrow> \<exists>v. ucb_value lm s n k = Ok v"
  shows "\<exists>ch. ucb_select_from lm cs n k = Ok ch"
proof (cases cs)
  case (Cons s rest)
  obtain v where v: "ucb_value lm s n k = Ok v" using assms(2) Cons by auto
  obtain b where "ucb_loop (\<lambda>s. ucb_value lm s n k) 1 rest (0, s, v) = Ok b"
    using ucb_loop_total[of rest "\<lambda>s. ucb_value lm s n k"] assms(2) Cons by (meson list.set_intros(2))
  then show ?thesis using v Cons by (cases b) (simp add: ucb_select_from_def)
qed (use assms in simp)

section \<open>No overflow\<close>

lemma of_nat_ge_one:
  assumes "0 < n" "n \<le> 2 ^ 64"
  shows "is_finite (f64_of_nat n)" "skey f_one \<le> skey (f64_of_nat n)"
proof -
  have "fval (f64_of_nat 1) = 2 ^ 1074" using f64_of_nat_exact(1)[of 1] by simp
  also have "\<dots> = fval f_one" unfolding fval_def mag_f_one(1) scaled_one using mag_f_one(2) by simp
  finally have "fval f_one \<le> fval (f64_of_nat 1)" by simp
  then have "skey f_one \<le> skey (f64_of_nat 1)" by (simp only: fval_le_iff)
  also have "\<dots> \<le> skey (f64_of_nat n)" using assms(1) by (intro f64_of_nat_mono) simp
  finally show "skey f_one \<le> skey (f64_of_nat n)" .
qed (rule f64_of_nat_bound(2)[OF assms(2)])

lemma exploration_bound:
  assumes "log_laws lm" "mag_le 2022 k" "sqrt_laws lm"
  shows "mag_le 2032 (exploration lm s n k)"
proof -
  let ?t = "f64_of_nat (unat (max n 2))" and ?d = "f64_of_nat (unat (saturating_add (ucast (cs_visits s) :: u64) 1))"
  have lt: "unat w \<le> 2 ^ 64" for w :: u64 using unsigned_less[of w, where 'a = nat] by simp
  have "0 < unat (max n 2)" by (simp add: max_def word_le_nat_alt)
  note t = of_nat_ge_one[OF this lt]
  have "0 < unat (saturating_add (ucast (cs_visits s) :: u64) 1)" by (simp add: checked_simps)
  note d = of_nat_ge_one[OF this lt]
  have log: "f_le f_zero (lm_log lm ?t)" "f_le (lm_log lm ?t) LOG_LIMIT"
    using assms(1) t by (auto simp: log_laws_def f_le_def)
  have lim: "is_finite LOG_LIMIT" "skey f_one \<le> skey LOG_LIMIT"
    unfolding is_finite_def limit_mags(3) limit_mags(1) by (simp_all add: skey_def mag_f_one inf_mag_def)
  have fin: "is_finite (lm_log lm ?t)" using log lim by (auto simp: f_le_def is_finite_skey)
  have pos: "0 \<le> skey (lm_log lm ?t)" "skey (lm_log lm ?t) \<le> skey LOG_LIMIT" using log by (auto simp: f_le_def)
  note q = f_div_ge_one[OF fin pos(1) d]
  have "f_le f_zero (f_div (lm_log lm ?t) ?d)" using q by (simp add: f_le_def)
  then have "f_le f_zero (lm_sqrt lm (f_div (lm_log lm ?t) ?d)) \<and> (f_le (lm_sqrt lm (f_div (lm_log lm ?t) ?d)) (f_div (lm_log lm ?t) ?d)
      \<or> f_le (lm_sqrt lm (f_div (lm_log lm ?t) ?d)) f_one)" using assms(3) q(3) unfolding sqrt_laws_def by blast
  then have "\<bar>skey (lm_sqrt lm (f_div (lm_log lm ?t) ?d))\<bar> \<le> skey LOG_LIMIT"
    using q pos(2) lim(2) by (auto simp: f_le_def)
  then have "mag_le 1032 (lm_sqrt lm (f_div (lm_log lm ?t) ?d))" by (rule mag_le_key) (rule limit_mags)
  from mag_le_mul[OF assms(2) this] show ?thesis by (simp add: exploration_def Let_def)
qed

lemma ucb_value_total:
  assumes "log_laws lm" "is_finite k" "0 \<le> skey k" "mag_le 2022 k" "mag_le 2035 (cs_priority s)" "sqrt_laws lm"
  shows "\<exists>v. ucb_value lm s n k = Ok v"
proof -
  note e = exploration_bound[OF assms(1,4,6), of s n]
  have "mag_le 2036 (f_add (cs_priority s) (exploration lm s n k))"
    using mag_le_add[OF assms(5) mag_le_mono[OF e, of 2035]] by simp
  then show ?thesis
    using assms(2,3) mag_le_finite[OF assms(5)] mag_le_finite[OF e] mag_le_finite[of 2036]
    by (auto simp: ucb_value_Ok f_lt_def)
qed

interpretation ucb_pol: selection_policy lm "ucb_select lm" for lm
  by unfold_locales
    (auto simp: ucb_select_def ucb_best_def dest: ucb_select_from_best(1) ucb_select_from_best(2))

section \<open>Properties\<close>

text \<open>C22: The UCB policy chooses, without a draw, the candidate with the greatest value of priority plus
  exploration bonus, and among candidates of equal value the one with the smallest id.\<close>

theorem ucb_choice:
  assumes "candidate_snapshots lm c = Ok cs" "ucb_select lm p c r = (Ok ch, r')"
  shows "r' = r \<and> sc_candidate_index ch < length cs \<and> sc_selected ch = cs_id (cs ! sc_candidate_index ch)
    \<and> (\<exists>v. ucb_value lm (cs ! sc_candidate_index ch) (up_total_expansions p) (ucb_c (pc_selection c)) = Ok v
      \<and> (\<forall>s \<in> set cs. \<exists>w. ucb_value lm s (up_total_expansions p) (ucb_c (pc_selection c)) = Ok w
          \<and> (f_lt w v \<or> f_eq w v \<and> sc_selected ch \<le> cs_id s)))"
proof -
  let ?v = "\<lambda>s. ucb_value lm s (up_total_expansions p) (ucb_c (pc_selection c))"
  have sel: "ucb_select_from lm cs (up_total_expansions p) (ucb_c (pc_selection c)) = Ok ch" "r' = r"
    using assms by (auto simp: ucb_select_def)
  note b = ucb_select_from_best[OF sel(1)]
  have j: "sc_candidate_index ch < length cs" using b(1) by (simp add: ucb_best_def)
  then have "?v (cs ! sc_candidate_index ch) = Ok (f_add (cs_priority (cs ! sc_candidate_index ch))
      (exploration lm (cs ! sc_candidate_index ch) (up_total_expansions p) (ucb_c (pc_selection c))))"
    using b(3) by simp
  moreover have "\<exists>w. ?v s = Ok w \<and> (f_lt w (f_add (cs_priority (cs ! sc_candidate_index ch))
      (exploration lm (cs ! sc_candidate_index ch) (up_total_expansions p) (ucb_c (pc_selection c))))
      \<or> f_eq w (f_add (cs_priority (cs ! sc_candidate_index ch))
      (exploration lm (cs ! sc_candidate_index ch) (up_total_expansions p) (ucb_c (pc_selection c))))
        \<and> sc_selected ch \<le> cs_id s)" if "s \<in> set cs" for s
    using that b by (auto simp: ucb_best_def in_set_conv_nth)
  ultimately show ?thesis using sel(2) j b(2) by blast
qed

text \<open>The UCB policy always chooses: with valid, bounded weights, at least one candidate and the laws of
  \<open>log\<close> and \<open>sqrt\<close>, selection returns a live frontier node and leaves the random stream untouched.\<close>

theorem ucb_select_total:
  assumes "context_ok c" "validate_selection_weights (pc_selection c) = Ok ()" "candidate_ids c \<noteq> []"
    "length (candidate_ids c) \<le> 2 ^ 53" "log_laws lm" "weights_bounded c" "f_le (ucb_c (pc_selection c)) WEIGHT_LIMIT"
    "sqrt_laws lm"
  shows "\<exists>ch. ucb_select lm p c r = (Ok ch, r)
    \<and> sc_selected ch \<in> frontier_ids (pc_frontier c) \<and> candidate_in (pc_tree c) (sc_selected ch)"
proof -
  obtain cs where cs: "candidate_snapshots lm c = Ok cs" "\<forall>s \<in> set cs. mag_le 2035 (cs_priority s)"
    using snapshots_total[OF assms(1-6)] by blast
  have ne: "cs \<noteq> []" using snapshots_Ok[OF assms(1) cs(1)] by metis
  have k: "is_finite (ucb_c (pc_selection c))" "0 \<le> skey (ucb_c (pc_selection c))" using assms(2) by (auto simp: weights_Ok)
  obtain ch where "ucb_select_from lm cs (up_total_expansions p) (ucb_c (pc_selection c)) = Ok ch"
    using ucb_select_from_total[OF ne] ucb_value_total[OF assms(5) k weight_mag[OF k(2) assms(7)] _ assms(8)] cs(2) by metis
  then have sel: "ucb_select lm p c r = (Ok ch, r)" by (simp add: ucb_select_def cs(1))
  from ucb_pol.selects_live[OF assms(1) this] sel show ?thesis by blast
qed

theorem ucb_select_total_witness:
  "\<exists>ch. ucb_select example_libm ucb_policy_new example_context () = (Ok ch, ()) \<and> sc_selected ch \<in> {ROOT, NodeId 1}"
proof -
  have h: "validate_selection_weights (pc_selection example_context) = Ok ()" "candidate_ids example_context \<noteq> []"
    "length (candidate_ids example_context) \<le> 2 ^ 53" "f_le (ucb_c (pc_selection example_context)) WEIGHT_LIMIT"
    using example_weights example_candidate_ids unit_key
    by (auto simp: example_context_def example_selection_def f_le_def)
  obtain ch where "ucb_select example_libm ucb_policy_new example_context () = (Ok ch, ())"
    "sc_selected ch \<in> set (candidate_ids example_context)"
    using ucb_select_total[OF example_context_ok h(1-3) example_laws(1) example_bounded h(4) example_sqrt_laws, of ucb_policy_new "()"]
    unfolding context_candidates(4)[OF example_context_ok] by blast
  then show ?thesis unfolding example_candidate_ids by blast
qed

theorem ucb_choice_witness:
  "\<exists>cs ch v. candidate_snapshots example_libm example_context = Ok cs
     \<and> ucb_select example_libm ucb_policy_new example_context () = (Ok ch, ())
     \<and> ucb_value example_libm (cs ! sc_candidate_index ch) 0 f_one = Ok v
     \<and> (\<forall>s \<in> set cs. \<exists>w. ucb_value example_libm s 0 f_one = Ok w \<and> (f_lt w v \<or> f_eq w v \<and> sc_selected ch \<le> cs_id s))"
proof -
  obtain cs where cs: "candidate_snapshots example_libm example_context = Ok cs" "\<forall>s \<in> set cs. mag_le 2035 (cs_priority s)"
    using snapshots_total[OF example_context_ok _ _ _ example_laws(1) example_bounded] example_weights example_candidate_ids
    by (force simp: example_context_def)
  have p: "up_total_expansions ucb_policy_new = 0" "ucb_c (pc_selection example_context) = f_one"
    by (simp_all add: ucb_policy_new_def example_context_def example_selection_def)
  have ne: "cs \<noteq> []" using snapshots_Ok[OF example_context_ok cs(1)] by metis
  have w: "mag_le 2022 f_one" using unit_key by (intro weight_mag) (simp_all add: f_le_def)
  have k: "is_finite f_one" "0 \<le> skey f_one" using unit_key by simp_all
  obtain ch where "ucb_select_from example_libm cs 0 f_one = Ok ch"
    using ucb_select_from_total[OF ne] ucb_value_total[OF example_laws(1) k w _ example_sqrt_laws] cs(2) by metis
  then have sel: "ucb_select example_libm ucb_policy_new example_context () = (Ok ch, ())"
    by (simp add: ucb_select_def cs(1) p)
  note c = ucb_choice[OF cs(1) sel, unfolded p]
  show ?thesis by (rule exI[of _ cs], rule exI[of _ ch]) (use c cs(1) sel in blast)
qed

end
