(* ===== verification/Staged_Policy.thy ===== *)
theory Staged_Policy
  imports Softmax_Policy Ucb_Policy
begin

text \<open>
  The staged policy (\<open>crates/orch-core/src/policy/staged.rs\<close>): one draw decides whether to choose among
  the candidates of the most advanced stage of the tree or among the others, and the inner policy
  chooses within that set. An empty set falls back to the other.
\<close>

record staged_policy =
  stp_total_expansions :: u64

definition staged_policy_new :: staged_policy where
  "staged_policy_new = \<lparr>stp_total_expansions = 0\<rparr>"

definition staged_with_total_expansions :: "u64 \<Rightarrow> staged_policy" where
  "staged_with_total_expansions n = \<lparr>stp_total_expansions = n\<rparr>"

definition staged_set_total_expansions :: "staged_policy \<Rightarrow> u64 \<Rightarrow> staged_policy" where
  "staged_set_total_expansions p n = p\<lparr>stp_total_expansions := n\<rparr>"

definition staged_kind :: "staged_policy \<Rightarrow> policy_kind" where
  "staged_kind p = Staged"

record staged_selection_params =
  sp_target_stage :: stage
  sp_inner :: policy_kind
  sp_epsilon_regress :: f64
  sp_temperature :: f64
  sp_ucb_c :: f64
  sp_total_expansions :: u64

definition staged_selection_params_new ::
  "stage \<Rightarrow> policy_kind \<Rightarrow> f64 \<Rightarrow> f64 \<Rightarrow> f64 \<Rightarrow> u64 \<Rightarrow> staged_selection_params" where
  "staged_selection_params_new st k e t u n = \<lparr>sp_target_stage = st, sp_inner = k, sp_epsilon_regress = e,
     sp_temperature = t, sp_ucb_c = u, sp_total_expansions = n\<rparr>"

text \<open>The loop over all ids of the tree.\<close>

fun target_stage_loop :: "tree \<Rightarrow> nat list \<Rightarrow> stage option \<Rightarrow> stage option" where
  "target_stage_loop t [] target = target"
| "target_stage_loop t (raw # raws) target =
     (case tree_get t (NodeId (word_of_nat raw)) of
        None \<Rightarrow> target_stage_loop t raws target
      | Some r \<Rightarrow> target_stage_loop t raws
          (Some (case target of None \<Rightarrow> nr_stage r | Some current \<Rightarrow> max current (nr_stage r))))"

definition target_stage_from_tree :: "tree \<Rightarrow> (policy_error, stage) res" where
  "target_stage_from_tree t =
     ok_or (target_stage_loop t [0..<unat (node_id_get (next_id t))] None) EmptyCandidateSet"

definition validate_staged_config :: "policy_kind \<Rightarrow> f64 \<Rightarrow> (policy_error, unit) res" where
  "validate_staged_config k e =
     (if k = Staged then Err (PolicyInvalidConfig ''selection.staged.inner'')
      else if \<not> is_finite e \<or> \<not> (f_le f_zero e \<and> f_le e f_one)
      then Err (PolicyInvalidWeight ''selection.staged.epsilon_regress'' e)
      else Ok ())"

text \<open>An entry keeps the index of the candidate in the full list.\<close>

type_synonym partition_entry = "nat \<times> candidate_snapshot"

record partitioned_candidates =
  pa_leading :: "partition_entry list"
  pa_regress :: "partition_entry list"

fun partition_loop :: "stage \<Rightarrow> partition_entry list \<Rightarrow> partitioned_candidates \<Rightarrow> partitioned_candidates" where
  "partition_loop target [] p = p"
| "partition_loop target (e # es) p =
     partition_loop target es
       (if cs_stage (snd e) = target then p\<lparr>pa_leading := pa_leading p @ [e]\<rparr>
        else p\<lparr>pa_regress := pa_regress p @ [e]\<rparr>)"

definition partition_candidates :: "candidate_snapshot list \<Rightarrow> stage \<Rightarrow> partitioned_candidates" where
  "partition_candidates cs target = partition_loop target (enumerate 0 cs) \<lparr>pa_leading = [], pa_regress = []\<rparr>"

fun choose_partition :: "bool \<Rightarrow> partitioned_candidates \<Rightarrow> (policy_error, partition_entry list) res" where
  "choose_partition regress_mix p = (case (regress_mix, pa_regress p = [], pa_leading p = []) of
     (True, False, _) \<Rightarrow> Ok (pa_regress p)
   | (True, True, False) \<Rightarrow> Ok (pa_leading p)
   | (False, _, False) \<Rightarrow> Ok (pa_leading p)
   | (False, False, True) \<Rightarrow> Ok (pa_regress p)
   | (_, True, True) \<Rightarrow> Err EmptyCandidateSet)"

fun dispatch_inner ::
  "libm \<Rightarrow> 'g generator \<Rightarrow> candidate_snapshot list \<Rightarrow> policy_kind \<Rightarrow> f64 \<Rightarrow> f64 \<Rightarrow> u64 \<Rightarrow> 'g det_rng
     \<Rightarrow> (policy_error, selection_choice) res \<times> 'g det_rng" where
  "dispatch_inner lm G cs Softmax t u n r = softmax_select_from lm G cs t r"
| "dispatch_inner lm G cs Ucb t u n r = (ucb_select_from lm cs n u, r)"
| "dispatch_inner lm G cs Staged t u n r = (Err (PolicyInvalidConfig ''selection.staged.inner''), r)"

definition staged_select_from ::
  "libm \<Rightarrow> 'g generator \<Rightarrow> candidate_snapshot list \<Rightarrow> staged_selection_params \<Rightarrow> 'g det_rng
     \<Rightarrow> (policy_error, selection_choice) res \<times> 'g det_rng" where
  "staged_select_from lm G cs p r =
     bind_st (validate_staged_config (sp_inner p) (sp_epsilon_regress p), r) (\<lambda>_ r.
     let part = partition_candidates cs (sp_target_stage p) in
     bind_st (draw_unit G r) (\<lambda>u r.
     bind_st (choose_partition (f_lt u (sp_epsilon_regress p)) part, r) (\<lambda>selected r.
     bind_st (dispatch_inner lm G (map snd selected) (sp_inner p) (sp_temperature p) (sp_ucb_c p)
         (sp_total_expansions p) r) (\<lambda>ch r.
     (bind_res (index_vec selected (sc_candidate_index ch)) (\<lambda>original.
       Ok \<lparr>sc_selected = sc_selected ch, sc_candidate_index = fst original\<rparr>), r)))))"

definition staged_select ::
  "libm \<Rightarrow> 'g generator \<Rightarrow> staged_policy \<Rightarrow> policy_context \<Rightarrow> 'g det_rng
     \<Rightarrow> (policy_error, selection_choice) res \<times> 'g det_rng" where
  "staged_select lm G p c r =
     bind_st (candidate_snapshots lm c, r) (\<lambda>cs r.
     bind_st (target_stage_from_tree (pc_tree c), r) (\<lambda>target r.
     staged_select_from lm G cs
       (staged_selection_params_new target (inner (staged (pc_selection c))) (epsilon_regress (staged (pc_selection c)))
          (temperature (pc_selection c)) (ucb_c (pc_selection c)) (stp_total_expansions p)) r))"

section \<open>The target stage\<close>

lemma target_stage_loop_Some:
  "target_stage_loop t raws (Some s) = Some (fold (\<lambda>raw s. case tree_get t (NodeId (word_of_nat raw)) of
     None \<Rightarrow> s | Some r \<Rightarrow> max s (nr_stage r)) raws s)"
  by (induction raws arbitrary: s) (auto split: option.splits)

lemma stage_fold_max:
  assumes "\<forall>i \<in> set is. i < length (records t)" "length (records t) < 2 ^ 64"
  shows "fold (\<lambda>raw s. case tree_get t (NodeId (word_of_nat raw)) of None \<Rightarrow> s | Some r \<Rightarrow> max s (nr_stage r)) is s
    = Max (insert s ((\<lambda>i. nr_stage (records t ! i)) ` set is))"
  using assms(1)
proof (induction "is" arbitrary: s)
  case (Cons i "is")
  have "tree_get t (NodeId (word_of_nat i)) = Some (records t ! i)"
    using Cons.prems assms(2) by (simp add: tree_get_def index_of_def unat_of_nat_u64)
  moreover have "Max (insert (max s a) X) = max s (Max (insert a X))" if "finite X" for a and X :: "stage set"
    using that by (cases "X = {}") (simp_all add: max.assoc)
  ultimately show ?case using Cons by (simp add: insert_commute)
qed simp

text \<open>The most advanced stage of the tree.\<close>

lemma target_stage_wf:
  assumes "wf_tree t"
  shows "target_stage_from_tree t = Ok (Max (nr_stage ` set (records t)))"
proof -
  let ?n = "length (records t)"
  have n: "0 < ?n" "?n < 2 ^ 64" using wf_treeD(1,2)[OF assms] by auto
  then have ids: "[0..<unat (node_id_get (next_id t))] = 0 # [1..<?n]"
    by (simp add: next_id_def unat_of_nat_u64 upt_conv_Cons)
  have "tree_get t (NodeId (word_of_nat 0)) = Some (records t ! 0)"
    using n by (simp add: tree_get_def index_of_def)
  then have "target_stage_loop t [0..<unat (node_id_get (next_id t))] None
      = Some (Max (insert (nr_stage (records t ! 0)) ((\<lambda>i. nr_stage (records t ! i)) ` set [1..<?n])))"
    unfolding ids using stage_fold_max[of "[1..<?n]" t "nr_stage (records t ! 0)"] n
    by (simp add: target_stage_loop_Some)
  also have "insert (nr_stage (records t ! 0)) ((\<lambda>i. nr_stage (records t ! i)) ` set [1..<?n])
      = (\<lambda>i. nr_stage (records t ! i)) ` {0..<?n}"
    using n(1) by (auto simp: image_iff) (metis One_nat_def Suc_leI atLeastLessThan_iff not_gr_zero)
  also have "\<dots> = nr_stage ` set (records t)"
    using nth_image[of ?n "records t"] by (simp add: image_image[symmetric] del: image_image)
  finally show ?thesis by (simp add: target_stage_from_tree_def)
qed

section \<open>Partition\<close>

lemma partition_loop_eq:
  "partition_loop target es p = \<lparr>pa_leading = pa_leading p @ filter (\<lambda>e. cs_stage (snd e) = target) es,
     pa_regress = pa_regress p @ filter (\<lambda>e. cs_stage (snd e) \<noteq> target) es\<rparr>"
  by (induction es arbitrary: p) auto

lemma partition_candidates_eq:
  "pa_leading (partition_candidates cs target) = filter (\<lambda>e. cs_stage (snd e) = target) (enumerate 0 cs)"
  "pa_regress (partition_candidates cs target) = filter (\<lambda>e. cs_stage (snd e) \<noteq> target) (enumerate 0 cs)"
  by (simp_all add: partition_candidates_def partition_loop_eq)

text \<open>The set a draw selects: the leading candidates unless the draw asks for the others, and the
  other set where the wanted one is empty.\<close>

definition leads :: "bool \<Rightarrow> stage \<Rightarrow> candidate_snapshot list \<Rightarrow> bool" where
  "leads mix target cs \<longleftrightarrow> (\<exists>s \<in> set cs. cs_stage s = target) \<and> (mix \<longrightarrow> (\<forall>s \<in> set cs. cs_stage s = target))"

lemma choose_partition_spec:
  assumes "cs \<noteq> []"
  shows "choose_partition mix (partition_candidates cs target)
    = Ok (filter (\<lambda>e. (cs_stage (snd e) = target) = leads mix target cs) (enumerate 0 cs))"
    "filter (\<lambda>e. (cs_stage (snd e) = target) = leads mix target cs) (enumerate 0 cs) \<noteq> []"
proof -
  have e: "filter P (enumerate 0 cs) = [] \<longleftrightarrow> (\<forall>s \<in> set cs. \<not> Q s)" if "\<And>e. P e = Q (snd e)" for P Q
  proof -
    have "set cs = snd ` set (enumerate 0 cs)" by (metis map_snd_enumerate set_map)
    then show ?thesis using that by (simp add: filter_empty_conv)
  qed
  have l: "pa_leading (partition_candidates cs target) = [] \<longleftrightarrow> (\<forall>s \<in> set cs. cs_stage s \<noteq> target)"
    "pa_regress (partition_candidates cs target) = [] \<longleftrightarrow> (\<forall>s \<in> set cs. cs_stage s = target)"
    unfolding partition_candidates_eq
    using e[of "\<lambda>e. cs_stage (snd e) = target" "\<lambda>s. cs_stage s = target"]
      e[of "\<lambda>e. cs_stage (snd e) \<noteq> target" "\<lambda>s. cs_stage s \<noteq> target"] by simp_all
  have "leads mix target cs \<longleftrightarrow> pa_leading (partition_candidates cs target) \<noteq> []
      \<and> (mix \<longrightarrow> pa_regress (partition_candidates cs target) = [])"
    unfolding leads_def l by blast
  moreover have "pa_leading (partition_candidates cs target) \<noteq> [] \<or> pa_regress (partition_candidates cs target) \<noteq> []"
    unfolding l using assms by (cases cs) auto
  ultimately have "choose_partition mix (partition_candidates cs target) = Ok (if leads mix target cs
      then pa_leading (partition_candidates cs target) else pa_regress (partition_candidates cs target))"
    by (cases mix; cases "pa_leading (partition_candidates cs target) = []";
        cases "pa_regress (partition_candidates cs target) = []") simp_all
  then show "choose_partition mix (partition_candidates cs target)
      = Ok (filter (\<lambda>e. (cs_stage (snd e) = target) = leads mix target cs) (enumerate 0 cs))"
    unfolding partition_candidates_eq by (cases "leads mix target cs") simp_all
  obtain s where "s \<in> set cs" using assms by (cases cs) auto
  then have "\<exists>s \<in> set cs. (cs_stage s = target) = leads mix target cs" by (cases mix) (auto simp: leads_def)
  then show "filter (\<lambda>e. (cs_stage (snd e) = target) = leads mix target cs) (enumerate 0 cs) \<noteq> []"
    using e[of "\<lambda>e. (cs_stage (snd e) = target) = leads mix target cs" "\<lambda>s. (cs_stage s = target) = leads mix target cs"]
    by simp
qed

section \<open>The choice\<close>

lemma dispatch_inner_picks:
  assumes "dispatch_inner lm G cs k t u n r = (Ok ch, r')"
  shows "sc_candidate_index ch < length cs \<and> sc_selected ch = cs_id (cs ! sc_candidate_index ch)"
proof (cases k)
  case Softmax
  then show ?thesis using assms softmax_select_from_picks[of lm G cs t r] by simp
next
  case Ucb
  then have "ucb_select_from lm cs n u = Ok ch" using assms by simp
  from ucb_select_from_best(1,2)[OF this] show ?thesis by (simp add: ucb_best_def)
qed (use assms in simp)

lemma filter_enumerate_nth:
  assumes "i < length (filter P (enumerate 0 xs))" "filter P (enumerate 0 xs) ! i = (k, x)"
  shows "k < length xs" "x = xs ! k" "P (k, x)"
proof -
  have "(k, x) \<in> set (filter P (enumerate 0 xs))" using assms by (metis nth_mem)
  then show "k < length xs" "x = xs ! k" "P (k, x)" by (auto simp: in_set_enumerate_eq)
qed

lemma staged_select_from_Ok:
  assumes "staged_select_from lm G cs p r = (Ok ch, r')" "cs \<noteq> []"
  obtains u r1 where "next_unit_f64 G r = (Ok (u, r1) :: (policy_error, f64 \<times> 'g det_rng) res)"
    "sc_candidate_index ch < length cs" "sc_selected ch = cs_id (cs ! sc_candidate_index ch)"
    "cs_stage (cs ! sc_candidate_index ch) = sp_target_stage p \<longleftrightarrow> leads (f_lt u (sp_epsilon_regress p)) (sp_target_stage p) cs"
proof -
  obtain u r1 where u: "next_unit_f64 G r = (Ok (u, r1) :: (policy_error, f64 \<times> 'g det_rng) res)"
    and rest: "bind_st (choose_partition (f_lt u (sp_epsilon_regress p)) (partition_candidates cs (sp_target_stage p)), r1)
      (\<lambda>selected r. bind_st (dispatch_inner lm G (map snd selected) (sp_inner p) (sp_temperature p) (sp_ucb_c p)
         (sp_total_expansions p) r) (\<lambda>ch r. (bind_res (index_vec selected (sc_candidate_index ch)) (\<lambda>original.
         Ok \<lparr>sc_selected = sc_selected ch, sc_candidate_index = fst original\<rparr>), r))) = (Ok ch, r')"
    using assms(1)
    by (auto simp: staged_select_from_def bind_st_Ok draw_unit_def Let_def split: res.splits prod.splits)
  let ?mix = "f_lt u (sp_epsilon_regress p)" and ?target = "sp_target_stage p"
  define sel where "sel = filter (\<lambda>e. (cs_stage (snd e) = ?target) = leads ?mix ?target cs) (enumerate 0 cs)"
  obtain ch0 where ch0: "dispatch_inner lm G (map snd sel) (sp_inner p) (sp_temperature p) (sp_ucb_c p)
      (sp_total_expansions p) r1 = (Ok ch0, r')"
    and i: "sc_candidate_index ch0 < length sel" "ch = \<lparr>sc_selected = sc_selected ch0,
      sc_candidate_index = fst (sel ! sc_candidate_index ch0)\<rparr>"
    using rest unfolding choose_partition_spec(1)[OF assms(2)] sel_def[symmetric] by (auto simp: bind_st_Ok res_simps)
  obtain k x where kx: "sel ! sc_candidate_index ch0 = (k, x)" by fastforce
  have f: "k < length cs" "x = cs ! k" "(cs_stage x = ?target) = leads ?mix ?target cs"
    using filter_enumerate_nth[OF i(1)[unfolded sel_def] kx[unfolded sel_def]] by simp_all
  have "sc_selected ch0 = cs_id x" using dispatch_inner_picks[OF ch0] i(1) kx by simp
  then show thesis using that[OF u] f i(2) kx by simp
qed

lemma staged_select_from_picks:
  assumes "staged_select_from lm G cs p r = (Ok ch, r')" "cs \<noteq> []"
  shows "sc_candidate_index ch < length cs \<and> sc_selected ch = cs_id (cs ! sc_candidate_index ch)"
  using staged_select_from_Ok[OF assms] by blast

lemma snapshots_not_empty:
  assumes "candidate_snapshots lm c = Ok cs"
  shows "cs \<noteq> []"
proof -
  have "length cs \<noteq> 0"
    using assms by (auto simp: candidate_snapshots_def res_simps collect_res_Ok_iff split: if_splits)
  then show ?thesis by simp
qed

interpretation staged_pol: selection_policy lm "staged_select lm G" for lm G
  by unfold_locales (auto simp: staged_select_def bind_st_Ok dest!: staged_select_from_picks snapshots_not_empty)

lemma staged_select_from_total:
  assumes "exp_laws lm" "log_laws lm" "cs \<noteq> []" "\<forall>s \<in> set cs. mag_le 2035 (cs_priority s)" "length cs \<le> 2 ^ 53"
    "unat (dr_draws r) + 2 < 2 ^ 64" "sp_inner p \<noteq> Staged"
    "is_finite (sp_epsilon_regress p)" "f_le f_zero (sp_epsilon_regress p)" "f_le (sp_epsilon_regress p) f_one"
    "is_finite (sp_temperature p)" "0 < skey (sp_temperature p)"
    "is_finite (sp_ucb_c p)" "0 \<le> skey (sp_ucb_c p)" "f_le (sp_ucb_c p) WEIGHT_LIMIT" "sqrt_laws lm"
  shows "\<exists>ch r'. staged_select_from lm G cs p r = (Ok ch, r')"
proof -
  obtain u r1 where u: "draw_unit G r = (Ok u, r1)" "unat (dr_draws r1) = unat (dr_draws r) + 1"
    using draw_unit_total[of r G] assms(6) by auto
  let ?mix = "f_lt u (sp_epsilon_regress p)" and ?target = "sp_target_stage p"
  define sel where "sel = filter (\<lambda>e. (cs_stage (snd e) = ?target) = leads ?mix ?target cs) (enumerate 0 cs)"
  have ch: "choose_partition ?mix (partition_candidates cs ?target) = Ok sel" "sel \<noteq> []"
    unfolding sel_def by (rule choose_partition_spec[OF assms(3)])+
  have sub: "set (map snd sel) \<subseteq> set cs" "length sel \<le> 2 ^ 53"
    using assms(5) length_filter_le[of _ "enumerate 0 cs"] by (auto simp: sel_def in_set_enumerate_eq intro: order_trans)
  have bound: "\<forall>s \<in> set (map snd sel). mag_le 2035 (cs_priority s)" using sub(1) assms(4) by blast
  then have fin: "\<forall>s \<in> set (map snd sel). is_finite (cs_priority s)" using mag_le_finite by fastforce
  have "\<exists>ch r'. dispatch_inner lm G (map snd sel) (sp_inner p) (sp_temperature p) (sp_ucb_c p) (sp_total_expansions p) r1
      = (Ok ch, r')"
  proof (cases "sp_inner p")
    case Softmax
    then show ?thesis
      using softmax_select_from_total[OF assms(1,11,12) _ fin, of r1 G] ch(2) sub(2) u(2) assms(6) by auto
  next
    case Ucb
    have "\<exists>v. ucb_value lm s (sp_total_expansions p) (sp_ucb_c p) = Ok v" if "s \<in> set (map snd sel)" for s
      using ucb_value_total[OF assms(2,13,14) weight_mag[OF assms(14,15)] _ assms(16)] bound that by blast
    from ucb_select_from_total[OF _ this, of "map snd sel"] show ?thesis using Ucb ch(2) by auto
  qed (use assms(7) in simp)
  then obtain ch0 r' where d: "dispatch_inner lm G (map snd sel) (sp_inner p) (sp_temperature p) (sp_ucb_c p)
      (sp_total_expansions p) r1 = (Ok ch0, r')" by blast
  have "sc_candidate_index ch0 < length sel" using dispatch_inner_picks[OF d] by simp
  moreover have "validate_staged_config (sp_inner p) (sp_epsilon_regress p) = Ok ()"
    using assms(7-10) by (simp add: validate_staged_config_def)
  ultimately show ?thesis using u(1) ch(1) d by (simp add: staged_select_from_def index_vec_def Let_def)
qed

section \<open>Properties\<close>

text \<open>C23: The staged policy chooses by stage. It draws once; unless the draw falls below
  \<open>epsilon_regress\<close>, the node it chooses has the most advanced stage of the whole tree whenever a candidate
  has it. A draw below \<open>epsilon_regress\<close> gives a candidate of another stage whenever there is one.\<close>

theorem staged_choice:
  assumes "context_ok c" "staged_select lm G p c r = (Ok ch, r')"
  shows "\<exists>u r1 node. next_unit_f64 G r = (Ok (u, r1) :: (policy_error, f64 \<times> 'g det_rng) res)
    \<and> tree_get (pc_tree c) (sc_selected ch) = Some node \<and> sc_selected ch \<in> set (candidate_ids c)
    \<and> (let best = Max (nr_stage ` set (records (pc_tree c))); stage_of = (\<lambda>i. nr_stage (record_of c i));
            mix = f_lt u (epsilon_regress (staged (pc_selection c)))
       in nr_stage node = best \<longleftrightarrow> (\<exists>i \<in> set (candidate_ids c). stage_of i = best)
            \<and> (mix \<longrightarrow> (\<forall>i \<in> set (candidate_ids c). stage_of i = best)))"
proof -
  let ?best = "Max (nr_stage ` set (records (pc_tree c)))"
  let ?p = "staged_selection_params_new ?best (inner (staged (pc_selection c))) (epsilon_regress (staged (pc_selection c)))
          (temperature (pc_selection c)) (ucb_c (pc_selection c)) (stp_total_expansions p)"
  have t: "target_stage_from_tree (pc_tree c) = Ok ?best" using assms(1) by (intro target_stage_wf) (simp add: context_ok_def)
  obtain cs where cs: "candidate_snapshots lm c = Ok cs" and sel: "staged_select_from lm G cs ?p r = (Ok ch, r')"
    using assms(2) t by (auto simp: staged_select_def bind_st_Ok)
  obtain ns cutoff where len: "length cs = length (candidate_ids c)" and ne: "cs \<noteq> []"
    and nth: "\<And>k. k < length cs \<Longrightarrow> cs ! k = node_snapshot lm c cutoff (raw_scores c ! k) (ns ! k) (candidate_ids c ! k)"
    using snapshots_Ok[OF assms(1) cs] by metis
  obtain u r1 where u: "next_unit_f64 G r = (Ok (u, r1) :: (policy_error, f64 \<times> 'g det_rng) res)"
    and pick: "sc_candidate_index ch < length cs" "sc_selected ch = cs_id (cs ! sc_candidate_index ch)"
    and st: "cs_stage (cs ! sc_candidate_index ch) = ?best \<longleftrightarrow> leads (f_lt u (epsilon_regress (staged (pc_selection c)))) ?best cs"
    using staged_select_from_Ok[OF sel ne] by (auto simp: staged_selection_params_new_def)
  have stage: "cs_stage (cs ! k) = nr_stage (record_of c (candidate_ids c ! k))" "cs_id (cs ! k) = candidate_ids c ! k"
    if "k < length cs" for k
    using nth[OF that] by (simp_all add: node_snapshot_def Let_def)
  have ids: "sc_selected ch = candidate_ids c ! sc_candidate_index ch" using pick stage(2)[OF pick(1)] by simp
  then have mem: "sc_selected ch \<in> set (candidate_ids c)" using pick(1) len by simp
  have "leads mix ?best cs \<longleftrightarrow> (\<exists>i \<in> set (candidate_ids c). nr_stage (record_of c i) = ?best)
      \<and> (mix \<longrightarrow> (\<forall>i \<in> set (candidate_ids c). nr_stage (record_of c i) = ?best))" for mix
  proof -
    have "map cs_stage cs = map (\<lambda>i. nr_stage (record_of c i)) (candidate_ids c)"
      using stage(1) len by (intro nth_equalityI) simp_all
    then have eq: "cs_stage ` set cs = (\<lambda>i. nr_stage (record_of c i)) ` set (candidate_ids c)" by (metis set_map)
    have ex: "(\<exists>i \<in> I. f i = b) \<longleftrightarrow> b \<in> f ` I" and all: "(\<forall>i \<in> I. f i = b) \<longleftrightarrow> f ` I \<subseteq> {b}"
      for f :: "'x \<Rightarrow> stage" and I b by blast+
    show ?thesis unfolding leads_def ex all eq ..
  qed
  moreover have "cs_stage (cs ! sc_candidate_index ch) = nr_stage (record_of c (sc_selected ch))"
    using stage(1)[OF pick(1)] ids by simp
  ultimately show ?thesis using u st candidate_record_Ok(1)[OF assms(1) mem] mem by (auto simp: Let_def)
qed

text \<open>C33: The staged policy always chooses: with valid, bounded weights, an inner policy other than staged,
  at least one candidate, at most \<open>2 ^ 53\<close> of them, the laws of \<open>log\<close>, \<open>exp\<close> and \<open>sqrt\<close> and two draws left, selection returns a live frontier
  node. The fallback between the two sets covers every case, so \<open>EmptyCandidateSet\<close> is not reached.\<close>

theorem staged_select_total:
  assumes "context_ok c" "validate_selection_weights (pc_selection c) = Ok ()" "candidate_ids c \<noteq> []"
    "length (candidate_ids c) \<le> 2 ^ 53" "log_laws lm" "exp_laws lm" "weights_bounded c"
    "f_le (ucb_c (pc_selection c)) WEIGHT_LIMIT" "inner (staged (pc_selection c)) \<noteq> Staged" "unat (dr_draws r) + 2 < 2 ^ 64"
    "sqrt_laws lm"
  shows "\<exists>ch r'. staged_select lm G p c r = (Ok ch, r')
    \<and> sc_selected ch \<in> frontier_ids (pc_frontier c) \<and> candidate_in (pc_tree c) (sc_selected ch)"
proof -
  let ?best = "Max (nr_stage ` set (records (pc_tree c)))"
  let ?p = "staged_selection_params_new ?best (inner (staged (pc_selection c))) (epsilon_regress (staged (pc_selection c)))
          (temperature (pc_selection c)) (ucb_c (pc_selection c)) (stp_total_expansions p)"
  have t: "target_stage_from_tree (pc_tree c) = Ok ?best" using assms(1) by (intro target_stage_wf) (simp add: context_ok_def)
  obtain cs where cs: "candidate_snapshots lm c = Ok cs" "\<forall>s \<in> set cs. mag_le 2035 (cs_priority s)"
    using snapshots_total[OF assms(1-5,7)] by blast
  have len: "length cs \<le> 2 ^ 53" "cs \<noteq> []" using snapshots_Ok[OF assms(1) cs(1)] assms(4) by metis+
  have w: "is_finite (temperature (pc_selection c))" "0 < skey (temperature (pc_selection c))"
    "is_finite (ucb_c (pc_selection c))" "0 \<le> skey (ucb_c (pc_selection c))"
    "is_finite (epsilon_regress (staged (pc_selection c)))"
    "f_le f_zero (epsilon_regress (staged (pc_selection c)))" "f_le (epsilon_regress (staged (pc_selection c))) f_one"
    using assms(2) unfolding weights_Ok by (auto simp: f_le_def)
  have "\<exists>ch r'. staged_select_from lm G cs ?p r = (Ok ch, r')"
    using w assms(8-11) len cs(2) assms(5,6) by (intro staged_select_from_total) (simp_all add: staged_selection_params_new_def)
  then obtain ch r' where "staged_select lm G p c r = (Ok ch, r')" by (auto simp: staged_select_def cs(1) t)
  with staged_pol.selects_live[OF assms(1) this] show ?thesis by blast
qed

lemma example_rng_draws: "unat (dr_draws (rng_selection (\<lambda>_. replicate 32 0) counter_generator 5 1)) = 0"
  by (simp add: rng_selection_def rng_new_def rng_from_spec_def)

lemma example_staged_hyps:
  "validate_selection_weights (pc_selection example_context) = Ok ()" "candidate_ids example_context \<noteq> []"
  "length (candidate_ids example_context) \<le> 2 ^ 53" "f_le (ucb_c (pc_selection example_context)) WEIGHT_LIMIT"
  "inner (staged (pc_selection example_context)) \<noteq> Staged"
  using example_weights example_candidate_ids unit_key
  by (auto simp: example_context_def example_selection_def f_le_def)

theorem staged_select_total_witness:
  "\<exists>ch r'. staged_select example_libm counter_generator staged_policy_new example_context
      (rng_selection (\<lambda>_. replicate 32 0) counter_generator 5 1) = (Ok ch, r')"
proof -
  have d: "unat (dr_draws (rng_selection (\<lambda>_. replicate 32 0) counter_generator 5 1)) + 2 < 2 ^ 64"
    unfolding example_rng_draws by simp
  from staged_select_total[OF example_context_ok example_staged_hyps(1-3) example_laws example_bounded example_staged_hyps(4,5) d example_sqrt_laws,
      of counter_generator staged_policy_new]
  show ?thesis by blast
qed

theorem staged_choice_witness:
  "\<exists>ch r'. staged_select example_libm counter_generator staged_policy_new example_context
      (rng_selection (\<lambda>_. replicate 32 0) counter_generator 5 1) = (Ok ch, r') \<and> sc_selected ch \<in> {ROOT, NodeId 1}"
proof -
  let ?r = "rng_selection (\<lambda>_. replicate 32 0) counter_generator 5 1"
  let ?best = "Max (nr_stage ` set (records example_tree))"
  let ?p = "staged_selection_params_new ?best Softmax f_zero f_one f_one 0"
  obtain cs where cs: "candidate_snapshots example_libm example_context = Ok cs" "\<forall>s \<in> set cs. mag_le 2035 (cs_priority s)"
    using snapshots_total[OF example_context_ok example_staged_hyps(1-3) example_laws(1) example_bounded] by blast
  have len: "length cs \<le> 2 ^ 53" "cs \<noteq> []"
    using snapshots_Ok[OF example_context_ok cs(1)] example_staged_hyps(3) by metis+
  have "unat (dr_draws ?r) + 2 < 2 ^ 64" unfolding example_rng_draws by simp
  then have "\<exists>ch r'. staged_select_from example_libm counter_generator cs ?p ?r = (Ok ch, r')"
    using len cs(2) example_laws example_sqrt_laws unit_key
    by (intro staged_select_from_total) (simp_all add: staged_selection_params_new_def f_le_def)
  moreover have "target_stage_from_tree example_tree = Ok ?best"
    using example_context_ok by (intro target_stage_wf) (simp add: context_ok_def example_context_def)
  ultimately obtain ch r' where sel: "staged_select example_libm counter_generator staged_policy_new example_context ?r = (Ok ch, r')"
    by (auto simp: staged_select_def cs(1) staged_policy_new_def) (auto simp: example_context_def example_selection_def)
  from staged_choice[OF example_context_ok sel] have "sc_selected ch \<in> set (candidate_ids example_context)" by blast
  then show ?thesis using sel unfolding example_candidate_ids by blast
qed

end
