(* ===== verification/Feature_Map.thy ===== *)
theory Feature_Map
  imports Prelude
begin

text \<open>
  Feature maps (\<open>crates/orch-core/src/compile.rs\<close>): the declared features of memory regions, their
  validation, the compilation into a packed extraction layout, and the L4 coarsening that enlarges
  buckets and grid cells but must keep that layout. A \<open>BTreeMap\<close> that is only looked up is a partial
  function; one that is only carried along is its sorted entry list.
\<close>

section \<open>Documents\<close>

datatype extra_value =
    ExtraBool bool
  | ExtraI64 "64 word"
  | ExtraU64 u64
  | ExtraString string
  | ExtraSeq "extra_value list"
  | ExtraMap "(string \<times> extra_value) list"

datatype feature_map_kind = FeatureMapKind

record feature_map_meta =
  fm_name :: string
  fm_workload :: string
  fm_game_revision :: string
  fm_version :: u32
  fm_meta_extra :: "(string \<times> extra_value) list"

record feature_region =
  rg_name :: string
  rg_size :: u64
  rg_extra :: "(string \<times> extra_value) list"

record region_layout =
  rl_size :: u64
  rl_layout_version :: u32

type_synonym region_layouts = "string \<rightharpoonup> region_layout"

datatype feature_value_type =
  U8 | U16Le | U16Be | U32Le | U32Be | I8 | I16Le | I16Be | I32Le | I32Be
  | Bitflags8 | Bitflags16Le | Bitflags32Le | Bcd8 | Bcd16Le | Bytes

fun derived_width :: "feature_value_type \<Rightarrow> u32 option" where
  "derived_width U8 = Some 1"
| "derived_width I8 = Some 1"
| "derived_width Bitflags8 = Some 1"
| "derived_width Bcd8 = Some 1"
| "derived_width U16Le = Some 2"
| "derived_width U16Be = Some 2"
| "derived_width I16Le = Some 2"
| "derived_width I16Be = Some 2"
| "derived_width Bitflags16Le = Some 2"
| "derived_width Bcd16Le = Some 2"
| "derived_width U32Le = Some 4"
| "derived_width U32Be = Some 4"
| "derived_width I32Le = Some 4"
| "derived_width I32Be = Some 4"
| "derived_width Bitflags32Le = Some 4"
| "derived_width Bytes = None"

definition is_integer_scalar :: "feature_value_type \<Rightarrow> bool" where
  "is_integer_scalar t \<longleftrightarrow> t \<in> {U8, U16Le, U16Be, U32Le, U32Be, I8, I16Le, I16Be, I32Le, I32Be}"

definition is_bitflags :: "feature_value_type \<Rightarrow> bool" where
  "is_bitflags t \<longleftrightarrow> t \<in> {Bitflags8, Bitflags16Le, Bitflags32Le}"

datatype feature_semantics = FeatureSemantics string

datatype feature_stability = Stable | Volatile

datatype discretize =
    DiscretizeNone
  | Identity
  | Bucket u64
  | Threshold "64 word list"
  | Bits
  | Grid (grid_x: string) (grid_y: string) (grid_room: string) (cell_w: u64) (cell_h: u64)

datatype predicate_op = PredEq | PredNe | PredGe | PredLe

record feature_predicate =
  fp_feature :: string
  fp_op :: predicate_op
  fp_value :: "64 word"

record feature =
  ft_name :: string
  ft_region :: string
  ft_offset :: u64
  ft_value_type :: feature_value_type
  ft_width :: "u32 option"
  ft_semantics :: feature_semantics
  ft_stability :: feature_stability
  ft_discretize :: discretize
  ft_valid_when :: "feature_predicate option"
  ft_extra :: "(string \<times> extra_value) list"

record feature_map =
  mp_schema_version :: u32
  mp_kind :: feature_map_kind
  mp_meta :: feature_map_meta
  mp_regions :: "feature_region list"
  mp_features :: "feature list"
  mp_extra :: "(string \<times> extra_value) list"

section \<open>Errors\<close>

datatype compile_error =
    WrongSchemaVersion u32
  | InvalidName string string
  | DuplicateRegion string
  | DuplicateFeature string
  | UnknownRegion string string
  | UnknownRegionLayout string
  | RegionSizeMismatch string
  | MissingBytesWidth string
  | EmptyBytesFeature string
  | WidthMismatch string
  | FeatureOutOfBounds string string
  | TotalLengthOverflow
  | FeatureNotCovered string
  | InvalidGridReference string string
  | InvalidGridDoubleCount string string
  | InvalidGridCellSize string
  | InvalidBucketSize string
  | InvalidBitflagsDiscretize string
  | InvalidRadiusFactor
  | RadiusOverflow
  | VersionOverflow
  | LayoutChangedByCoarsening

fun compile_error_display :: "compile_error \<Rightarrow> string" where
  "compile_error_display (WrongSchemaVersion v) = ''unsupported feature-map schema version '' @ show_nat (unat v)"
| "compile_error_display (InvalidName field name) = ''invalid '' @ field @ '' name '' @ name"
| "compile_error_display (DuplicateRegion name) = ''duplicate region '' @ name"
| "compile_error_display (DuplicateFeature name) = ''duplicate feature '' @ name"
| "compile_error_display (UnknownRegion f r) = ''feature '' @ f @ '' references unknown region '' @ r"
| "compile_error_display (UnknownRegionLayout r) = ''missing layout metadata for region '' @ r"
| "compile_error_display (RegionSizeMismatch r) = ''feature-map region '' @ r @ '' exceeds manifest region size''"
| "compile_error_display (MissingBytesWidth f) = ''bytes feature '' @ f @ '' must declare width''"
| "compile_error_display (EmptyBytesFeature f) = ''bytes feature '' @ f @ '' must have nonzero width''"
| "compile_error_display (WidthMismatch f) = ''feature '' @ f @ '' declares a mismatched width''"
| "compile_error_display (FeatureOutOfBounds f r) = ''feature '' @ f @ '' is out of bounds for region '' @ r"
| "compile_error_display TotalLengthOverflow = ''compiled layout length overflows u32''"
| "compile_error_display (FeatureNotCovered f) = ''feature '' @ f @ '' is not covered by compiled layout''"
| "compile_error_display (InvalidGridReference f t) = ''grid feature '' @ f @ '' has invalid reference '' @ t"
| "compile_error_display (InvalidGridDoubleCount f t) = ''grid feature '' @ f @ '' would double-count target '' @ t"
| "compile_error_display (InvalidGridCellSize f) = ''grid feature '' @ f @ '' must have nonzero cell size''"
| "compile_error_display (InvalidBucketSize f) = ''bucket feature '' @ f @ '' must have nonzero size''"
| "compile_error_display (InvalidBitflagsDiscretize f) = ''bitflags feature '' @ f @ '' must use bits or none discretization''"
| "compile_error_display InvalidRadiusFactor = ''radius factor must be at least 1/1''"
| "compile_error_display RadiusOverflow = ''radius factor scaling overflows u64''"
| "compile_error_display VersionOverflow = ''feature-map version overflow''"
| "compile_error_display LayoutChangedByCoarsening = ''L4 coarsening changed the compiled layout''"

section \<open>Widths\<close>

definition feature_width :: "feature \<Rightarrow> (compile_error, u32) res" where
  "feature_width f = (case derived_width (ft_value_type f) of
     Some derived \<Rightarrow>
       (case ft_width f of
          Some w \<Rightarrow> if w \<noteq> derived then Err (WidthMismatch (ft_name f)) else Ok derived
        | None \<Rightarrow> Ok derived)
   | None \<Rightarrow>
       bind_res (ok_or (ft_width f) (MissingBytesWidth (ft_name f))) (\<lambda>w.
       if w = 0 then Err (EmptyBytesFeature (ft_name f)) else Ok w))"

section \<open>Validation\<close>

definition is_ascii_lowercase :: "char \<Rightarrow> bool" where
  "is_ascii_lowercase c \<longleftrightarrow> 97 \<le> (of_char c :: nat) \<and> (of_char c :: nat) \<le> 122"

definition is_ascii_digit :: "char \<Rightarrow> bool" where
  "is_ascii_digit c \<longleftrightarrow> 48 \<le> (of_char c :: nat) \<and> (of_char c :: nat) \<le> 57"

definition validate_name :: "string \<Rightarrow> string \<Rightarrow> bool \<Rightarrow> (compile_error, unit) res" where
  "validate_name field name allow_hyphen = (case name of
     [] \<Rightarrow> Err (InvalidName field name)
   | first # chars \<Rightarrow>
       if \<not> is_ascii_lowercase first then Err (InvalidName field name)
       else if \<not> list_all (\<lambda>ch. is_ascii_lowercase ch \<or> is_ascii_digit ch \<or> ch = CHR ''_''
           \<or> (allow_hyphen \<and> ch = CHR ''-'')) chars
       then Err (InvalidName field name)
       else Ok ())"

definition feature_end :: "feature \<Rightarrow> u32 \<Rightarrow> (compile_error, u64) res" where
  "feature_end f w = ok_or (checked_add (ft_offset f) (ucast w)) (FeatureOutOfBounds (ft_name f) (ft_region f))"

definition validate_feature_bounds :: "feature_map \<Rightarrow> feature \<Rightarrow> (compile_error, unit) res" where
  "validate_feature_bounds m f =
     bind_res (ok_or (find (\<lambda>r. rg_name r = ft_region f) (mp_regions m)) (UnknownRegion (ft_name f) (ft_region f))) (\<lambda>region.
     bind_res (feature_width f) (\<lambda>w.
     bind_res (feature_end f w) (\<lambda>e.
     if rg_size region < e then Err (FeatureOutOfBounds (ft_name f) (ft_region f)) else Ok ())))"

definition validate_grid_target :: "feature_map \<Rightarrow> feature \<Rightarrow> string \<Rightarrow> bool \<Rightarrow> (compile_error, unit) res" where
  "validate_grid_target m f target must_be_integer =
     bind_res (ok_or (find (\<lambda>g. ft_name g = target) (mp_features m)) (InvalidGridReference (ft_name f) target)) (\<lambda>g.
     if must_be_integer \<and> \<not> is_integer_scalar (ft_value_type g) then Err (InvalidGridReference (ft_name f) target)
     else if must_be_integer \<and> ft_name g \<noteq> ft_name f \<and> ft_discretize g \<noteq> DiscretizeNone
     then Err (InvalidGridDoubleCount (ft_name f) target)
     else if \<not> must_be_integer \<and> ft_stability g \<noteq> Stable then Err (InvalidGridReference (ft_name f) target)
     else Ok ())"

definition validate_discretize :: "feature_map \<Rightarrow> feature \<Rightarrow> (compile_error, unit) res" where
  "validate_discretize m f =
     (if is_bitflags (ft_value_type f) \<and> ft_discretize f \<notin> {Bits, DiscretizeNone}
      then Err (InvalidBitflagsDiscretize (ft_name f))
      else case ft_discretize f of
        Bucket sz \<Rightarrow> if sz = 0 then Err (InvalidBucketSize (ft_name f)) else Ok ()
      | Grid x y room w h \<Rightarrow>
          if w = 0 \<or> h = 0 then Err (InvalidGridCellSize (ft_name f))
          else bind_res (validate_grid_target m f x True) (\<lambda>_.
               bind_res (validate_grid_target m f y True) (\<lambda>_.
               validate_grid_target m f room False))
      | _ \<Rightarrow> Ok ())"

text \<open>The two loops of \<open>validate_feature_map\<close>; \<open>seen\<close> is the \<open>HashSet\<close> of the names met so far.\<close>

fun validate_regions :: "region_layouts \<Rightarrow> string set \<Rightarrow> feature_region list \<Rightarrow> (compile_error, unit) res" where
  "validate_regions rl seen [] = Ok ()"
| "validate_regions rl seen (r # rs) =
     bind_res (validate_name ''region'' (rg_name r) False) (\<lambda>_.
     if rg_name r \<in> seen then Err (DuplicateRegion (rg_name r))
     else bind_res (ok_or (rl (rg_name r)) (UnknownRegionLayout (rg_name r))) (\<lambda>l.
       if rl_size l < rg_size r then Err (RegionSizeMismatch (rg_name r))
       else validate_regions rl (insert (rg_name r) seen) rs))"

fun validate_features :: "feature_map \<Rightarrow> string set \<Rightarrow> feature list \<Rightarrow> (compile_error, unit) res" where
  "validate_features m seen [] = Ok ()"
| "validate_features m seen (f # fs) =
     bind_res (validate_name ''feature'' (ft_name f) False) (\<lambda>_.
     if ft_name f \<in> seen then Err (DuplicateFeature (ft_name f))
     else bind_res (validate_feature_bounds m f) (\<lambda>_.
       bind_res (validate_discretize m f) (\<lambda>_.
       validate_features m (insert (ft_name f) seen) fs)))"

definition validate_feature_map :: "feature_map \<Rightarrow> region_layouts \<Rightarrow> (compile_error, unit) res" where
  "validate_feature_map m rl =
     (if mp_schema_version m \<noteq> 1 then Err (WrongSchemaVersion (mp_schema_version m))
      else bind_res (validate_name ''meta.name'' (fm_name (mp_meta m)) True) (\<lambda>_.
        bind_res (validate_regions rl {} (mp_regions m)) (\<lambda>_.
        validate_features m {} (mp_features m))))"

section \<open>Compilation\<close>

record extract_range =
  er_region :: string
  er_layout_version :: u32
  er_offset :: u64
  er_len :: u32

record compiled_layout =
  cl_ranges :: "extract_range list"

record compiled_field =
  cf_field_index :: u32
  cf_name :: string
  cf_region :: string
  cf_source_offset :: u64
  cf_width :: u32
  cf_packed_offset :: u32
  cf_value_type :: feature_value_type
  cf_semantics :: feature_semantics
  cf_stability :: feature_stability
  cf_discretize :: discretize
  cf_valid_when :: "feature_predicate option"

record compiled_feature_map =
  cm_meta :: feature_map_meta
  cm_layout :: compiled_layout
  cm_fields :: "compiled_field list"
  cm_total_len :: u32

text \<open>\<open>try_fold\<close> with \<open>checked_add\<close>.\<close>

fun sum_lens :: "u32 \<Rightarrow> extract_range list \<Rightarrow> (compile_error, u32) res" where
  "sum_lens acc [] = Ok acc"
| "sum_lens acc (r # rs) = bind_res (ok_or (checked_add acc (er_len r)) TotalLengthOverflow) (\<lambda>acc. sum_lens acc rs)"

definition total_feature_bytes_len :: "compiled_layout \<Rightarrow> (compile_error, u32) res" where
  "total_feature_bytes_len l = sum_lens 0 (cl_ranges l)"

definition feature_interval :: "feature \<Rightarrow> (compile_error, u64 \<times> u64) res" where
  "feature_interval f = bind_res (feature_width f) (\<lambda>w. bind_res (feature_end f w) (\<lambda>e. Ok (ft_offset f, e)))"

text \<open>One round of the merge loop: extend the last interval or open a new one.\<close>

definition merge_step :: "(u64 \<times> u64) list \<Rightarrow> u64 \<times> u64 \<Rightarrow> (u64 \<times> u64) list" where
  "merge_step merged = (\<lambda>(start, e).
     if merged \<noteq> [] \<and> start \<le> snd (last merged)
     then butlast merged @ [(fst (last merged), max (snd (last merged)) e)]
     else merged @ [(start, e)])"

definition merge_intervals :: "(u64 \<times> u64) list \<Rightarrow> (u64 \<times> u64) list" where
  "merge_intervals xs = foldl merge_step [] (sort_key fst xs)"

definition interval_range :: "feature_region \<Rightarrow> region_layout \<Rightarrow> u64 \<times> u64 \<Rightarrow> (compile_error, extract_range) res" where
  "interval_range region l = (\<lambda>(start, e).
     bind_res (sub_or_panic e start) (\<lambda>d.
     if unat d < 2 ^ 32
     then Ok \<lparr>er_region = rg_name region, er_layout_version = rl_layout_version l, er_offset = start, er_len = ucast d\<rparr>
     else Err TotalLengthOverflow))"

definition region_ranges :: "feature_map \<Rightarrow> region_layouts \<Rightarrow> feature_region \<Rightarrow> (compile_error, extract_range list) res" where
  "region_ranges m rl region =
     bind_res (ok_or (rl (rg_name region)) (UnknownRegionLayout (rg_name region))) (\<lambda>l.
     bind_res (collect_res feature_interval (filter (\<lambda>f. ft_region f = rg_name region) (mp_features m))) (\<lambda>intervals.
     collect_res (interval_range region l) (merge_intervals intervals)))"

text \<open>\<open>scan\<close> pairs each range with the packed length before it and ends at an overflow.\<close>

fun scan_ranges :: "u32 \<Rightarrow> extract_range list \<Rightarrow> (u32 \<times> extract_range) list" where
  "scan_ranges base [] = []"
| "scan_ranges base (r # rs) = (case checked_add base (er_len r) of
     None \<Rightarrow> [] | Some next_base \<Rightarrow> (base, r) # scan_ranges next_base rs)"

definition covers :: "feature \<Rightarrow> u32 \<Rightarrow> extract_range \<Rightarrow> (compile_error, bool) res" where
  "covers f w r =
     (if er_region r = ft_region f \<and> er_offset r \<le> ft_offset f
      then bind_res (add_or_panic (ft_offset f) (ucast w)) (\<lambda>fe.
           bind_res (add_or_panic (er_offset r) (ucast (er_len r))) (\<lambda>re. Ok (fe \<le> re)))
      else Ok False)"

fun find_range :: "feature \<Rightarrow> u32 \<Rightarrow> (u32 \<times> extract_range) list \<Rightarrow> (compile_error, (u32 \<times> extract_range) option) res" where
  "find_range f w [] = Ok None"
| "find_range f w (br # brs) =
     bind_res (covers f w (snd br)) (\<lambda>b. if b then Ok (Some br) else find_range f w brs)"

definition compile_field :: "nat \<Rightarrow> feature \<Rightarrow> compiled_layout \<Rightarrow> (compile_error, compiled_field) res" where
  "compile_field index f layout =
     bind_res (feature_width f) (\<lambda>w.
     bind_res (find_range f w (scan_ranges 0 (cl_ranges layout))) (\<lambda>found.
     bind_res (ok_or found (FeatureNotCovered (ft_name f))) (\<lambda>(base, r).
     bind_res (sub_or_panic (ft_offset f) (er_offset r)) (\<lambda>d.
     bind_res (if unat d < 2 ^ 32 then Ok (ucast d) else Err (FeatureNotCovered (ft_name f))) (\<lambda>d.
     bind_res (ok_or (checked_add base d) TotalLengthOverflow) (\<lambda>packed_offset.
     bind_res (if index < 2 ^ 32 then Ok (word_of_nat index) else Err TotalLengthOverflow) (\<lambda>index.
     Ok \<lparr>cf_field_index = index, cf_name = ft_name f, cf_region = ft_region f, cf_source_offset = ft_offset f,
         cf_width = w, cf_packed_offset = packed_offset, cf_value_type = ft_value_type f,
         cf_semantics = ft_semantics f, cf_stability = ft_stability f, cf_discretize = ft_discretize f,
         cf_valid_when = ft_valid_when f\<rparr>)))))))"

definition compile_feature_map :: "feature_map \<Rightarrow> region_layouts \<Rightarrow> (compile_error, compiled_feature_map) res" where
  "compile_feature_map m rl =
     bind_res (validate_feature_map m rl) (\<lambda>_.
     bind_res (collect_res (region_ranges m rl) (mp_regions m)) (\<lambda>ranges.
     let layout = \<lparr>cl_ranges = concat ranges\<rparr> in
     bind_res (total_feature_bytes_len layout) (\<lambda>total_len.
     bind_res (collect_res (\<lambda>(index, f). compile_field index f layout) (enumerate 0 (mp_features m))) (\<lambda>fields.
     Ok \<lparr>cm_meta = mp_meta m, cm_layout = layout, cm_fields = fields, cm_total_len = total_len\<rparr>))))"

section \<open>Coarsening\<close>

record radius_factor =
  rf_numerator :: u64
  rf_denominator :: u64

definition radius_factor_new :: "u64 \<Rightarrow> u64 \<Rightarrow> (compile_error, radius_factor) res" where
  "radius_factor_new num den =
     (if den = 0 then Err InvalidRadiusFactor
      else if num < den then Err InvalidRadiusFactor
      else Ok \<lparr>rf_numerator = num, rf_denominator = den\<rparr>)"

definition radius_factor_integer :: "u64 \<Rightarrow> (compile_error, radius_factor) res" where
  "radius_factor_integer value = radius_factor_new value 1"

text \<open>The product of two \<open>u64\<close> fits the \<open>u128\<close> of the source; \<open>div_ceil\<close> rounds up.\<close>

definition scale_positive :: "u64 \<Rightarrow> radius_factor \<Rightarrow> (compile_error, u64) res" where
  "scale_positive value rf =
     (let product = unat value * unat (rf_numerator rf);
          denominator = unat (rf_denominator rf);
          sc = (product + denominator - 1) div denominator
      in if 2 ^ 64 \<le> sc then Err RadiusOverflow else Ok (max (word_of_nat sc) 1))"

fun coarsen_discretize :: "radius_factor \<Rightarrow> discretize \<Rightarrow> (compile_error, discretize) res" where
  "coarsen_discretize rf (Bucket sz) = bind_res (scale_positive sz rf) (\<lambda>sz. Ok (Bucket sz))"
| "coarsen_discretize rf (Grid x y room w h) =
     bind_res (scale_positive w rf) (\<lambda>w. bind_res (scale_positive h rf) (\<lambda>h. Ok (Grid x y room w h)))"
| "coarsen_discretize rf d = Ok d"

definition coarsen_l4 :: "feature_map \<Rightarrow> region_layouts \<Rightarrow> radius_factor \<Rightarrow> (compile_error, feature_map) res" where
  "coarsen_l4 m rl rf =
     bind_res (validate_feature_map m rl) (\<lambda>_.
     bind_res (ok_or (checked_add (fm_version (mp_meta m)) 1) VersionOverflow) (\<lambda>v.
     bind_res (collect_res (\<lambda>f. bind_res (coarsen_discretize rf (ft_discretize f)) (\<lambda>d. Ok (f\<lparr>ft_discretize := d\<rparr>)))
       (mp_features m)) (\<lambda>fs.
     Ok (m\<lparr>mp_meta := (mp_meta m)\<lparr>fm_version := v\<rparr>, mp_features := fs\<rparr>))))"

definition coarsen_l4_preserving_layout ::
  "feature_map \<Rightarrow> region_layouts \<Rightarrow> radius_factor \<Rightarrow> (compile_error, feature_map) res" where
  "coarsen_l4_preserving_layout m rl rf =
     bind_res (compile_feature_map m rl) (\<lambda>before.
     bind_res (coarsen_l4 m rl rf) (\<lambda>coarsened.
     bind_res (compile_feature_map coarsened rl) (\<lambda>after.
     if cm_layout before \<noteq> cm_layout after then Err LayoutChangedByCoarsening else Ok coarsened)))"

end
