(* ===== verification/Feature_Layout.thy ===== *)
theory Feature_Layout
  imports Feature_Map
begin

text \<open>
  Correctness of the compiled layout: the merged ranges are the canonical ranges of the bytes the
  features name, every field reads its own bytes out of the packed extraction, compilation fails
  after validation only on a length overflow, and coarsening never changes the layout.
\<close>

section \<open>Merged intervals\<close>

definition cover :: "(u64 \<times> u64) list \<Rightarrow> u64 set" where
  "cover xs = (\<Union>x \<in> set xs. {fst x..<snd x})"

text \<open>Non-empty intervals in ascending order with a gap between neighbours.\<close>

definition separated :: "(u64 \<times> u64) list \<Rightarrow> bool" where
  "separated xs \<longleftrightarrow> sorted_wrt (\<lambda>x y. snd x < fst y) xs \<and> (\<forall>x \<in> set xs. fst x < snd x)"

lemma cover_simps [simp]: "cover [] = {}" "cover (x # xs) = {fst x..<snd x} \<union> cover xs"
  "cover (xs @ ys) = cover xs \<union> cover ys"
  by (auto simp: cover_def)

lemma separated_unique:
  "separated xs \<Longrightarrow> separated ys \<Longrightarrow> cover xs = cover ys \<Longrightarrow> xs = ys"
proof (induction xs arbitrary: ys)
  case Nil
  then show ?case by (cases ys) (auto simp: separated_def)
next
  case (Cons x xs)
  obtain y ys' where ys: "ys = y # ys'"
    using Cons.prems by (cases ys) (auto simp: separated_def)
  have later: "a < b" if "separated (z # zs)" "a \<in> {fst z..<snd z}" "b \<in> cover zs" for z zs a b
    using that by (fastforce simp: separated_def cover_def)
  have gap: "snd z \<notin> cover (z # zs)" if "separated (z # zs)" for z zs
    using that by (fastforce simp: separated_def cover_def)
  have low: "fst z \<le> b" if "separated (z # zs)" "b \<in> cover (z # zs)" for z zs b
    using that by (fastforce simp: separated_def cover_def)
  have mem: "fst z \<in> cover (z # zs)" if "separated (z # zs)" for z zs
    using that by (simp add: separated_def)
  have eq: "cover (x # xs) = cover (y # ys')" and sep: "separated (x # xs)" "separated (y # ys')"
    using Cons.prems unfolding ys by simp_all
  have fst: "fst x = fst y"
    using low[OF sep(1), of "fst y"] low[OF sep(2), of "fst x"] mem[OF sep(1)] mem[OF sep(2)] unfolding eq
    by (intro antisym)
  have "snd x \<notin> cover (y # ys')" "snd y \<notin> cover (x # xs)"
    using gap[OF sep(1)] gap[OF sep(2)] unfolding eq by simp_all
  then have "\<not> snd x < snd y" "\<not> snd y < snd x"
    using sep fst by (auto simp: separated_def)
  then have "x = y" using fst by (simp add: prod_eq_iff)
  have rest: "cover zs = cover (z # zs) - {fst z..<snd z}" if "separated (z # zs)" for z zs
    using later[OF that] by force
  have "cover xs = cover (x # xs) - {fst x..<snd x}" by (rule rest[OF sep(1)])
  also have "\<dots> = cover ys'" unfolding eq using rest[OF sep(2)] \<open>x = y\<close> by (simp only:)
  finally have "cover xs = cover ys'" .
  moreover have "separated xs" "separated ys'" using sep by (simp_all add: separated_def)
  ultimately have "xs = ys'" using Cons.IH by blast
  then show ?case using \<open>x = y\<close> ys by simp
qed

lemma merge_step_spec:
  assumes "separated acc" "fst x < snd x" "acc \<noteq> [] \<Longrightarrow> fst (last acc) \<le> fst x"
  shows "separated (merge_step acc x)" "cover (merge_step acc x) = cover acc \<union> {fst x..<snd x}"
    "merge_step acc x \<noteq> []" "fst (last (merge_step acc x)) \<le> fst x"
    "\<forall>y \<in> insert x (set acc). \<exists>z \<in> set (merge_step acc x). fst z \<le> fst y \<and> snd y \<le> snd z"
proof -
  obtain a b where x: "x = (a, b)" by (cases x)
  have "separated (merge_step acc x) \<and> cover (merge_step acc x) = cover acc \<union> {fst x..<snd x}
    \<and> merge_step acc x \<noteq> [] \<and> fst (last (merge_step acc x)) \<le> fst x
    \<and> (\<forall>y \<in> insert x (set acc). \<exists>z \<in> set (merge_step acc x). fst z \<le> fst y \<and> snd y \<le> snd z)"
  proof (cases "acc \<noteq> [] \<and> a \<le> snd (last acc)")
    case True
    then obtain pre s e where acc: "acc = pre @ [(s, e)]" by (metis append_butlast_last_id surj_pair)
    have m: "merge_step acc x = pre @ [(s, max e b)]" using True by (simp add: merge_step_def x acc)
    have "s \<le> a" "a < b" "a \<le> e" using assms(2,3) True by (auto simp: acc x)
    then have "separated (pre @ [(s, max e b)])" "{s..<max e b} = {s..<e} \<union> {a..<b}"
      using assms(1) by (auto simp: separated_def acc sorted_wrt_append max_def)
    moreover have "\<exists>z \<in> set (pre @ [(s, max e b)]). fst z \<le> fst y \<and> snd y \<le> snd z" if "y \<in> insert x (set acc)" for y
    proof (cases "y \<in> set pre")
      case False
      then have "y = x \<or> y = (s, e)" using that by (simp add: acc)
      then have "fst (s, max e b) \<le> fst y \<and> snd y \<le> snd (s, max e b)" using \<open>s \<le> a\<close> by (auto simp: x)
      then show ?thesis by (intro bexI[of _ "(s, max e b)"]) simp_all
    qed auto
    ultimately show ?thesis using \<open>s \<le> a\<close> unfolding m by (simp add: acc x Un_assoc)
  next
    case False
    then have m: "merge_step acc x = acc @ [x]" by (auto simp: merge_step_def x)
    have "snd y < a" if y: "y \<in> set acc" for y
    proof -
      obtain pre l where acc: "acc = pre @ [l]" using y by (cases acc rule: rev_cases) auto
      have "y = l \<or> snd y < fst l" "fst l < snd l" using assms(1) y by (auto simp: separated_def acc sorted_wrt_append)
      then show ?thesis using False by (auto simp: acc)
    qed
    then have "separated (acc @ [x])" using assms(1,2) by (auto simp: separated_def sorted_wrt_append x)
    then show ?thesis unfolding m by auto
  qed
  then show "separated (merge_step acc x)" "cover (merge_step acc x) = cover acc \<union> {fst x..<snd x}"
    "merge_step acc x \<noteq> []" "fst (last (merge_step acc x)) \<le> fst x"
    "\<forall>y \<in> insert x (set acc). \<exists>z \<in> set (merge_step acc x). fst z \<le> fst y \<and> snd y \<le> snd z" by blast+
qed

lemma merge_fold_spec:
  assumes "separated acc" "sorted (map fst xs)" "\<forall>x \<in> set xs. fst x < snd x"
    "acc \<noteq> [] \<Longrightarrow> \<forall>x \<in> set xs. fst (last acc) \<le> fst x"
  shows "separated (foldl merge_step acc xs) \<and> cover (foldl merge_step acc xs) = cover acc \<union> cover xs
    \<and> (\<forall>y \<in> set acc \<union> set xs. \<exists>z \<in> set (foldl merge_step acc xs). fst z \<le> fst y \<and> snd y \<le> snd z)"
  using assms
proof (induction xs arbitrary: acc)
  case Nil
  then show ?case by auto
next
  case (Cons x xs)
  have "fst x < snd x" "acc \<noteq> [] \<Longrightarrow> fst (last acc) \<le> fst x" using Cons.prems by auto
  note m = merge_step_spec[OF Cons.prems(1) this]
  have later: "\<forall>y \<in> set xs. fst (last (merge_step acc x)) \<le> fst y"
    using m(4) Cons.prems(2) by (auto intro: order_trans)
  have IH: "separated (foldl merge_step (merge_step acc x) xs)"
    "cover (foldl merge_step (merge_step acc x) xs) = cover (merge_step acc x) \<union> cover xs"
    "\<forall>y \<in> set (merge_step acc x) \<union> set xs. \<exists>z \<in> set (foldl merge_step (merge_step acc x) xs). fst z \<le> fst y \<and> snd y \<le> snd z"
    using Cons.IH[OF m(1)] Cons.prems(2,3) later by simp_all
  have "\<exists>z \<in> set (foldl merge_step (merge_step acc x) xs). fst z \<le> fst y \<and> snd y \<le> snd z"
    if y: "y \<in> set acc \<union> set (x # xs)" for y
  proof (cases "y \<in> set xs")
    case False
    then have "y \<in> insert x (set acc)" using y by auto
    then obtain z where "z \<in> set (merge_step acc x)" "fst z \<le> fst y" "snd y \<le> snd z" using m(5) by blast
    then show ?thesis using IH(3) by (meson UnI1 order_trans)
  qed (use IH(3) in blast)
  then show ?case using IH(1,2) m(2) by auto
qed

lemma merge_intervals_spec:
  assumes "\<forall>x \<in> set xs. fst x < snd x"
  shows "separated (merge_intervals xs)" "cover (merge_intervals xs) = cover xs"
    "\<forall>y \<in> set xs. \<exists>z \<in> set (merge_intervals xs). fst z \<le> fst y \<and> snd y \<le> snd z"
  using merge_fold_spec[of "[]" "sort_key fst xs"] assms
  by (simp_all add: merge_intervals_def separated_def cover_def)

text \<open>The merged ranges do not depend on the order in which features with equal offset are sorted.\<close>

lemma merge_any_order:
  assumes "\<forall>x \<in> set xs. fst x < snd x" "set ys = set xs" "sorted (map fst ys)"
  shows "foldl merge_step [] ys = merge_intervals xs"
proof (rule separated_unique)
  show "separated (foldl merge_step [] ys)" "cover (foldl merge_step [] ys) = cover (merge_intervals xs)"
    using merge_fold_spec[of "[]" ys] merge_intervals_spec[OF assms(1)] assms
    by (simp_all add: separated_def cover_def)
qed (rule merge_intervals_spec[OF assms(1)])

section \<open>Validated maps\<close>

definition width_of :: "feature \<Rightarrow> u32" where
  "width_of f = (case feature_width f of Ok w \<Rightarrow> w | _ \<Rightarrow> 0)"

definition end_of :: "feature \<Rightarrow> u64" where
  "end_of f = ft_offset f + ucast (width_of f)"

lemma feature_width_pos: "feature_width f = Ok w \<Longrightarrow> 0 < unat w"
proof -
  assume "feature_width f = Ok w"
  then have "w \<noteq> 0"
    by (cases "ft_value_type f") (auto simp: feature_width_def res_simps split: option.splits if_splits)
  then show ?thesis by (simp add: unat_gt_0)
qed

text \<open>What validation guarantees of one feature.\<close>

definition feature_ok :: "feature_map \<Rightarrow> feature \<Rightarrow> bool" where
  "feature_ok m f \<longleftrightarrow> feature_width f = Ok (width_of f)
     \<and> unat (ft_offset f) + unat (width_of f) < 2 ^ 64 \<and> ft_offset f < end_of f
     \<and> (\<exists>r \<in> set (mp_regions m). rg_name r = ft_region f \<and> end_of f \<le> rg_size r)"

lemma validate_feature_bounds_Ok:
  assumes "validate_feature_bounds m f = Ok u"
  shows "feature_ok m f"
proof -
  obtain r w e where r: "find (\<lambda>r. rg_name r = ft_region f) (mp_regions m) = Some r" and w: "feature_width f = Ok w"
    and e: "checked_add (ft_offset f) (ucast w) = Some e" "e \<le> rg_size r"
    using assms by (auto simp: validate_feature_bounds_def feature_end_def res_simps not_less split: if_splits)
  have ww: "width_of f = w" using w by (simp add: width_of_def)
  have fit: "unat (ft_offset f) + unat w < 2 ^ 64" "e = end_of f"
    using e(1) ww by (auto simp: checked_simps end_of_def)
  have "unat (end_of f) = unat (ft_offset f) + unat w"
    using fit(1) ww unat_add_no_overflow[of "ft_offset f" "ucast w"] by (simp add: end_of_def)
  then have "ft_offset f < end_of f" using feature_width_pos[OF w] by (simp add: word_less_nat_alt)
  moreover have "r \<in> set (mp_regions m)" "rg_name r = ft_region f" using r by (auto simp: find_Some_iff)
  ultimately show ?thesis using w ww fit e(2) by (auto simp: feature_ok_def)
qed

lemma validate_features_Ok:
  "validate_features m seen fs = Ok u \<Longrightarrow> distinct (map ft_name fs) \<and> ft_name ` set fs \<inter> seen = {}
     \<and> (\<forall>f \<in> set fs. feature_ok m f \<and> validate_discretize m f = Ok ())"
  by (induction fs arbitrary: seen) (auto simp: res_simps validate_feature_bounds_Ok split: if_splits)

lemma validate_regions_Ok:
  "validate_regions rl seen rs = Ok u \<Longrightarrow> distinct (map rg_name rs) \<and> rg_name ` set rs \<inter> seen = {}
     \<and> (\<forall>r \<in> set rs. \<exists>l. rl (rg_name r) = Some l \<and> rg_size r \<le> rl_size l)"
  by (induction rs arbitrary: seen) (fastforce simp: res_simps not_less split: if_splits)+

lemma validate_feature_map_Ok:
  assumes "validate_feature_map m rl = Ok u"
  shows "distinct (map rg_name (mp_regions m))" "distinct (map ft_name (mp_features m))"
    "\<And>r. r \<in> set (mp_regions m) \<Longrightarrow> \<exists>l. rl (rg_name r) = Some l \<and> rg_size r \<le> rl_size l"
    "\<And>f. f \<in> set (mp_features m) \<Longrightarrow> feature_ok m f"
    "\<And>f. f \<in> set (mp_features m) \<Longrightarrow> validate_discretize m f = Ok ()"
  using assms validate_features_Ok[of m "{}" "mp_features m"] validate_regions_Ok[of rl "{}" "mp_regions m"]
  by (auto simp: validate_feature_map_def res_simps split: if_splits)

lemma no_panics:
  "feature_width f \<noteq> Panic p" "validate_feature_map m rl \<noteq> Panic p"
proof -
  show width: "feature_width f \<noteq> Panic p" for f p
    by (auto simp: feature_width_def res_simps split: option.splits if_splits)
  have name: "validate_name a b h \<noteq> Panic p" for a b h p by (auto simp: validate_name_def split: list.splits if_splits)
  have grid: "validate_grid_target m f t b \<noteq> Panic p" for f t b p
    by (auto simp: validate_grid_target_def res_simps split: if_splits)
  have "validate_discretize m f \<noteq> Panic p" for f p
    by (auto simp: validate_discretize_def res_simps grid split: discretize.splits if_splits)
  moreover have "validate_feature_bounds m f \<noteq> Panic p" for f p
    by (auto simp: validate_feature_bounds_def feature_end_def res_simps width split: if_splits)
  ultimately have "validate_features m seen fs \<noteq> Panic p" for seen fs p
    by (induction fs arbitrary: seen) (auto simp: res_simps name split: if_splits)
  moreover have "validate_regions rl seen rs \<noteq> Panic p" for seen rs p
    by (induction rs arbitrary: seen) (auto simp: res_simps name split: if_splits)
  ultimately show "validate_feature_map m rl \<noteq> Panic p"
    by (auto simp: validate_feature_map_def res_simps name split: if_splits)
qed

section \<open>Ranges of a region\<close>

definition region_features :: "feature_map \<Rightarrow> feature_region \<Rightarrow> feature list" where
  "region_features m r = filter (\<lambda>f. ft_region f = rg_name r) (mp_features m)"

definition region_intervals :: "feature_map \<Rightarrow> feature_region \<Rightarrow> (u64 \<times> u64) list" where
  "region_intervals m r = map (\<lambda>f. (ft_offset f, end_of f)) (region_features m r)"

definition range_of :: "feature_region \<Rightarrow> region_layout \<Rightarrow> u64 \<times> u64 \<Rightarrow> extract_range" where
  "range_of r l = (\<lambda>(s, e). \<lparr>er_region = rg_name r, er_layout_version = rl_layout_version l, er_offset = s, er_len = ucast (e - s)\<rparr>)"

lemma feature_interval_ok: "feature_ok m f \<Longrightarrow> feature_interval f = Ok (ft_offset f, end_of f)"
  by (simp add: feature_ok_def feature_interval_def feature_end_def checked_add_def end_of_def)

lemma interval_range_eq:
  assumes "s < e"
  shows "interval_range r l (s, e) = (if unat (e - s) < 2 ^ 32 then Ok (range_of r l (s, e)) else Err TotalLengthOverflow)"
  using assms by (simp add: interval_range_def sub_or_panic_def range_of_def)

lemma region_ranges_eq:
  assumes "validate_feature_map m rl = Ok u" "r \<in> set (mp_regions m)" "rl (rg_name r) = Some l"
  shows "region_ranges m rl r = collect_res (interval_range r l) (merge_intervals (region_intervals m r))"
proof -
  have "collect_res feature_interval (region_features m r) = Ok (region_intervals m r)"
    unfolding region_intervals_def using validate_feature_map_Ok(4)[OF assms(1)] feature_interval_ok
    by (intro collect_res_map) (auto simp: region_features_def)
  then show ?thesis using assms(3) by (simp add: region_ranges_def region_features_def)
qed

lemma region_intervals_ok:
  assumes "validate_feature_map m rl = Ok u" "r \<in> set (mp_regions m)"
  shows "\<forall>x \<in> set (region_intervals m r). fst x < snd x \<and> snd x \<le> rg_size r"
proof
  fix x assume "x \<in> set (region_intervals m r)"
  then obtain f where f: "f \<in> set (mp_features m)" "ft_region f = rg_name r" "x = (ft_offset f, end_of f)"
    by (auto simp: region_intervals_def region_features_def)
  obtain r' where r': "r' \<in> set (mp_regions m)" "rg_name r' = ft_region f" "end_of f \<le> rg_size r'"
    and lt: "ft_offset f < end_of f"
    using validate_feature_map_Ok(4)[OF assms(1) f(1)] by (auto simp: feature_ok_def)
  have "r' = r" using validate_feature_map_Ok(1)[OF assms(1)] r' f(2) assms(2)
    by (metis (no_types, lifting) distinct_map inj_onD)
  then show "fst x < snd x \<and> snd x \<le> rg_size r" using r' lt f(3) by simp
qed

lemma ranges_of_region:
  assumes "validate_feature_map m rl = Ok u" "r \<in> set (mp_regions m)" "rl (rg_name r) = Some l"
  shows "region_ranges m rl r = (if \<forall>x \<in> set (merge_intervals (region_intervals m r)). unat (snd x - fst x) < 2 ^ 32
    then Ok (map (range_of r l) (merge_intervals (region_intervals m r))) else Err TotalLengthOverflow)"
proof -
  let ?xs = "merge_intervals (region_intervals m r)"
  have eq: "interval_range r l x = (if unat (snd x - fst x) < 2 ^ 32 then Ok (range_of r l x) else Err TotalLengthOverflow)"
    if "x \<in> set ?xs" for x
  proof -
    have "fst x < snd x"
      using merge_intervals_spec(1)[of "region_intervals m r"] region_intervals_ok[OF assms(1,2)] that
      by (auto simp: separated_def)
    then show ?thesis using interval_range_eq[of "fst x" "snd x" r l] by simp
  qed
  show ?thesis unfolding region_ranges_eq[OF assms]
    using collect_res_map[of ?xs "interval_range r l" "range_of r l"]
      collect_res_only_Err[of ?xs "interval_range r l" TotalLengthOverflow] eq
    by (smt (verit))
qed

lemma range_of_simps [simp]:
  "er_region (range_of r l x) = rg_name r" "er_offset (range_of r l x) = fst x"
  "er_len (range_of r l x) = ucast (snd x - fst x)" "er_layout_version (range_of r l x) = rl_layout_version l"
  by (simp_all add: range_of_def case_prod_beta)

lemma range_end:
  assumes "fst x < snd x" "unat (snd x - fst x) < 2 ^ 32"
  shows "unat (er_offset (range_of r l x)) + unat (er_len (range_of r l x)) = unat (snd x)"
  using assms by (simp add: unat_ucast_u64_u32 unat_sub word_less_nat_alt word_le_nat_alt)

text \<open>The layout of a validated map: the canonical ranges of the regions, in declaration order.\<close>

definition layout_ranges :: "feature_map \<Rightarrow> region_layouts \<Rightarrow> extract_range list" where
  "layout_ranges m rl = concat (map (\<lambda>r. map (range_of r (the (rl (rg_name r)))) (merge_intervals (region_intervals m r)))
     (mp_regions m))"

text \<open>No merged range of the map is longer than \<open>u32\<close> allows.\<close>

definition ranges_fit :: "feature_map \<Rightarrow> bool" where
  "ranges_fit m \<longleftrightarrow> (\<forall>r \<in> set (mp_regions m). \<forall>x \<in> set (merge_intervals (region_intervals m r)). unat (snd x - fst x) < 2 ^ 32)"

lemma all_ranges:
  assumes "validate_feature_map m rl = Ok u"
  shows "bind_res (collect_res (region_ranges m rl) (mp_regions m)) (\<lambda>rs. Ok (concat rs))
    = (if ranges_fit m then Ok (layout_ranges m rl) else Err TotalLengthOverflow)"
proof -
  let ?f = "\<lambda>r. map (range_of r (the (rl (rg_name r)))) (merge_intervals (region_intervals m r))"
  let ?ok = "\<lambda>r. \<forall>x \<in> set (merge_intervals (region_intervals m r)). unat (snd x - fst x) < 2 ^ 32"
  have one: "region_ranges m rl r = (if ?ok r then Ok (?f r) else Err TotalLengthOverflow)"
    if "r \<in> set (mp_regions m)" for r
    using validate_feature_map_Ok(3)[OF assms that] ranges_of_region[OF assms that] by force
  show ?thesis
  proof (cases "ranges_fit m")
    case True
    then have "collect_res (region_ranges m rl) (mp_regions m) = Ok (map ?f (mp_regions m))"
      using one by (intro collect_res_map) (auto simp: ranges_fit_def)
    then show ?thesis using True by (simp add: layout_ranges_def)
  next
    case False
    then have "\<exists>r \<in> set (mp_regions m). \<not> ?ok r" unfolding ranges_fit_def by blast
    then have "collect_res (region_ranges m rl) (mp_regions m) = Err TotalLengthOverflow"
      using one by (intro collect_res_only_Err) (auto split: if_splits)
    then show ?thesis using False by simp
  qed
qed

section \<open>Packed offsets\<close>

definition lens :: "extract_range list \<Rightarrow> nat" where
  "lens rs = sum_list (map (\<lambda>r. unat (er_len r)) rs)"

lemma lens_simps [simp]: "lens [] = 0" "lens (r # rs) = unat (er_len r) + lens rs" "lens (rs @ rs') = lens rs + lens rs'"
  by (simp_all add: lens_def)

lemma sum_lens_eq:
  "sum_lens acc rs = (if unat acc + lens rs < 2 ^ 32 then Ok (acc + word_of_nat (lens rs)) else Err TotalLengthOverflow)"
proof (induction rs arbitrary: acc)
  case Nil
  have "unat acc < 2 ^ LENGTH(32)" by (rule unsigned_less)
  then show ?case by simp
next
  case (Cons r rs)
  then show ?case
    by (cases "unat acc + unat (er_len r) < 2 ^ 32")
      (simp_all add: checked_add_def unat_add_no_overflow add.assoc)
qed

lemma scan_ranges_eq:
  "unat base + lens rs < 2 ^ 32 \<Longrightarrow>
     scan_ranges base rs = map (\<lambda>i. (base + word_of_nat (lens (take i rs)), rs ! i)) [0..<length rs]"
proof (induction rs arbitrary: base)
  case (Cons r rs)
  have "unat base + unat (er_len r) < 2 ^ 32" using Cons.prems by simp
  then have c: "checked_add base (er_len r) = Some (base + er_len r)" "unat (base + er_len r) = unat base + unat (er_len r)"
    by (simp_all add: checked_add_def unat_add_no_overflow)
  have "scan_ranges (base + er_len r) rs
      = map (\<lambda>i. (base + er_len r + word_of_nat (lens (take i rs)), rs ! i)) [0..<length rs]"
    using Cons.IH Cons.prems c(2) by simp
  then show ?case using c(1) by (simp add: map_upt_Suc add.assoc del: upt_Suc)
qed simp

lemma find_range_Ok:
  assumes "\<And>br. br \<in> set brs \<Longrightarrow> covers f w (snd br) = Ok (P br)"
  shows "find_range f w brs = Ok (find P brs)"
  using assms by (induction brs) auto

section \<open>Fields\<close>

definition in_range :: "feature \<Rightarrow> extract_range \<Rightarrow> bool" where
  "in_range f r \<longleftrightarrow> er_region r = ft_region f \<and> er_offset r \<le> ft_offset f
     \<and> unat (ft_offset f) + unat (width_of f) \<le> unat (er_offset r) + unat (er_len r)"

lemma layout_range_end:
  assumes "validate_feature_map m rl = Ok u" "ranges_fit m" "r \<in> set (layout_ranges m rl)"
  shows "unat (er_offset r) + unat (er_len r) < 2 ^ 64"
proof -
  obtain rg x where x: "rg \<in> set (mp_regions m)" "x \<in> set (merge_intervals (region_intervals m rg))"
    "r = range_of rg (the (rl (rg_name rg))) x"
    using assms(3) by (auto simp: layout_ranges_def)
  have "fst x < snd x"
    using merge_intervals_spec(1)[of "region_intervals m rg"] region_intervals_ok[OF assms(1) x(1)] x(2)
    by (auto simp: separated_def)
  moreover have "unat (snd x - fst x) < 2 ^ 32" using assms(2) x by (auto simp: ranges_fit_def)
  moreover have "unat (snd x) < 2 ^ LENGTH(64)" by (rule unsigned_less)
  ultimately show ?thesis using range_end[of x rg "the (rl (rg_name rg))"] x(3) by simp
qed

lemma feature_in_some_range:
  assumes "validate_feature_map m rl = Ok u" "ranges_fit m" "f \<in> set (mp_features m)"
  shows "\<exists>r \<in> set (layout_ranges m rl). in_range f r"
proof -
  note ok = validate_feature_map_Ok(4)[OF assms(1,3)]
  obtain rg where rg: "rg \<in> set (mp_regions m)" "rg_name rg = ft_region f" using ok by (auto simp: feature_ok_def)
  note iv = region_intervals_ok[OF assms(1) rg(1)]
  have mem: "(ft_offset f, end_of f) \<in> set (region_intervals m rg)"
    using assms(3) rg(2) by (auto simp: region_intervals_def region_features_def)
  then obtain x where x: "x \<in> set (merge_intervals (region_intervals m rg))" "fst x \<le> ft_offset f" "end_of f \<le> snd x"
    using merge_intervals_spec(3)[of "region_intervals m rg"] iv by fastforce
  have lt: "fst x < snd x" using merge_intervals_spec(1)[of "region_intervals m rg"] iv x(1) by (auto simp: separated_def)
  have fit: "unat (snd x - fst x) < 2 ^ 32" using assms(2) rg(1) x(1) by (auto simp: ranges_fit_def)
  have "unat (end_of f) = unat (ft_offset f) + unat (width_of f)"
    using ok unat_add_no_overflow[of "ft_offset f" "ucast (width_of f)"] by (simp add: feature_ok_def end_of_def)
  then have "in_range f (range_of rg (the (rl (rg_name rg))) x)"
    unfolding in_range_def using range_end[OF lt fit] rg(2) x(2,3) by (simp add: word_le_nat_alt)
  moreover have "range_of rg (the (rl (rg_name rg))) x \<in> set (layout_ranges m rl)"
    using rg(1) x(1) by (auto simp: layout_ranges_def)
  ultimately show ?thesis by blast
qed

lemma covers_eq:
  assumes "feature_ok m f" "unat (er_offset r) + unat (er_len r) < 2 ^ 64"
  shows "covers f (width_of f) r = Ok (in_range f r)"
proof -
  have a: "unat (ft_offset f) + unat (width_of f) < 2 ^ 64" using assms(1) by (simp add: feature_ok_def)
  have "add_or_panic (ft_offset f) (ucast (width_of f)) = (Ok (ft_offset f + ucast (width_of f)) :: (compile_error, u64) res)"
    "add_or_panic (er_offset r) (ucast (er_len r)) = (Ok (er_offset r + ucast (er_len r)) :: (compile_error, u64) res)"
    using a assms(2) by (simp_all add: add_or_panic_def)
  moreover have "unat (ft_offset f + ucast (width_of f)) = unat (ft_offset f) + unat (width_of f)"
    "unat (er_offset r + ucast (er_len r)) = unat (er_offset r) + unat (er_len r)"
    using a assms(2) unat_add_no_overflow[of "ft_offset f" "ucast (width_of f)"]
      unat_add_no_overflow[of "er_offset r" "ucast (er_len r)"] by simp_all
  ultimately show ?thesis by (auto simp: covers_def in_range_def word_le_nat_alt)
qed

lemma lens_take: "i < length rs \<Longrightarrow> lens (take i rs) + unat (er_len (rs ! i)) \<le> lens rs"
proof -
  assume "i < length rs"
  then have "rs = take i rs @ rs ! i # drop (Suc i) rs" by (rule id_take_nth_drop)
  then show ?thesis by (metis add.assoc le_add1 lens_simps(2,3))
qed

text \<open>What \<open>compile_field\<close> returns, in terms of the range \<open>i\<close> that holds the feature.\<close>

definition field_of :: "nat \<Rightarrow> feature \<Rightarrow> extract_range list \<Rightarrow> nat \<Rightarrow> compiled_field" where
  "field_of k f rs i = \<lparr>cf_field_index = word_of_nat k, cf_name = ft_name f, cf_region = ft_region f,
     cf_source_offset = ft_offset f, cf_width = width_of f,
     cf_packed_offset = word_of_nat (lens (take i rs)) + ucast (ft_offset f - er_offset (rs ! i)),
     cf_value_type = ft_value_type f, cf_semantics = ft_semantics f, cf_stability = ft_stability f,
     cf_discretize = ft_discretize f, cf_valid_when = ft_valid_when f\<rparr>"

lemma compile_field_eq:
  assumes "validate_feature_map m rl = Ok u" "ranges_fit m" "lens (layout_ranges m rl) < 2 ^ 32"
    "f \<in> set (mp_features m)"
  obtains i where "i < length (layout_ranges m rl)" "in_range f (layout_ranges m rl ! i)"
    "unat (cf_packed_offset (field_of k f (layout_ranges m rl) i))
       = lens (take i (layout_ranges m rl)) + (unat (ft_offset f) - unat (er_offset (layout_ranges m rl ! i)))"
    "compile_field k f \<lparr>cl_ranges = layout_ranges m rl\<rparr>
       = (if k < 2 ^ 32 then Ok (field_of k f (layout_ranges m rl) i) else Err TotalLengthOverflow)"
proof -
  let ?rs = "layout_ranges m rl"
  note ok = validate_feature_map_Ok(4)[OF assms(1,4)]
  have w: "feature_width f = Ok (width_of f)" "0 < unat (width_of f)"
    using ok feature_width_pos by (auto simp: feature_ok_def)
  have scan: "scan_ranges 0 ?rs = map (\<lambda>i. (word_of_nat (lens (take i ?rs)), ?rs ! i)) [0..<length ?rs]"
    using scan_ranges_eq[of 0 ?rs] assms(3) by simp
  have find: "find_range f (width_of f) (scan_ranges 0 ?rs) = Ok (find (\<lambda>br. in_range f (snd br)) (scan_ranges 0 ?rs))"
    using covers_eq[OF ok] layout_range_end[OF assms(1,2)] by (intro find_range_Ok) (auto simp: scan)
  have "\<exists>br \<in> set (scan_ranges 0 ?rs). in_range f (snd br)"
    using feature_in_some_range[OF assms(1,2,4)] by (force simp: scan in_set_conv_nth)
  then obtain br where "find (\<lambda>br. in_range f (snd br)) (scan_ranges 0 ?rs) = Some br"
    by (cases "find (\<lambda>br. in_range f (snd br)) (scan_ranges 0 ?rs)") (auto simp: find_None_iff)
  moreover from this obtain i where i: "i < length ?rs" "br = (word_of_nat (lens (take i ?rs)), ?rs ! i)" "in_range f (?rs ! i)"
    by (auto simp: find_Some_iff scan)
  ultimately have found: "find_range f (width_of f) (scan_ranges 0 ?rs) = Ok (Some (word_of_nat (lens (take i ?rs)), ?rs ! i))"
    using find by simp
  let ?d = "ft_offset f - er_offset (?rs ! i)"
  have le: "er_offset (?rs ! i) \<le> ft_offset f" using i(3) by (simp add: in_range_def)
  then have d: "unat ?d = unat (ft_offset f) - unat (er_offset (?rs ! i))" by (simp add: unat_sub word_le_nat_alt)
  have "unat ?d < unat (er_len (?rs ! i))" using i(3) w(2) d le by (auto simp: in_range_def word_le_nat_alt)
  then have fit: "lens (take i ?rs) + unat ?d < 2 ^ 32" "unat ?d < 2 ^ 32"
    using lens_take[OF i(1)] assms(3) by linarith+
  have b: "unat (word_of_nat (lens (take i ?rs)) :: u32) = lens (take i ?rs)"
    using fit(1) by (simp add: unsigned_of_nat take_bit_nat_eq_self)
  have u: "unat (ucast ?d :: u32) = unat ?d" using fit(2) by (rule unat_ucast_u64_u32)
  have "checked_add (word_of_nat (lens (take i ?rs)) :: u32) (ucast ?d) = Some (word_of_nat (lens (take i ?rs)) + ucast ?d)"
    using b u fit(1) by (simp add: checked_add_def)
  then have "compile_field k f \<lparr>cl_ranges = ?rs\<rparr> = (if k < 2 ^ 32 then Ok (field_of k f ?rs i) else Err TotalLengthOverflow)"
    using w(1) found le fit(2) by (simp add: compile_field_def sub_or_panic_def field_of_def)
  moreover have "unat (cf_packed_offset (field_of k f ?rs i)) = lens (take i ?rs) + (unat (ft_offset f) - unat (er_offset (?rs ! i)))"
    using b u fit(1) d unat_add_no_overflow[of "word_of_nat (lens (take i ?rs)) :: u32" "ucast ?d"] by (simp add: field_of_def)
  ultimately show thesis using that i by blast
qed

section \<open>Compiled maps\<close>

definition layout_fits :: "feature_map \<Rightarrow> region_layouts \<Rightarrow> bool" where
  "layout_fits m rl \<longleftrightarrow> ranges_fit m \<and> lens (layout_ranges m rl) < 2 ^ 32 \<and> length (mp_features m) \<le> 2 ^ 32"

lemma compile_fields:
  assumes "validate_feature_map m rl = Ok u" "ranges_fit m" "lens (layout_ranges m rl) < 2 ^ 32"
  shows "length (mp_features m) \<le> 2 ^ 32 \<Longrightarrow> \<exists>cs. collect_res (\<lambda>(k, f). compile_field k f \<lparr>cl_ranges = layout_ranges m rl\<rparr>)
      (enumerate 0 (mp_features m)) = Ok cs"
    "\<not> length (mp_features m) \<le> 2 ^ 32 \<Longrightarrow> collect_res (\<lambda>(k, f). compile_field k f \<lparr>cl_ranges = layout_ranges m rl\<rparr>)
      (enumerate 0 (mp_features m)) = Err TotalLengthOverflow"
proof -
  let ?l = "\<lparr>cl_ranges = layout_ranges m rl\<rparr>"
  have one: "if k < 2 ^ 32 then \<exists>c. compile_field k f ?l = Ok c else compile_field k f ?l = Err TotalLengthOverflow"
    if "f \<in> set (mp_features m)" for k f
    using compile_field_eq[OF assms that, of k] by (metis (full_types))
  show "length (mp_features m) \<le> 2 ^ 32 \<Longrightarrow> \<exists>cs. collect_res (\<lambda>(k, f). compile_field k f ?l) (enumerate 0 (mp_features m)) = Ok cs"
    by (intro collect_res_total) (use one in \<open>fastforce simp: in_set_enumerate_eq split: if_splits\<close>)
  assume "\<not> length (mp_features m) \<le> 2 ^ 32"
  then have n: "2 ^ 32 < length (mp_features m)" by simp
  let ?x = "(2 ^ 32, mp_features m ! (2 ^ 32))"
  have "?x \<in> set (enumerate 0 (mp_features m))" using n by (simp add: in_set_enumerate_eq)
  moreover have "compile_field (2 ^ 32) (mp_features m ! (2 ^ 32)) ?l = Err TotalLengthOverflow"
    using one[of "mp_features m ! (2 ^ 32)" "2 ^ 32"] n by (simp only: nth_mem less_irrefl if_False)
  ultimately show "collect_res (\<lambda>(k, f). compile_field k f ?l) (enumerate 0 (mp_features m)) = Err TotalLengthOverflow"
  proof (intro collect_res_only_Err bexI[of _ ?x])
    fix x assume "x \<in> set (enumerate 0 (mp_features m))"
    then have "fst x < length (mp_features m)" "snd x = mp_features m ! fst x" by (simp_all add: in_set_enumerate_eq)
    then have "snd x \<in> set (mp_features m)" by simp
    then obtain k f where "x = (k, f)" "f \<in> set (mp_features m)" by (metis prod.collapse)
    then show "(\<exists>y. (case x of (k, f) \<Rightarrow> compile_field k f ?l) = Ok y) \<or> (case x of (k, f) \<Rightarrow> compile_field k f ?l) = Err TotalLengthOverflow"
      using one[of f k] by (auto split: if_splits)
  qed simp_all
qed

lemma compile_eq:
  assumes "validate_feature_map m rl = Ok u"
  shows "compile_feature_map m rl = (if layout_fits m rl then
    bind_res (collect_res (\<lambda>(k, f). compile_field k f \<lparr>cl_ranges = layout_ranges m rl\<rparr>) (enumerate 0 (mp_features m)))
      (\<lambda>fields. Ok \<lparr>cm_meta = mp_meta m, cm_layout = \<lparr>cl_ranges = layout_ranges m rl\<rparr>, cm_fields = fields,
         cm_total_len = word_of_nat (lens (layout_ranges m rl))\<rparr>)
    else Err TotalLengthOverflow)"
proof -
  have total: "total_feature_bytes_len \<lparr>cl_ranges = rs\<rparr> = (if lens rs < 2 ^ 32 then Ok (word_of_nat (lens rs)) else Err TotalLengthOverflow)" for rs
    by (simp add: total_feature_bytes_len_def sum_lens_eq)
  have "compile_feature_map m rl = bind_res (bind_res (collect_res (region_ranges m rl) (mp_regions m)) (\<lambda>rs. Ok (concat rs))) (\<lambda>rs.
     bind_res (total_feature_bytes_len \<lparr>cl_ranges = rs\<rparr>) (\<lambda>total_len.
     bind_res (collect_res (\<lambda>(index, f). compile_field index f \<lparr>cl_ranges = rs\<rparr>) (enumerate 0 (mp_features m))) (\<lambda>fields.
     Ok \<lparr>cm_meta = mp_meta m, cm_layout = \<lparr>cl_ranges = rs\<rparr>, cm_fields = fields, cm_total_len = total_len\<rparr>)))"
    using assms by (cases "collect_res (region_ranges m rl) (mp_regions m)") (simp_all add: compile_feature_map_def Let_def)
  then show ?thesis unfolding all_ranges[OF assms] total
    using compile_fields(2)[OF assms] by (auto simp: layout_fits_def)
qed

lemma compile_Ok_iff:
  "(\<exists>c. compile_feature_map m rl = Ok c) \<longleftrightarrow> validate_feature_map m rl = Ok () \<and> layout_fits m rl"
proof (cases "validate_feature_map m rl = Ok ()")
  case True
  then show ?thesis using compile_fields(1)[OF True] unfolding compile_eq[OF True]
    by (auto simp: layout_fits_def)
qed (auto simp: compile_feature_map_def res_simps)

lemma compile_Ok:
  assumes "compile_feature_map m rl = Ok c"
  shows "validate_feature_map m rl = Ok ()" "ranges_fit m" "lens (layout_ranges m rl) < 2 ^ 32"
    "cl_ranges (cm_layout c) = layout_ranges m rl" "unat (cm_total_len c) = lens (layout_ranges m rl)"
    "length (cm_fields c) = length (mp_features m)"
    "\<And>k. k < length (mp_features m) \<Longrightarrow> compile_field k (mp_features m ! k) \<lparr>cl_ranges = layout_ranges m rl\<rparr> = Ok (cm_fields c ! k)"
proof -
  show v: "validate_feature_map m rl = Ok ()" and fit: "ranges_fit m" "lens (layout_ranges m rl) < 2 ^ 32"
    using compile_Ok_iff[of m rl] assms by (auto simp: layout_fits_def)
  have f: "layout_fits m rl" using compile_Ok_iff[of m rl] assms by blast
  obtain fields where fields: "collect_res (\<lambda>(k, f). compile_field k f \<lparr>cl_ranges = layout_ranges m rl\<rparr>) (enumerate 0 (mp_features m)) = Ok fields"
    and c: "c = \<lparr>cm_meta = mp_meta m, cm_layout = \<lparr>cl_ranges = layout_ranges m rl\<rparr>, cm_fields = fields,
         cm_total_len = word_of_nat (lens (layout_ranges m rl))\<rparr>"
    using assms f unfolding compile_eq[OF v] by (auto simp: res_simps)
  show "cl_ranges (cm_layout c) = layout_ranges m rl" using c by simp
  show "unat (cm_total_len c) = lens (layout_ranges m rl)"
    using c fit(2) by (simp add: unsigned_of_nat take_bit_nat_eq_self)
  show "length (cm_fields c) = length (mp_features m)" using fields c by (simp add: collect_res_Ok_iff)
  show "\<And>k. k < length (mp_features m) \<Longrightarrow> compile_field k (mp_features m ! k) \<lparr>cl_ranges = layout_ranges m rl\<rparr> = Ok (cm_fields c ! k)"
    using fields c by (auto simp: collect_res_Ok_iff nth_enumerate_eq)
qed

section \<open>Reading fields out of the packed bytes\<close>

text \<open>Extraction concatenates the bytes of the ranges; \<open>mem\<close> gives the bytes of each region.\<close>

definition extract_bytes :: "(string \<Rightarrow> u8 list) \<Rightarrow> extract_range list \<Rightarrow> u8 list" where
  "extract_bytes mem rs = concat (map (\<lambda>r. take (unat (er_len r)) (drop (unat (er_offset r)) (mem (er_region r)))) rs)"

lemma extract_bytes_prefix:
  assumes "\<And>r. r \<in> set rs \<Longrightarrow> unat (er_offset r) + unat (er_len r) \<le> length (mem (er_region r))" "i < length rs"
    "unat (er_offset (rs ! i)) \<le> a" "a + w \<le> unat (er_offset (rs ! i)) + unat (er_len (rs ! i))"
  shows "take w (drop (lens (take i rs) + (a - unat (er_offset (rs ! i)))) (extract_bytes mem rs)) = take w (drop a (mem (er_region (rs ! i))))"
proof -
  let ?slice = "\<lambda>r. take (unat (er_len r)) (drop (unat (er_offset r)) (mem (er_region r)))"
  have len: "length (extract_bytes mem rs') = lens rs'" if "set rs' \<subseteq> set rs" for rs'
    using that assms(1) by (induction rs') (force simp: extract_bytes_def)+
  have split: "extract_bytes mem rs = extract_bytes mem (take i rs) @ ?slice (rs ! i) @ extract_bytes mem (drop (Suc i) rs)"
    using id_take_nth_drop[OF assms(2)] by (metis (no_types, lifting) concat.simps(2) concat_append extract_bytes_def list.simps(9) map_append)
  define d where "d = a - unat (er_offset (rs ! i))"
  have a: "a = unat (er_offset (rs ! i)) + d" "d + w \<le> unat (er_len (rs ! i))" using assms(3,4) by (simp_all add: d_def)
  have m: "unat (er_offset (rs ! i)) + unat (er_len (rs ! i)) \<le> length (mem (er_region (rs ! i)))"
    using assms(1)[OF nth_mem[OF assms(2)]] .
  have "drop (lens (take i rs) + d) (extract_bytes mem rs) = drop d (?slice (rs ! i) @ extract_bytes mem (drop (Suc i) rs))"
    unfolding split using len[of "take i rs"] set_take_subset[of i rs] by simp
  also have "take w \<dots> = take w (drop d (?slice (rs ! i)))" using a(2) m by simp
  also have "\<dots> = take w (drop a (mem (er_region (rs ! i))))" using a(2) by (simp add: a(1) drop_take add.commute min_def)
  finally show ?thesis unfolding d_def .
qed

lemma field_reads_feature:
  assumes "compile_feature_map m rl = Ok c" "k < length (mp_features m)"
    "\<And>r. r \<in> set (cl_ranges (cm_layout c)) \<Longrightarrow> unat (er_offset r) + unat (er_len r) \<le> length (mem (er_region r))"
  shows "take (unat (cf_width (cm_fields c ! k))) (drop (unat (cf_packed_offset (cm_fields c ! k))) (extract_bytes mem (cl_ranges (cm_layout c))))
    = take (unat (width_of (mp_features m ! k))) (drop (unat (ft_offset (mp_features m ! k))) (mem (ft_region (mp_features m ! k))))"
    and "cf_name (cm_fields c ! k) = ft_name (mp_features m ! k)" "feature_width (mp_features m ! k) = Ok (width_of (mp_features m ! k))"
proof -
  note ok = compile_Ok[OF assms(1)]
  let ?f = "mp_features m ! k" and ?rs = "layout_ranges m rl"
  have f: "?f \<in> set (mp_features m)" using assms(2) by simp
  obtain i where i: "i < length ?rs" "in_range ?f (?rs ! i)"
    "unat (cf_packed_offset (field_of k ?f ?rs i)) = lens (take i ?rs) + (unat (ft_offset ?f) - unat (er_offset (?rs ! i)))"
    "compile_field k ?f \<lparr>cl_ranges = ?rs\<rparr> = (if k < 2 ^ 32 then Ok (field_of k ?f ?rs i) else Err TotalLengthOverflow)"
    using compile_field_eq[OF ok(1-3) f] by blast
  then have fld: "cm_fields c ! k = field_of k ?f ?rs i" using ok(7)[OF assms(2)] by (simp split: if_splits)
  have "take (unat (width_of ?f)) (drop (lens (take i ?rs) + (unat (ft_offset ?f) - unat (er_offset (?rs ! i)))) (extract_bytes mem ?rs))
      = take (unat (width_of ?f)) (drop (unat (ft_offset ?f)) (mem (er_region (?rs ! i))))"
    using assms(3) i(1,2) unfolding ok(4) by (intro extract_bytes_prefix) (auto simp: in_range_def word_le_nat_alt)
  then show "take (unat (cf_width (cm_fields c ! k))) (drop (unat (cf_packed_offset (cm_fields c ! k))) (extract_bytes mem (cl_ranges (cm_layout c))))
    = take (unat (width_of ?f)) (drop (unat (ft_offset ?f)) (mem (ft_region ?f)))"
    using i(2,3) unfolding fld ok(4) by (simp add: in_range_def) (simp add: field_of_def)
  show "cf_name (cm_fields c ! k) = ft_name ?f" unfolding fld by (simp add: field_of_def)
  show "feature_width ?f = Ok (width_of ?f)" using validate_feature_map_Ok(4)[OF ok(1) f] by (simp add: feature_ok_def)
qed

section \<open>Room for the layout\<close>

text \<open>Separated intervals below \<open>b\<close> have at most \<open>b\<close> bytes.\<close>

lemma separated_sum:
  assumes "separated xs" "\<forall>x \<in> set xs. snd x \<le> b" "\<forall>x \<in> set xs. a \<le> fst x" "a \<le> b"
  shows "sum_list (map (\<lambda>x. unat (snd x - fst x)) xs) \<le> unat b - unat a"
  using assms
proof (induction xs arbitrary: a)
  case (Cons x xs)
  have x: "fst x < snd x" "a \<le> fst x" "snd x \<le> b" using Cons.prems by (auto simp: separated_def)
  have "sum_list (map (\<lambda>x. unat (snd x - fst x)) xs) \<le> unat b - unat (snd x)"
    using Cons.prems by (intro Cons.IH) (auto simp: separated_def less_imp_le)
  then show ?case using x by (simp add: unat_sub word_le_nat_alt word_less_nat_alt)
qed simp

lemma region_bytes:
  assumes "validate_feature_map m rl = Ok u" "r \<in> set (mp_regions m)"
  shows "sum_list (map (\<lambda>x. unat (snd x - fst x)) (merge_intervals (region_intervals m r))) \<le> unat (rg_size r)"
proof -
  let ?xs = "merge_intervals (region_intervals m r)"
  note iv = region_intervals_ok[OF assms]
  have sep: "separated ?xs" "cover ?xs = cover (region_intervals m r)"
    using merge_intervals_spec[of "region_intervals m r"] iv by auto
  have "snd x \<le> rg_size r" if "x \<in> set ?xs" for x
  proof (rule ccontr)
    assume *: "\<not> snd x \<le> rg_size r"
    have "fst x < snd x" using sep(1) that by (simp add: separated_def)
    moreover from this have "unat (snd x - 1) = unat (snd x) - 1" by (intro unat_minus_one) auto
    ultimately have "snd x - 1 \<in> {fst x..<snd x}" "rg_size r \<le> snd x - 1" using * by (auto simp: word_le_nat_alt word_less_nat_alt)
    then have "snd x - 1 \<in> cover (region_intervals m r)" unfolding sep(2)[symmetric] using that by (auto simp: cover_def)
    then show False using iv \<open>rg_size r \<le> snd x - 1\<close> by (fastforce simp: cover_def)
  qed
  then show ?thesis using separated_sum[OF sep(1), of "rg_size r" 0] by simp
qed

lemma layout_fits_small:
  assumes "validate_feature_map m rl = Ok u" "length (mp_features m) \<le> 2 ^ 32"
    "sum_list (map (\<lambda>r. unat (rg_size r)) (mp_regions m)) < 2 ^ 32"
  shows "layout_fits m rl"
proof -
  have small: "unat (rg_size r) < 2 ^ 32" if "r \<in> set (mp_regions m)" for r
    using member_le_sum_list[of "unat (rg_size r)" "map (\<lambda>r. unat (rg_size r)) (mp_regions m)"] that assms(3) by simp
  have fit: "ranges_fit m" unfolding ranges_fit_def
  proof (intro ballI)
    fix r x assume r: "r \<in> set (mp_regions m)" and x: "x \<in> set (merge_intervals (region_intervals m r))"
    have "unat (snd x - fst x) \<le> sum_list (map (\<lambda>x. unat (snd x - fst x)) (merge_intervals (region_intervals m r)))"
      using x by (intro member_le_sum_list) auto
    then show "unat (snd x - fst x) < 2 ^ 32" using region_bytes[OF assms(1) r] small[OF r] by linarith
  qed
  have "lens (map (range_of r l) (merge_intervals (region_intervals m r))) \<le> unat (rg_size r)" if r: "r \<in> set (mp_regions m)" for r l
  proof -
    have "lens (map (range_of r l) (merge_intervals (region_intervals m r)))
        = sum_list (map (\<lambda>x. unat (snd x - fst x)) (merge_intervals (region_intervals m r)))"
      unfolding lens_def map_map comp_def using fit r
      by (intro arg_cong[of _ _ sum_list] map_cong refl) (simp add: ranges_fit_def unat_ucast_u64_u32)
    then show ?thesis using region_bytes[OF assms(1) r] by simp
  qed
  then have "lens (concat (map (\<lambda>r. map (range_of r (the (rl (rg_name r)))) (merge_intervals (region_intervals m r))) rs))
      \<le> sum_list (map (\<lambda>r. unat (rg_size r)) rs)" if "set rs \<subseteq> set (mp_regions m)" for rs
    using that by (induction rs) (auto intro: add_mono)
  from this[OF order_refl] have "lens (layout_ranges m rl) < 2 ^ 32" using assms(3) unfolding layout_ranges_def by linarith
  with fit assms(2) show ?thesis by (simp add: layout_fits_def)
qed

section \<open>Coarsening keeps the layout\<close>

definition coarse_of :: "radius_factor \<Rightarrow> feature \<Rightarrow> feature \<Rightarrow> bool" where
  "coarse_of rf f g \<longleftrightarrow> (\<exists>d. coarsen_discretize rf (ft_discretize f) = Ok d \<and> g = f\<lparr>ft_discretize := d\<rparr>)"

lemma coarse_of_fields:
  assumes "coarse_of rf f g"
  shows "ft_name g = ft_name f" "ft_region g = ft_region f" "ft_offset g = ft_offset f" "ft_value_type g = ft_value_type f"
    "ft_stability g = ft_stability f" "feature_width g = feature_width f" "width_of g = width_of f" "end_of g = end_of f"
    "validate_feature_bounds m g = validate_feature_bounds m f"
proof -
  obtain d where g: "g = f\<lparr>ft_discretize := d\<rparr>" using assms by (auto simp: coarse_of_def)
  have w: "feature_width (f\<lparr>ft_discretize := d\<rparr>) = feature_width f"
    by (simp add: feature_width_def cong: option.case_cong if_cong)
  then show "feature_width g = feature_width f" "width_of g = width_of f" "end_of g = end_of f"
    by (simp_all add: g width_of_def end_of_def)
  show "validate_feature_bounds m g = validate_feature_bounds m f"
    using w by (simp add: g validate_feature_bounds_def feature_end_def[abs_def] cong: if_cong)
qed (use assms in \<open>auto simp: coarse_of_def\<close>)

lemma scale_positive_Ok: "scale_positive v rf = Ok w \<Longrightarrow> w \<noteq> 0"
  by (auto simp: scale_positive_def Let_def max_def split: if_splits)

lemma coarsen_kind:
  assumes "coarsen_discretize rf d = Ok d'"
  shows "d' = DiscretizeNone \<longleftrightarrow> d = DiscretizeNone" "d' = Bits \<longleftrightarrow> d = Bits"
    "d' = Bucket b \<Longrightarrow> b \<noteq> 0 \<and> (\<exists>b'. d = Bucket b')"
    "d' = Grid x y room w h \<Longrightarrow> w \<noteq> 0 \<and> h \<noteq> 0 \<and> (\<exists>w' h'. d = Grid x y room w' h')"
  using assms by (cases d; auto simp: res_simps dest: scale_positive_Ok)+

lemma find_coarse:
  "list_all2 (coarse_of rf) fs gs \<Longrightarrow>
     rel_option (coarse_of rf) (find (\<lambda>f. ft_name f = t) fs) (find (\<lambda>f. ft_name f = t) gs)"
  by (induction rule: list_all2_induct) (auto simp: coarse_of_fields(1))

lemma validate_grid_target_coarse:
  assumes "list_all2 (coarse_of rf) (mp_features m) (mp_features m')" "ft_name g = ft_name f"
    "validate_grid_target m f t b = Ok ()"
  shows "validate_grid_target m' g t b = Ok ()"
proof -
  obtain f' where f': "find (\<lambda>f. ft_name f = t) (mp_features m) = Some f'"
    using assms(3) by (auto simp: validate_grid_target_def res_simps)
  then obtain g' where g': "find (\<lambda>f. ft_name f = t) (mp_features m') = Some g'" "coarse_of rf f' g'"
    using find_coarse[OF assms(1), of t] by (auto simp: option_rel_Some1)
  have "ft_discretize g' = DiscretizeNone \<longleftrightarrow> ft_discretize f' = DiscretizeNone"
    using g'(2) coarsen_kind(1) by (auto simp: coarse_of_def)
  then show ?thesis
    using assms(2,3) f' g' coarse_of_fields[OF g'(2)] by (auto simp: validate_grid_target_def split: if_splits)
qed

lemma validate_discretize_coarse:
  assumes "list_all2 (coarse_of rf) (mp_features m) (mp_features m')" "coarse_of rf f g" "validate_discretize m f = Ok ()"
  shows "validate_discretize m' g = Ok ()"
proof -
  obtain d where d: "coarsen_discretize rf (ft_discretize f) = Ok d" "ft_discretize g = d"
    using assms(2) by (auto simp: coarse_of_def)
  have bits: "is_bitflags (ft_value_type g) \<Longrightarrow> ft_discretize g \<in> {Bits, DiscretizeNone}"
    using assms(3) coarsen_kind(1,2)[OF d(1)] coarse_of_fields(4)[OF assms(2)] d(2)
    by (auto simp: validate_discretize_def split: if_splits)
  have grid: "validate_grid_target m' g t b = Ok ()" if "validate_grid_target m f t b = Ok ()" for t b
    using validate_grid_target_coarse[OF assms(1) coarse_of_fields(1)[OF assms(2)] that] .
  show ?thesis
  proof (cases "ft_discretize g")
    case (Bucket b)
    then show ?thesis using bits coarsen_kind(3)[OF d(1)] d(2) by (auto simp: validate_discretize_def)
  next
    case (Grid x y room w h)
    then obtain w' h' where f: "ft_discretize f = Grid x y room w' h'" and nz: "w \<noteq> 0" "h \<noteq> 0"
      using coarsen_kind(4)[OF d(1)] d(2) by auto
    then show ?thesis using assms(3) bits Grid grid by (auto simp: validate_discretize_def res_simps split: if_splits)
  qed (use bits in \<open>auto simp: validate_discretize_def\<close>)
qed

lemma validate_features_coarse:
  assumes "list_all2 (coarse_of rf) (mp_features m) (mp_features m')" "mp_regions m' = mp_regions m"
    "list_all2 (coarse_of rf) fs gs" "validate_features m seen fs = Ok ()"
  shows "validate_features m' seen gs = Ok ()"
  using assms(3,4)
proof (induction arbitrary: seen rule: list_all2_induct)
  case (Cons f fs g gs)
  have "validate_feature_bounds m' g = validate_feature_bounds m f"
    using coarse_of_fields(9)[OF Cons.hyps(1)] assms(2) by (simp add: validate_feature_bounds_def)
  then show ?case
    using Cons.IH Cons.prems validate_discretize_coarse[OF assms(1) Cons.hyps(1)] coarse_of_fields(1)[OF Cons.hyps(1)]
    by (auto simp: res_simps split: if_splits)
qed simp

lemma coarsen_Ok:
  assumes "coarsen_l4 m rl rf = Ok m'"
  shows "validate_feature_map m rl = Ok ()" "list_all2 (coarse_of rf) (mp_features m) (mp_features m')"
    "mp_regions m' = mp_regions m" "unat (fm_version (mp_meta m')) = unat (fm_version (mp_meta m)) + 1"
    "validate_feature_map m' rl = Ok ()"
proof -
  obtain v fs where v: "validate_feature_map m rl = Ok ()" "unat (fm_version (mp_meta m)) + 1 < 2 ^ 32"
    "v = fm_version (mp_meta m) + 1"
    and fs: "collect_res (\<lambda>f. bind_res (coarsen_discretize rf (ft_discretize f)) (\<lambda>d. Ok (f\<lparr>ft_discretize := d\<rparr>))) (mp_features m) = Ok fs"
    and m': "m' = m\<lparr>mp_meta := (mp_meta m)\<lparr>fm_version := v\<rparr>, mp_features := fs\<rparr>"
    using assms by (auto simp: coarsen_l4_def res_simps checked_simps)
  show "validate_feature_map m rl = Ok ()" "mp_regions m' = mp_regions m" using v m' by simp_all
  show "unat (fm_version (mp_meta m')) = unat (fm_version (mp_meta m)) + 1" using v m' by (simp add: unat_add_no_overflow)
  show rel: "list_all2 (coarse_of rf) (mp_features m) (mp_features m')"
    using fs m' by (auto simp: collect_res_Ok_iff list_all2_conv_all_nth coarse_of_def res_simps)
  have "validate_features m' {} (mp_features m') = Ok ()"
    using validate_features_coarse[OF rel _ rel] v(1) m' by (auto simp: validate_feature_map_def res_simps split: if_splits)
  then show "validate_feature_map m' rl = Ok ()"
    using v(1) m' by (auto simp: validate_feature_map_def res_simps split: if_splits)
qed

lemma coarse_map:
  "list_all2 (coarse_of rf) fs gs \<Longrightarrow> (\<And>f g. coarse_of rf f g \<Longrightarrow> h f = h g \<and> (P f \<longleftrightarrow> P g)) \<Longrightarrow> map h (filter P fs) = map h (filter P gs)"
  by (induction rule: list_all2_induct) auto

lemma layout_coarse:
  assumes "list_all2 (coarse_of rf) (mp_features m) (mp_features m')" "mp_regions m' = mp_regions m"
  shows "layout_ranges m' rl = layout_ranges m rl" "layout_fits m' rl \<longleftrightarrow> layout_fits m rl"
proof -
  have iv: "region_intervals m' = region_intervals m"
    unfolding region_intervals_def region_features_def
    by (rule ext, rule coarse_map[OF assms(1), symmetric]) (auto simp: coarse_of_fields)
  then show l: "layout_ranges m' rl = layout_ranges m rl" unfolding layout_ranges_def assms(2) by simp
  show "layout_fits m' rl \<longleftrightarrow> layout_fits m rl"
    unfolding layout_fits_def l ranges_fit_def assms(2) iv using list_all2_lengthD[OF assms(1)] by simp
qed

lemma coarsen_layout:
  assumes "compile_feature_map m rl = Ok c" "coarsen_l4 m rl rf = Ok m'"
  shows "\<exists>c'. compile_feature_map m' rl = Ok c' \<and> cm_layout c' = cm_layout c"
proof -
  note co = coarsen_Ok[OF assms(2)]
  have "layout_fits m rl" using compile_Ok_iff[of m rl] assms(1) by blast
  then obtain c' where c': "compile_feature_map m' rl = Ok c'"
    using compile_Ok_iff[of m' rl] co(5) layout_coarse(2)[OF co(2,3)] by blast
  have "cl_ranges (cm_layout c') = cl_ranges (cm_layout c)"
    using compile_Ok(4)[OF assms(1)] compile_Ok(4)[OF c'] layout_coarse(1)[OF co(2,3)] by simp
  then show ?thesis using c' by auto
qed

section \<open>Properties\<close>

text \<open>C14: Compiled fields read the right bytes. For every memory whose regions contain the compiled ranges,
  the bytes of a field in the packed extraction (at its packed offset, of its width) are the bytes that its
  feature declares in its region.\<close>

theorem compile_reads_features:
  assumes "compile_feature_map m rl = Ok c" "k < length (mp_features m)"
    "\<forall>r \<in> set (cl_ranges (cm_layout c)). unat (er_offset r) + unat (er_len r) \<le> length (mem (er_region r))"
  shows "cf_name (cm_fields c ! k) = ft_name (mp_features m ! k) \<and>
    (\<exists>w. feature_width (mp_features m ! k) = Ok w \<and>
      take (unat (cf_width (cm_fields c ! k))) (drop (unat (cf_packed_offset (cm_fields c ! k)))
        (extract_bytes mem (cl_ranges (cm_layout c))))
      = take (unat w) (drop (unat (ft_offset (mp_features m ! k))) (mem (ft_region (mp_features m ! k)))))"
  using field_reads_feature[OF assms(1,2)] assms(3) by blast

text \<open>C13: The compiled ranges of a region are the canonical ranges of its features: non-empty, ascending, with
  gaps between them, covering exactly the bytes of the features. They are the only such list of ranges, so
  the layout does not depend on the order of the features.\<close>

theorem compile_layout_canonical:
  assumes "compile_feature_map m rl = Ok c" "r \<in> set (mp_regions m)"
  shows "let ivs = map (\<lambda>x. (er_offset x, er_offset x + ucast (er_len x))) (filter (\<lambda>x. er_region x = rg_name r) (cl_ranges (cm_layout c)));
             bytes = (\<Union>f \<in> {f \<in> set (mp_features m). ft_region f = rg_name r}. {ft_offset f..<end_of f})
         in separated ivs \<and> cover ivs = bytes \<and> (\<forall>ys. separated ys \<and> cover ys = bytes \<longrightarrow> ys = ivs)"
proof -
  note ok = compile_Ok[OF assms(1)]
  let ?xs = "merge_intervals (region_intervals m r)" and ?l = "the (rl (rg_name r))"
  have sep: "separated ?xs" "cover ?xs = cover (region_intervals m r)"
    using merge_intervals_spec[of "region_intervals m r"] region_intervals_ok[OF ok(1) assms(2)] by auto
  have "filter (\<lambda>x. er_region x = rg_name r) (concat (map (\<lambda>q. map (range_of q (the (rl (rg_name q)))) (merge_intervals (region_intervals m q))) rs))
      = (if r \<in> set rs then map (range_of r ?l) ?xs else [])" if "distinct (map rg_name rs)" "set rs \<subseteq> set (mp_regions m)" for rs
    using that
  proof (induction rs)
    case (Cons q rs)
    have neq: "rg_name q = rg_name r \<longleftrightarrow> q = r"
      using validate_feature_map_Ok(1)[OF ok(1)] Cons.prems(2) assms(2) by (metis distinct_map inj_onD list.set_intros(1) subsetD)
    have "q \<notin> set rs" using Cons.prems(1) by auto
    then show ?case using Cons neq by (cases "q = r") (auto simp: filter_map comp_def)
  qed simp
  from this[OF validate_feature_map_Ok(1)[OF ok(1)] order_refl]
  have flt: "filter (\<lambda>x. er_region x = rg_name r) (cl_ranges (cm_layout c)) = map (range_of r ?l) ?xs"
    using assms(2) unfolding ok(4) layout_ranges_def by simp
  have "(er_offset (range_of r ?l x), er_offset (range_of r ?l x) + ucast (er_len (range_of r ?l x))) = x" if "x \<in> set ?xs" for x
  proof -
    have "unat (snd x - fst x) < 2 ^ 32" using ok(2) assms(2) that by (auto simp: ranges_fit_def)
    then have "unat (ucast (ucast (snd x - fst x) :: u32) :: u64) = unat (snd x - fst x)" by (simp add: unat_ucast_u64_u32)
    then have "(ucast (ucast (snd x - fst x) :: u32) :: u64) = snd x - fst x" by (rule word_unat_eq_iff[THEN iffD2])
    then show ?thesis by (simp add: prod_eq_iff)
  qed
  then have ivs: "map (\<lambda>x. (er_offset x, er_offset x + ucast (er_len x))) (map (range_of r ?l) ?xs) = ?xs"
    unfolding map_map comp_def by (intro map_idI)
  have bytes: "(\<Union>f \<in> {f \<in> set (mp_features m). ft_region f = rg_name r}. {ft_offset f..<end_of f}) = cover ?xs"
    unfolding sep(2) by (auto simp: cover_def region_intervals_def region_features_def)
  show ?thesis unfolding flt ivs bytes Let_def using sep(1) separated_unique by blast
qed

text \<open>C34: How compilation fails. It fails like validation; a validated map compiles, or fails with
  \<open>TotalLengthOverflow\<close>; it compiles whenever the regions have less than \<open>2 ^ 32\<close> bytes in all and there are
  at most \<open>2 ^ 32\<close> features. No error for an uncovered feature and no arithmetic panic can occur.\<close>

theorem compile_failures:
  "(\<forall>e. validate_feature_map m rl = Err e \<longrightarrow> compile_feature_map m rl = Err e)
   \<and> (validate_feature_map m rl = Ok () \<longrightarrow>
        (\<exists>c. compile_feature_map m rl = Ok c) \<or> compile_feature_map m rl = Err TotalLengthOverflow)
   \<and> (validate_feature_map m rl = Ok () \<and> length (mp_features m) \<le> 2 ^ 32
        \<and> sum_list (map (\<lambda>r. unat (rg_size r)) (mp_regions m)) < 2 ^ 32 \<longrightarrow> (\<exists>c. compile_feature_map m rl = Ok c))
   \<and> (\<forall>p. compile_feature_map m rl \<noteq> Panic p)"
proof (cases "validate_feature_map m rl")
  case (Ok u)
  have "(\<exists>c. compile_feature_map m rl = Ok c) \<or> compile_feature_map m rl = Err TotalLengthOverflow"
    using compile_Ok_iff[of m rl] compile_eq[OF Ok] Ok by auto
  then show ?thesis using layout_fits_small[OF Ok] compile_Ok_iff[of m rl] Ok by auto
next
  case (Err e)
  then show ?thesis by (simp add: compile_feature_map_def)
qed (use no_panics in blast)

text \<open>C35: L4 coarsening never changes the compiled layout: for a map that compiles, the guarded coarsening
  is the plain one, so \<open>LayoutChangedByCoarsening\<close> is never reported. The coarsened map compiles to the same
  layout and has the next version.\<close>

theorem coarsen_keeps_layout:
  assumes "compile_feature_map m rl = Ok c"
  shows "coarsen_l4_preserving_layout m rl rf = coarsen_l4 m rl rf
    \<and> (\<forall>m'. coarsen_l4 m rl rf = Ok m' \<longrightarrow> unat (fm_version (mp_meta m')) = unat (fm_version (mp_meta m)) + 1
         \<and> (\<exists>c'. compile_feature_map m' rl = Ok c' \<and> cm_layout c' = cm_layout c))"
  using coarsen_layout[OF assms] coarsen_Ok(4) assms
  by (cases "coarsen_l4 m rl rf") (force simp: coarsen_l4_preserving_layout_def)+

text \<open>Coarsening multiplies a bucket or cell size by the radius factor and rounds up. With a factor
  accepted by \<open>RadiusFactor::new\<close> the size never shrinks, is never zero, and is the least integer at or above the
  exact product (or 1); the only failure is a product above \<open>u64\<close>.\<close>

theorem scale_positive_rounds_up:
  assumes "radius_factor_new num den = Ok rf"
  shows "case scale_positive v rf of
      Ok w \<Rightarrow> v \<le> w \<and> 0 < w \<and> unat v * unat num \<le> unat w * unat den
        \<and> (w = 1 \<or> (unat w - 1) * unat den < unat v * unat num)
    | Err e \<Rightarrow> e = RadiusOverflow \<and> (2 ^ 64 - 1) * unat den < unat v * unat num
    | Panic p \<Rightarrow> False"
proof -
  have rf: "rf = \<lparr>rf_numerator = num, rf_denominator = den\<rparr>" and d: "0 < unat den" "unat den \<le> unat num"
    using assms by (auto simp: radius_factor_new_def unat_gt_0 word_le_nat_alt word_less_nat_alt not_less split: if_splits)
  let ?p = "unat v * unat num" and ?s = "(unat v * unat num + unat den - 1) div unat den"
  have up: "?p \<le> ?s * unat den" using d(1) dividend_less_times_div[of "unat den" "?p + unat den - 1"] by (simp add: mult.commute)
  have low: "(?s - 1) * unat den < ?p" if "0 < ?s"
  proof -
    have "?s * unat den \<le> ?p + unat den - 1" by (rule div_times_less_eq_dividend)
    moreover have "0 < ?p" using that d(1) by (cases "?p = 0") auto
    ultimately have "?s * unat den - unat den < ?p" using d(1) by linarith
    then show ?thesis by (simp only: diff_mult_distrib mult_1)
  qed
  have v: "unat v \<le> ?s"
  proof -
    have "unat v * unat den \<le> ?p" using d(2) by simp
    then have "unat v * unat den \<le> ?s * unat den" using up by linarith
    then show ?thesis using d(1) by simp
  qed
  show ?thesis
  proof (cases "?s < 2 ^ 64")
    case True
    have u: "unat (word_of_nat ?s :: u64) = ?s" using True by (simp add: unsigned_of_nat take_bit_nat_eq_self)
    let ?w = "max (word_of_nat ?s) 1 :: u64"
    have w: "unat ?w = max ?s 1" using u by (simp add: max_def word_le_nat_alt)
    have "scale_positive v rf = Ok ?w" using True by (simp add: scale_positive_def rf Let_def)
    moreover have "v \<le> ?w" "0 < ?w" "?p \<le> unat ?w * unat den"
      using v w up by (auto simp: word_le_nat_alt word_less_nat_alt max_def not_le intro: order_trans)
    moreover have "?w = 1 \<or> (unat ?w - 1) * unat den < ?p"
    proof (cases "?s \<le> 1")
      case True
      then have "unat ?w = unat (1 :: u64)" using w by simp
      then show ?thesis by (simp only: word_unat_eq_iff) simp
    qed (use w low in \<open>auto simp: max_def\<close>)
    ultimately show ?thesis by simp
  next
    case False
    then have "scale_positive v rf = Err RadiusOverflow" by (simp add: scale_positive_def rf Let_def)
    moreover have "(2 ^ 64 - 1) * unat den \<le> (?s - 1) * unat den" using False by (intro mult_le_mono1) linarith
    moreover have "0 < ?s" using False by (simp only: not_less) (rule less_le_trans[of 0 "2 ^ 64"], simp)
    then have "(?s - 1) * unat den < ?p" by (rule low)
    ultimately have "(2 ^ 64 - 1) * unat den < ?p" by (blast intro: le_less_trans)
    then show ?thesis using \<open>scale_positive v rf = Err RadiusOverflow\<close> by simp
  qed
qed

section \<open>A concrete map\<close>

definition example_features :: "feature list" where
  "example_features =
     [\<lparr>ft_name = ''hp'', ft_region = ''ram'', ft_offset = 4, ft_value_type = U16Le, ft_width = None,
       ft_semantics = FeatureSemantics ''health'', ft_stability = Stable, ft_discretize = Bucket 10, ft_valid_when = None, ft_extra = []\<rparr>,
      \<lparr>ft_name = ''lives'', ft_region = ''ram'', ft_offset = 6, ft_value_type = U8, ft_width = None,
       ft_semantics = FeatureSemantics ''lives'', ft_stability = Stable, ft_discretize = DiscretizeNone, ft_valid_when = None, ft_extra = []\<rparr>]"

definition example_map :: feature_map where
  "example_map = \<lparr>mp_schema_version = 1, mp_kind = FeatureMapKind,
     mp_meta = \<lparr>fm_name = ''demo-map'', fm_workload = ''demo'', fm_game_revision = ''1'', fm_version = 1, fm_meta_extra = []\<rparr>,
     mp_regions = [\<lparr>rg_name = ''ram'', rg_size = 16, rg_extra = []\<rparr>], mp_features = example_features, mp_extra = []\<rparr>"

definition example_layouts :: region_layouts where
  "example_layouts = [''ram'' \<mapsto> \<lparr>rl_size = 64, rl_layout_version = 3\<rparr>]"

lemma example_validates: "validate_feature_map example_map example_layouts = Ok ()"
  by (simp add: validate_feature_map_def example_map_def example_features_def example_layouts_def validate_name_def
      is_ascii_lowercase_def is_ascii_digit_def validate_feature_bounds_def feature_width_def feature_end_def checked_add_def
      validate_discretize_def is_bitflags_def)

lemma example_compiles: "\<exists>c. compile_feature_map example_map example_layouts = Ok c
    \<and> cl_ranges (cm_layout c) = [\<lparr>er_region = ''ram'', er_layout_version = 3, er_offset = 4, er_len = 3\<rparr>]"
proof -
  have "layout_fits example_map example_layouts"
    by (rule layout_fits_small[OF example_validates]) (simp_all add: example_map_def example_features_def)
  then obtain c where c: "compile_feature_map example_map example_layouts = Ok c"
    using compile_Ok_iff[of example_map example_layouts] example_validates by blast
  have "layout_ranges example_map example_layouts = [\<lparr>er_region = ''ram'', er_layout_version = 3, er_offset = 4, er_len = 3\<rparr>]"
    by (simp add: layout_ranges_def example_map_def example_features_def example_layouts_def region_intervals_def region_features_def
        merge_intervals_def merge_step_def range_of_def end_of_def width_of_def feature_width_def)
  then show ?thesis using compile_Ok(4)[OF c] c by auto
qed

theorem compile_reads_features_witness:
  "\<exists>c. compile_feature_map example_map example_layouts = Ok c
     \<and> take (unat (cf_width (cm_fields c ! 1))) (drop (unat (cf_packed_offset (cm_fields c ! 1)))
         (extract_bytes (\<lambda>_. [10, 11, 12, 13, 14, 15, 16, 17]) (cl_ranges (cm_layout c)))) = [16]"
proof -
  let ?mem = "\<lambda>_ :: string. [10, 11, 12, 13, 14, 15, 16, 17] :: u8 list"
  obtain c where c: "compile_feature_map example_map example_layouts = Ok c"
    "cl_ranges (cm_layout c) = [\<lparr>er_region = ''ram'', er_layout_version = 3, er_offset = 4, er_len = 3\<rparr>]"
    using example_compiles by blast
  have k: "1 < length (mp_features example_map)" by (simp add: example_map_def example_features_def)
  have m: "\<forall>r \<in> set (cl_ranges (cm_layout c)). unat (er_offset r) + unat (er_len r) \<le> length (?mem (er_region r))"
    using c(2) by simp
  have f: "feature_width (mp_features example_map ! 1) = Ok 1" "ft_offset (mp_features example_map ! 1) = 6"
    by (simp_all add: example_map_def example_features_def feature_width_def)
  from compile_reads_features[OF c(1) k, of ?mem] m f show ?thesis using c(1) by auto
qed

theorem compile_layout_canonical_witness:
  "\<exists>c. compile_feature_map example_map example_layouts = Ok c
     \<and> separated (map (\<lambda>x. (er_offset x, er_offset x + ucast (er_len x))) (filter (\<lambda>x. er_region x = ''ram'') (cl_ranges (cm_layout c))))"
proof -
  obtain c where c: "compile_feature_map example_map example_layouts = Ok c" using example_compiles by blast
  let ?r = "\<lparr>rg_name = ''ram'', rg_size = 16, rg_extra = []\<rparr> :: feature_region"
  have "?r \<in> set (mp_regions example_map)" by (simp add: example_map_def)
  from compile_layout_canonical[OF c this] c show ?thesis unfolding Let_def by (intro exI[of _ c]) simp
qed

theorem compile_failures_witness: "\<exists>c. compile_feature_map example_map example_layouts = Ok c"
  using compile_failures[of example_map example_layouts] example_validates
  by (simp add: example_map_def example_features_def)

theorem coarsen_keeps_layout_witness:
  "\<exists>m' c c'. radius_factor_integer 2 = Ok \<lparr>rf_numerator = 2, rf_denominator = 1\<rparr>
     \<and> coarsen_l4_preserving_layout example_map example_layouts \<lparr>rf_numerator = 2, rf_denominator = 1\<rparr> = Ok m'
     \<and> ft_discretize (mp_features m' ! 0) = Bucket 20
     \<and> compile_feature_map example_map example_layouts = Ok c \<and> compile_feature_map m' example_layouts = Ok c'
     \<and> cm_layout c' = cm_layout c"
proof -
  obtain c where c: "compile_feature_map example_map example_layouts = Ok c" using example_compiles by blast
  let ?rf = "\<lparr>rf_numerator = 2, rf_denominator = 1\<rparr> :: radius_factor"
  have s: "scale_positive 10 ?rf = Ok 20" by (simp add: scale_positive_def)
  have "\<exists>m'. coarsen_l4 example_map example_layouts ?rf = Ok m' \<and> ft_discretize (mp_features m' ! 0) = Bucket 20"
    unfolding coarsen_l4_def example_validates by (simp add: example_map_def example_features_def checked_add_def s)
  then obtain m' where m': "coarsen_l4 example_map example_layouts ?rf = Ok m'" "ft_discretize (mp_features m' ! 0) = Bucket 20" by blast
  moreover have "radius_factor_integer 2 = Ok ?rf" by (simp add: radius_factor_integer_def radius_factor_new_def)
  ultimately show ?thesis using coarsen_keeps_layout[OF c, of ?rf] c by auto
qed

theorem scale_positive_rounds_up_witness:
  "radius_factor_new 3 2 = Ok \<lparr>rf_numerator = 3, rf_denominator = 2\<rparr> \<and> scale_positive 5 \<lparr>rf_numerator = 3, rf_denominator = 2\<rparr> = Ok 8
   \<and> unat (5 :: u64) * 3 \<le> unat (8 :: u64) * 2"
proof -
  have r: "radius_factor_new 3 2 = Ok \<lparr>rf_numerator = 3, rf_denominator = 2\<rparr>" by (simp add: radius_factor_new_def)
  have s: "scale_positive 5 \<lparr>rf_numerator = 3, rf_denominator = 2\<rparr> = Ok 8" by (simp add: scale_positive_def)
  show ?thesis using scale_positive_rounds_up[OF r, of 5] r s by simp
qed

end
