(* ===== verification/Checkpoint.thy ===== *)
theory Checkpoint
  imports Mirror
begin

text \<open>
  Checkpoints and write-ahead entries (\<open>crates/orch-checkpoint/src/lib.rs\<close>): the records, the
  checks made around their encoding, and the round trip. The byte format belongs to the
  \<open>postcard\<close> crate; its two functions are parameters, each with its error rendered as text, and
  \<open>codec_laws\<close> states what is documented of them: decoding what was encoded gives it back.
\<close>

section \<open>Data\<close>

definition CHECKPOINT_VERSION :: u32 where "CHECKPOINT_VERSION = 1"

datatype experiment_state =
    Pending
  | Running
  | Paused
  | Stopped
  | GoalReached
  | BudgetExhausted
  | Failed

record budgets_used =
  bu_nodes :: u64
  bu_wall_clock_s :: u64
  bu_guest_instructions :: u64
  bu_expansions :: u64

record rng_checkpoint =
  rc_seed :: u64

record frontier_entry =
  fe_node :: node_id
  fe_visits :: u32
  fe_exhausted :: bool
  fe_consecutive_all_dup :: u16

record plateau_knobs_in_effect =
  pke_window_n :: u32
  pke_epsilon_s :: f64
  pke_burst_len_factor :: f64
  pke_temp_factor :: f64
  pke_macro_weight_hot :: f64
  pke_backtrack_kappa :: f64
  pke_backtrack_depth_quantile :: f64
  pke_radius_factor :: f64
  pke_max_level :: u32

record plateau_checkpoint =
  pc_best_score :: "f64 option"
  pc_observations :: u64
  pc_observations_since_improvement :: u64
  pc_completed_stall_windows :: u64
  pc_level :: u32
  pc_knobs_in_effect :: plateau_knobs_in_effect

record checkpoint_v1 =
  ck_version :: u32
  ck_experiment_id :: string
  ck_config_hash :: "u8 list"
  ck_last_committed_node :: node_id
  ck_batch_seq :: u64
  ck_expansions :: u64
  ck_budgets_used :: budgets_used
  ck_rng :: rng_checkpoint
  ck_frontier :: "frontier_entry list"
  ck_scorer_archive_ref :: string
  ck_scorer_archive_seq :: u64
  ck_scorer_checkpoint_id :: string
  ck_feature_map_version :: u32
  ck_feature_map_hash :: "u8 list"
  ck_scoring_program_hash :: "u8 list"
  ck_synth_config_fingerprint :: "u8 list"
  ck_cell_mirror :: "(cell_key \<times> u32) list"
  ck_seen :: "(state_hash \<times> node_id) list"
  ck_plateau :: plateau_checkpoint
  ck_goal_nodes :: "node_id list"
  ck_status :: experiment_state

record intent_knobs =
  ik_k :: u32
  ik_length_hint_frames :: u32
  ik_escalation_level :: u32
  ik_config_overrides_yaml :: "u8 list"

record expansion_intent =
  ei_seq :: u64
  ei_node :: node_id
  ei_burst_seed :: u64
  ei_knobs :: intent_knobs
  ei_client_batch_id :: string

datatype checkpoint_error =
    Encode string
  | Decode string
  | Mismatch string

fun checkpoint_error_display :: "checkpoint_error \<Rightarrow> string" where
  "checkpoint_error_display (Encode d) = ''checkpoint encode failed: '' @ d"
| "checkpoint_error_display (Decode d) = ''checkpoint decode failed: '' @ d"
| "checkpoint_error_display (Mismatch d) = ''checkpoint mismatch: '' @ d"

section \<open>Encoding and decoding\<close>

text \<open>\<open>windows(2).all(\<dots>)\<close>.\<close>

fun windows2_all :: "('a \<Rightarrow> 'a \<Rightarrow> bool) \<Rightarrow> 'a list \<Rightarrow> bool" where
  "windows2_all P (x # y # zs) \<longleftrightarrow> P x y \<and> windows2_all P (y # zs)"
| "windows2_all P _ \<longleftrightarrow> True"

definition validate_sorted :: "checkpoint_v1 \<Rightarrow> (string, unit) res" where
  "validate_sorted c =
     (if \<not> windows2_all (\<lambda>a b. fst a < fst b) (ck_cell_mirror c)
      then Err ''cell_mirror must be strictly sorted by cell key''
      else if \<not> windows2_all (\<lambda>a b. state_hash_bytes (fst a) < state_hash_bytes (fst b)) (ck_seen c)
      then Err ''seen must be strictly sorted by state hash''
      else Ok ())"

definition encode_checkpoint ::
  "(checkpoint_v1 \<Rightarrow> (string, u8 list) res) \<Rightarrow> checkpoint_v1 \<Rightarrow> (checkpoint_error, u8 list) res" where
  "encode_checkpoint to_allocvec c =
     (if ck_version c \<noteq> CHECKPOINT_VERSION
      then Err (Encode (''unsupported checkpoint version '' @ show_nat (unat (ck_version c))))
      else bind_res (map_err Encode (validate_sorted c)) (\<lambda>_. map_err Encode (to_allocvec c)))"

definition decode_checkpoint ::
  "(u8 list \<Rightarrow> (string, checkpoint_v1) res) \<Rightarrow> u8 list \<Rightarrow> string \<Rightarrow> u8 list \<Rightarrow> (checkpoint_error, checkpoint_v1) res" where
  "decode_checkpoint from_bytes bytes expected_experiment_id expected_config_hash =
     bind_res (map_err Decode (from_bytes bytes)) (\<lambda>c.
       if ck_version c \<noteq> CHECKPOINT_VERSION
       then Err (Mismatch (''checkpoint version '' @ show_nat (unat (ck_version c)) @ '' != supported ''
              @ show_nat (unat CHECKPOINT_VERSION)))
       else if ck_experiment_id c \<noteq> expected_experiment_id
       then Err (Mismatch (''checkpoint experiment '' @ [CHR 0x27] @ ck_experiment_id c @ [CHR 0x27] @ '' != requested ''
              @ [CHR 0x27] @ expected_experiment_id @ [CHR 0x27]))
       else if ck_config_hash c \<noteq> expected_config_hash
       then Err (Mismatch ''checkpoint config_hash does not match the supplied config'')
       else bind_res (map_err Decode (validate_sorted c)) (\<lambda>_. Ok c))"

definition encode_intent ::
  "(expansion_intent \<Rightarrow> (string, u8 list) res) \<Rightarrow> expansion_intent \<Rightarrow> (checkpoint_error, u8 list) res" where
  "encode_intent to_allocvec i = map_err Encode (to_allocvec i)"

definition decode_intent ::
  "(u8 list \<Rightarrow> (string, expansion_intent) res) \<Rightarrow> u8 list \<Rightarrow> (checkpoint_error, expansion_intent) res" where
  "decode_intent from_bytes bytes = map_err Decode (from_bytes bytes)"

section \<open>The byte format\<close>

definition codec_laws :: "('a \<Rightarrow> (string, u8 list) res) \<Rightarrow> (u8 list \<Rightarrow> (string, 'a) res) \<Rightarrow> bool" where
  "codec_laws to_allocvec from_bytes \<longleftrightarrow> (\<forall>x bytes. to_allocvec x = Ok bytes \<longrightarrow> from_bytes bytes = Ok x)"

lemma codec_lawsD: "codec_laws tv fb \<Longrightarrow> tv x = Ok bytes \<Longrightarrow> fb bytes = Ok x"
  by (simp add: codec_laws_def)

section \<open>Sortedness\<close>

lemma windows2_all_sorted:
  assumes "transp_on (set xs) P"
  shows "windows2_all P xs \<longleftrightarrow> sorted_wrt P xs"
  using assms
proof (induction P xs rule: windows2_all.induct)
  case (1 P x y zs)
  then have "windows2_all P (y # zs) \<longleftrightarrow> sorted_wrt P (y # zs)" by (meson set_subset_Cons transp_on_subset)
  moreover have "P x z" if "P x y" "P y z" "z \<in> set zs" for z
    using "1.prems" that by (auto dest: transp_onD)
  ultimately show ?case by auto
qed auto

text \<open>The two vectors of a checkpoint, strictly ascending by their keys.\<close>

definition ascending :: "('k::linorder \<times> 'v) list \<Rightarrow> bool" where
  "ascending xs \<longleftrightarrow> sorted_wrt (\<lambda>a b. fst a < fst b) xs"

lemma validate_sorted_Ok: "validate_sorted c = Ok () \<longleftrightarrow> ascending (ck_cell_mirror c) \<and> ascending (ck_seen c)"
proof -
  have "windows2_all (\<lambda>a b. fst a < fst b) (ck_cell_mirror c) \<longleftrightarrow> ascending (ck_cell_mirror c)"
    unfolding ascending_def by (rule windows2_all_sorted) (auto simp: transp_on_def)
  moreover have "windows2_all (\<lambda>a b. state_hash_bytes (fst a) < state_hash_bytes (fst b)) (ck_seen c) \<longleftrightarrow> ascending (ck_seen c)"
    unfolding ascending_def less_state_hash_def by (rule windows2_all_sorted) (auto simp: transp_on_def)
  ultimately show ?thesis by (simp add: validate_sorted_def)
qed

lemma ascending_iff: "ascending xs \<longleftrightarrow> sorted (map fst xs) \<and> distinct (map fst xs)"
  by (subst strict_sorted_iff[symmetric]) (simp add: ascending_def sorted_wrt_map)

lemma encode_checkpoint_Ok:
  "encode_checkpoint tv c = Ok bytes \<longleftrightarrow> ck_version c = CHECKPOINT_VERSION
     \<and> ascending (ck_cell_mirror c) \<and> ascending (ck_seen c) \<and> tv c = Ok bytes"
  by (auto simp: encode_checkpoint_def res_simps validate_sorted_Ok)

lemma decode_checkpoint_Ok:
  "decode_checkpoint fb bytes i h = Ok c \<longleftrightarrow> fb bytes = Ok c \<and> ck_version c = CHECKPOINT_VERSION
     \<and> ck_experiment_id c = i \<and> ck_config_hash c = h \<and> ascending (ck_cell_mirror c) \<and> ascending (ck_seen c)"
  by (auto simp: decode_checkpoint_def res_simps validate_sorted_Ok)

section \<open>Properties\<close>

text \<open>C15: A checkpoint that was encoded decodes to itself under its own experiment id and configuration hash.
  Under another id or another hash it is refused with a mismatch, so it never resumes a foreign experiment
  or a changed configuration.\<close>

theorem checkpoint_round_trip:
  assumes "codec_laws tv fb" "encode_checkpoint tv c = Ok bytes"
  shows "if i = ck_experiment_id c \<and> h = ck_config_hash c then decode_checkpoint fb bytes i h = Ok c
    else \<exists>m. decode_checkpoint fb bytes i h = Err (Mismatch m)"
proof (cases "i = ck_experiment_id c \<and> h = ck_config_hash c")
  case True
  then show ?thesis
    using assms by (auto simp: encode_checkpoint_Ok decode_checkpoint_Ok dest: codec_lawsD)
next
  case False
  have "fb bytes = Ok c" "ck_version c = CHECKPOINT_VERSION"
    using assms by (auto simp: encode_checkpoint_Ok dest: codec_lawsD)
  then show ?thesis using False by (auto simp: decode_checkpoint_def)
qed

definition example_knobs_in_effect :: plateau_knobs_in_effect where
  "example_knobs_in_effect = \<lparr>pke_window_n = 1, pke_epsilon_s = f_zero, pke_burst_len_factor = f_one, pke_temp_factor = f_one,
     pke_macro_weight_hot = f_zero, pke_backtrack_kappa = f_zero, pke_backtrack_depth_quantile = f_zero,
     pke_radius_factor = f_one, pke_max_level = 4\<rparr>"

definition example_checkpoint :: checkpoint_v1 where
  "example_checkpoint = \<lparr>ck_version = 1, ck_experiment_id = ''e'', ck_config_hash = [7], ck_last_committed_node = NodeId 1,
     ck_batch_seq = 3, ck_expansions = 3,
     ck_budgets_used = \<lparr>bu_nodes = 2, bu_wall_clock_s = 0, bu_guest_instructions = 0, bu_expansions = 3\<rparr>,
     ck_rng = \<lparr>rc_seed = 0\<rparr>, ck_frontier = [], ck_scorer_archive_ref = [], ck_scorer_archive_seq = 0,
     ck_scorer_checkpoint_id = [], ck_feature_map_version = 0, ck_feature_map_hash = [], ck_scoring_program_hash = [],
     ck_synth_config_fingerprint = [], ck_cell_mirror = [(CellKey 1, 1), (CellKey 4, 2)],
     ck_seen = [(StateHash [1], NodeId 0), (StateHash [1, 2], NodeId 1)],
     ck_plateau = \<lparr>pc_best_score = None, pc_observations = 0, pc_observations_since_improvement = 0,
       pc_completed_stall_windows = 0, pc_level = 0, pc_knobs_in_effect = example_knobs_in_effect\<rparr>,
     ck_goal_nodes = [], ck_status = Running\<rparr>"

text \<open>A codec for one value, to instantiate the parameters.\<close>

definition one_value_to :: "'a \<Rightarrow> 'a \<Rightarrow> (string, u8 list) res" where
  "one_value_to v x = (if x = v then Ok [42] else Err ''unsupported'')"

definition one_value_from :: "'a \<Rightarrow> u8 list \<Rightarrow> (string, 'a) res" where
  "one_value_from v bytes = (if bytes = [42] then Ok v else Err ''corrupt'')"

lemma one_value_codec: "codec_laws (one_value_to v) (one_value_from v)"
  by (auto simp: codec_laws_def one_value_to_def one_value_from_def split: if_splits)

theorem checkpoint_round_trip_witness:
  "decode_checkpoint (one_value_from example_checkpoint) [42] ''e'' [7] = Ok example_checkpoint
   \<and> (\<exists>m. decode_checkpoint (one_value_from example_checkpoint) [42] ''e'' [8] = Err (Mismatch m))"
proof -
  have enc: "encode_checkpoint (one_value_to example_checkpoint) example_checkpoint = Ok [42]"
    by (simp add: encode_checkpoint_Ok one_value_to_def ascending_iff)
      (simp add: example_checkpoint_def CHECKPOINT_VERSION_def less_eq_cell_key_def less_eq_state_hash_def)
  show ?thesis
    using checkpoint_round_trip[OF one_value_codec enc, of "''e''" "[7]"]
      checkpoint_round_trip[OF one_value_codec enc, of "''e''" "[8]"]
    by (simp add: example_checkpoint_def)
qed

text \<open>C16: What is decoded was checked: an accepted checkpoint has the supported version, the requested
  experiment and configuration, and strictly ascending vectors, so no cell and no state hash occurs twice.\<close>

theorem decode_checkpoint_checked:
  assumes "decode_checkpoint fb bytes i h = Ok c"
  shows "ck_version c = CHECKPOINT_VERSION \<and> ck_experiment_id c = i \<and> ck_config_hash c = h
    \<and> sorted (map fst (ck_cell_mirror c)) \<and> distinct (map fst (ck_cell_mirror c))
    \<and> sorted (map fst (ck_seen c)) \<and> distinct (map fst (ck_seen c))"
  using assms by (simp add: decode_checkpoint_Ok ascending_iff)

theorem decode_checkpoint_checked_witness:
  "decode_checkpoint (one_value_from example_checkpoint) [42] ''e'' [7] = Ok example_checkpoint
     \<and> ck_version example_checkpoint = CHECKPOINT_VERSION \<and> distinct (map fst (ck_seen example_checkpoint))"
proof -
  have d: "decode_checkpoint (one_value_from example_checkpoint) [42] ''e'' [7] = Ok example_checkpoint"
    by (simp add: decode_checkpoint_Ok one_value_from_def ascending_iff)
      (simp add: example_checkpoint_def CHECKPOINT_VERSION_def less_eq_cell_key_def less_eq_state_hash_def)
  from decode_checkpoint_checked[OF d] d show ?thesis by simp
qed

end
