(* ===== verification/Client.thy ===== *)
theory Client
  imports Types
begin

text \<open>
  The error type of the service boundaries (\<open>crates/orch-clients/src/lib.rs\<close>), the catalogue of
  terminal reasons (\<open>crates/orch-core/src/runtime_reasons.rs\<close>) and the retry policy
  (\<open>crates/orch-sched/src/retry.rs\<close>). A remote call is a function on the state of the world: it
  returns its outcome and the world it leaves behind. Sleeping is a parameter, an effect on the
  world whose argument is the duration in nanoseconds.
\<close>

section \<open>Client errors\<close>

datatype client_error_kind =
    InvalidRequest
  | FailedPrecondition
  | NotFound
  | AlreadyExists
  | ResourceExhausted
  | Unavailable
  | DataLoss
  | Internal

fun kind_as_str :: "client_error_kind \<Rightarrow> string" where
  "kind_as_str InvalidRequest = ''invalid request''"
| "kind_as_str FailedPrecondition = ''failed precondition''"
| "kind_as_str NotFound = ''not found''"
| "kind_as_str AlreadyExists = ''already exists''"
| "kind_as_str ResourceExhausted = ''resource exhausted''"
| "kind_as_str Unavailable = ''unavailable''"
| "kind_as_str DataLoss = ''data loss''"
| "kind_as_str Internal = ''internal''"

datatype client_error = ClientError (ce_kind: client_error_kind) (ce_message: string)

definition client_error_display :: "client_error \<Rightarrow> string" where
  "client_error_display e =
     (if ce_message e = [] then kind_as_str (ce_kind e) else kind_as_str (ce_kind e) @ '': '' @ ce_message e)"

type_synonym ('w, 'a) rpc = "'w \<Rightarrow> (client_error, 'a) res \<times> 'w"

section \<open>Terminal reasons\<close>

datatype terminal_status = TerminalFailed | TerminalBudgetExhausted

record runtime_reason =
  rr_prefix :: string
  rr_status :: terminal_status

definition REASON_CAS_OWNERSHIP_LOST :: string where "REASON_CAS_OWNERSHIP_LOST = ''checkpoint-cas-ownership-lost''"
definition REASON_ARCHIVE_SEQ_MISMATCH :: string where "REASON_ARCHIVE_SEQ_MISMATCH = ''scorer-archive-seq-mismatch''"
definition REASON_FINGERPRINT_MISMATCH :: string where "REASON_FINGERPRINT_MISMATCH = ''synth-fingerprint-mismatch''"
definition REASON_FRONTIER_EXHAUSTED :: string where "REASON_FRONTIER_EXHAUSTED = ''frontier-exhausted''"
definition REASON_JOB_RETRIES_EXHAUSTED :: string where "REASON_JOB_RETRIES_EXHAUSTED = ''job-retries-exhausted''"
definition REASON_CLASS_MISMATCH :: string where "REASON_CLASS_MISMATCH = ''determinism-class-mismatch''"
definition REASON_RUNTIME_ERROR :: string where "REASON_RUNTIME_ERROR = ''runtime-error''"

definition CATALOG :: "runtime_reason list" where
  "CATALOG =
     [\<lparr>rr_prefix = REASON_CAS_OWNERSHIP_LOST, rr_status = TerminalFailed\<rparr>,
      \<lparr>rr_prefix = REASON_ARCHIVE_SEQ_MISMATCH, rr_status = TerminalFailed\<rparr>,
      \<lparr>rr_prefix = REASON_FINGERPRINT_MISMATCH, rr_status = TerminalFailed\<rparr>,
      \<lparr>rr_prefix = REASON_JOB_RETRIES_EXHAUSTED, rr_status = TerminalFailed\<rparr>,
      \<lparr>rr_prefix = REASON_CLASS_MISMATCH, rr_status = TerminalFailed\<rparr>,
      \<lparr>rr_prefix = REASON_RUNTIME_ERROR, rr_status = TerminalFailed\<rparr>,
      \<lparr>rr_prefix = REASON_FRONTIER_EXHAUSTED, rr_status = TerminalBudgetExhausted\<rparr>]"

definition FAILED_REASON_PREFIXES :: "string list" where
  "FAILED_REASON_PREFIXES =
     [REASON_CAS_OWNERSHIP_LOST, REASON_ARCHIVE_SEQ_MISMATCH, REASON_FINGERPRINT_MISMATCH,
      REASON_JOB_RETRIES_EXHAUSTED, REASON_CLASS_MISMATCH, REASON_RUNTIME_ERROR]"

definition starts_with :: "string \<Rightarrow> string \<Rightarrow> bool" where
  "starts_with s p \<longleftrightarrow> take (length p) s = p"

definition cataloged_failed_reason :: "string \<Rightarrow> string" where
  "cataloged_failed_reason message =
     (if list_ex (starts_with message) FAILED_REASON_PREFIXES then message
      else REASON_RUNTIME_ERROR @ '': '' @ message)"

lemmas reason_defs = REASON_CAS_OWNERSHIP_LOST_def REASON_ARCHIVE_SEQ_MISMATCH_def REASON_FINGERPRINT_MISMATCH_def
  REASON_FRONTIER_EXHAUSTED_def REASON_JOB_RETRIES_EXHAUSTED_def REASON_CLASS_MISMATCH_def REASON_RUNTIME_ERROR_def

section \<open>Durations and the retry policy\<close>

type_synonym duration = nat

definition from_secs :: "u64 \<Rightarrow> duration" where "from_secs s = unat s * 10 ^ 9"
definition from_millis :: "u64 \<Rightarrow> duration" where "from_millis ms = unat ms * 10 ^ 6"

text \<open>\<open>Duration::checked_mul\<close>: a duration holds less than \<open>2 ^ 64\<close> seconds.\<close>

definition checked_mul_duration :: "duration \<Rightarrow> u32 \<Rightarrow> duration option" where
  "checked_mul_duration d f = (if d * unat f < 2 ^ 64 * 10 ^ 9 then Some (d * unat f) else None)"

text \<open>\<open>u32::checked_shl\<close>: \<open>None\<close> when the shift reaches the width.\<close>

definition checked_shl :: "u32 \<Rightarrow> u32 \<Rightarrow> u32 option" where
  "checked_shl x n = (if unat n < 32 then Some (push_bit (unat n) x) else None)"

definition BACKOFF_CAP :: duration where "BACKOFF_CAP = from_secs 10"

record retry_policy =
  rp_job_timeout :: duration
  rp_retry_max :: u32
  rp_backoff_base :: duration

definition retry_from_scheduling :: "scheduling_config \<Rightarrow> retry_policy" where
  "retry_from_scheduling c = \<lparr>rp_job_timeout = from_secs (ucast (job_timeout_s c)), rp_retry_max = retry_max c,
     rp_backoff_base = from_millis (ucast (retry_backoff_ms c))\<rparr>"

definition backoff :: "retry_policy \<Rightarrow> u32 \<Rightarrow> duration" where
  "backoff p attempt =
     (let factor = case_option (- 1) id (checked_shl 1 attempt)
      in min (case_option BACKOFF_CAP id (checked_mul_duration (rp_backoff_base p) factor)) BACKOFF_CAP)"

definition is_retryable :: "client_error \<Rightarrow> bool" where
  "is_retryable e \<longleftrightarrow> ce_kind e \<in> {Unavailable, Internal, DataLoss, ResourceExhausted}"

text \<open>
  The loop of \<open>retry_rpc\<close> and \<open>run_job_with_retry\<close>: the same request is issued again after a
  retryable error, at most \<open>retry_max\<close> times.
\<close>

function retry_loop ::
  "(duration \<Rightarrow> 'w \<Rightarrow> 'w) \<Rightarrow> retry_policy \<Rightarrow> ('w, 'a) rpc \<Rightarrow> u32 \<Rightarrow> ('w, 'a) rpc" where
  "retry_loop sleep p call attempt w =
     (case call w of
        (Ok v, w') \<Rightarrow> (Ok v, w')
      | (Panic m, w') \<Rightarrow> (Panic m, w')
      | (Err e, w') \<Rightarrow>
          if \<not> is_retryable e then (Err e, w')
          else if rp_retry_max p \<le> attempt then (Err e, w')
          else retry_loop sleep p call (attempt + 1) (sleep (backoff p attempt) w'))"
  by pat_completeness auto
termination
proof (relation "measure (\<lambda>(sleep, p, call, attempt, w). unat (rp_retry_max p) - unat attempt)", goal_cases)
  case (2 sleep p call attempt w)
  then have "attempt < rp_retry_max p" by simp
  then show ?case using unat_Suc_below[of attempt "rp_retry_max p"] by (simp add: word_less_nat_alt)
qed simp

declare retry_loop.simps [simp del]

definition retry_rpc :: "(duration \<Rightarrow> 'w \<Rightarrow> 'w) \<Rightarrow> retry_policy \<Rightarrow> ('w, 'a) rpc \<Rightarrow> ('w, 'a) rpc" where
  "retry_rpc sleep p call = retry_loop sleep p call 0"

section \<open>Facts on terminal reasons\<close>

lemma starts_with_append [simp]: "starts_with (p @ s) p"
  by (simp add: starts_with_def)

lemma cataloged_failed_reason_cataloged:
  "\<exists>p \<in> set FAILED_REASON_PREFIXES. starts_with (cataloged_failed_reason m) p"
proof (cases "list_ex (starts_with m) FAILED_REASON_PREFIXES")
  case False
  then have "starts_with (cataloged_failed_reason m) REASON_RUNTIME_ERROR"
    by (simp add: cataloged_failed_reason_def)
  then show ?thesis by (auto simp: FAILED_REASON_PREFIXES_def)
qed (auto simp: cataloged_failed_reason_def list_ex_iff)

lemma cataloged_failed_reason_idem:
  "cataloged_failed_reason (cataloged_failed_reason m) = cataloged_failed_reason m"
  using cataloged_failed_reason_cataloged[of m] by (auto simp: cataloged_failed_reason_def[of "cataloged_failed_reason m"] list_ex_iff)

section \<open>Facts on retrying\<close>

text \<open>The world in which attempt \<open>n\<close> is made, when every attempt before it failed.\<close>

primrec retry_world :: "(duration \<Rightarrow> 'w \<Rightarrow> 'w) \<Rightarrow> retry_policy \<Rightarrow> ('w, 'a) rpc \<Rightarrow> 'w \<Rightarrow> nat \<Rightarrow> 'w" where
  "retry_world sleep p call w 0 = w"
| "retry_world sleep p call w (Suc n) =
     sleep (backoff p (word_of_nat n)) (snd (call (retry_world sleep p call w n)))"

definition transient :: "(client_error, 'a) res \<Rightarrow> bool" where
  "transient r \<longleftrightarrow> (case r of Err e \<Rightarrow> is_retryable e | _ \<Rightarrow> False)"

lemma retry_loop_step:
  "retry_loop sleep p call a w =
     (if transient (fst (call w)) \<and> a < rp_retry_max p
      then retry_loop sleep p call (a + 1) (sleep (backoff p a) (snd (call w))) else call w)"
  by (subst retry_loop.simps) (auto simp: transient_def not_le split: prod.splits res.splits)

lemma retry_loop_spec:
  assumes "n0 \<le> unat (rp_retry_max p)"
  shows "\<exists>n \<ge> n0. n \<le> unat (rp_retry_max p)
      \<and> retry_loop sleep p call (word_of_nat n0) (retry_world sleep p call w n0) = call (retry_world sleep p call w n)
      \<and> (\<forall>i. n0 \<le> i \<and> i < n \<longrightarrow> transient (fst (call (retry_world sleep p call w i))))
      \<and> (n = unat (rp_retry_max p) \<or> \<not> transient (fst (call (retry_world sleep p call w n))))"
  using assms
proof (induction "unat (rp_retry_max p) - n0" arbitrary: n0)
  case (0 n0)
  then have "n0 = unat (rp_retry_max p)" by simp
  then have "word_of_nat n0 = rp_retry_max p" by hypsubst simp
  then show ?case using 0 by (intro exI[of _ n0]) (auto simp: retry_loop_step)
next
  case (Suc d n0)
  let ?r = "fst (call (retry_world sleep p call w n0))"
  show ?case
  proof (cases "transient ?r")
    case True
    have "word_of_nat n0 < rp_retry_max p" using Suc.hyps(2) by (simp add: word_less_nat_alt unsigned_of_nat le_less_trans[OF take_bit_nat_less_eq_self])
    then have "retry_loop sleep p call (word_of_nat n0) (retry_world sleep p call w n0)
        = retry_loop sleep p call (word_of_nat (Suc n0)) (retry_world sleep p call w (Suc n0))"
      using True by (subst retry_loop_step) (simp add: add.commute)
    moreover obtain n where n: "Suc n0 \<le> n" "n \<le> unat (rp_retry_max p)"
      "retry_loop sleep p call (word_of_nat (Suc n0)) (retry_world sleep p call w (Suc n0)) = call (retry_world sleep p call w n)"
      "\<forall>i. Suc n0 \<le> i \<and> i < n \<longrightarrow> transient (fst (call (retry_world sleep p call w i)))"
      "n = unat (rp_retry_max p) \<or> \<not> transient (fst (call (retry_world sleep p call w n)))"
    proof -
      have "d = unat (rp_retry_max p) - Suc n0" "Suc n0 \<le> unat (rp_retry_max p)" using Suc.hyps(2) by linarith+
      from Suc.hyps(1)[OF this] show ?thesis using that by blast
    qed
    moreover have "\<forall>i. n0 \<le> i \<and> i < n \<longrightarrow> transient (fst (call (retry_world sleep p call w i)))"
      using True n(4) by (metis Suc_leI le_neq_implies_less)
    ultimately show ?thesis by (intro exI[of _ n]) (simp del: retry_world.simps of_nat_Suc)
  next
    case False
    then show ?thesis using Suc.prems by (intro exI[of _ n0]) (auto simp: retry_loop_step)
  qed
qed

text \<open>C24: A remote call under the retry policy ends. It returns the outcome of an attempt \<open>n\<close> that is at most
  \<open>retry_max\<close>; the attempts before it all failed with a retryable error, each followed by its backoff, and
  the outcome itself is final or the attempts are used up.\<close>

theorem retry_rpc_returns:
  "\<exists>n \<le> unat (rp_retry_max p).
      retry_rpc sleep p call w = call (retry_world sleep p call w n)
      \<and> (\<forall>i < n. transient (fst (call (retry_world sleep p call w i))))
      \<and> (n = unat (rp_retry_max p) \<or> \<not> transient (fst (call (retry_world sleep p call w n))))"
  using retry_loop_spec[of 0 p sleep call w] by (auto simp: retry_rpc_def)

definition example_policy :: retry_policy where
  "example_policy = \<lparr>rp_job_timeout = 0, rp_retry_max = 2, rp_backoff_base = 0\<rparr>"

definition example_call :: "(nat, nat) rpc" where
  "example_call w = (if w < 1 then (Err (ClientError Unavailable []), w) else (Ok w, w))"

theorem retry_rpc_returns_witness:
  "\<exists>n \<le> 2. retry_rpc (\<lambda>d w. Suc w) example_policy example_call 0
      = example_call (retry_world (\<lambda>d w. Suc w) example_policy example_call 0 n)"
  using retry_rpc_returns[of example_policy "\<lambda>d w. Suc w" example_call 0] by (auto simp: example_policy_def)

lemma capped_mul:
  "min (case_option BACKOFF_CAP id (checked_mul_duration d f)) BACKOFF_CAP = min (d * unat f) BACKOFF_CAP"
  by (auto simp: checked_mul_duration_def BACKOFF_CAP_def from_secs_def)

lemma backoff_factor: "unat (case_option (- 1) id (checked_shl 1 a) :: u32) = (if unat a < 32 then 2 ^ unat a else 2 ^ 32 - 1)"
proof (cases "unat a < 32")
  case True
  then have "unat (push_bit (unat a) 1 :: u32) = 2 ^ unat a"
    by (subst unsigned_push_bit_eq) (simp add: push_bit_eq_mult take_bit_nat_eq_self)
  then show ?thesis using True by (simp add: checked_shl_def)
qed (simp add: checked_shl_def unsigned_minus_1_eq_mask mask_eq_exp_minus_1)

text \<open>The backoff before attempt \<open>n + 1\<close> is the base of the configuration doubled \<open>n\<close> times, capped at ten
  seconds. The saturated shift factor and the overflow of the multiplication never show.\<close>

theorem backoff_doubles:
  "backoff (retry_from_scheduling c) attempt
     = min (unat (retry_backoff_ms c) * 10 ^ 6 * 2 ^ unat attempt) BACKOFF_CAP"
proof -
  let ?m = "unat (retry_backoff_ms c)"
  have eq: "backoff (retry_from_scheduling c) attempt
      = min (?m * 10 ^ 6 * (if unat attempt < 32 then 2 ^ unat attempt else 2 ^ 32 - 1)) BACKOFF_CAP"
    by (simp only: backoff_def Let_def capped_mul backoff_factor) (simp add: retry_from_scheduling_def from_millis_def)
  show ?thesis
  proof (cases "unat attempt < 32 \<or> ?m = 0")
    case False
    have big: "BACKOFF_CAP \<le> ?m * 10 ^ 6 * k" if "2 ^ 31 \<le> k" for k
    proof -
      have "1 * 10 ^ 6 * 2 ^ 31 \<le> ?m * 10 ^ 6 * k" using that False by (intro mult_le_mono) auto
      then show ?thesis by (simp add: BACKOFF_CAP_def from_secs_def)
    qed
    have "(2 :: nat) ^ 31 \<le> 2 ^ unat attempt" using False by (intro power_increasing) auto
    from big[OF this] big[of "2 ^ 32 - 1"] show ?thesis using False eq by (simp add: min_absorb2)
  qed (auto simp: eq)
qed

end
