(* ===== verification/Store_Api.thy ===== *)
theory Store_Api
  imports Client Rng
begin

text \<open>
  The snapshot-store boundary (\<open>crates/orch-clients/src/snapshot_store.rs\<close>): node rows, requests,
  metadata keys and generations, with the checks a request makes on itself.
\<close>

section \<open>Nodes\<close>

datatype input_log_id = InputLogId (input_log_bytes: "u8 list")

definition MAX_ATTR_BYTES :: nat where "MAX_ATTR_BYTES = 16 * 1024 * 1024"

datatype node_attrs = NodeAttrs (attrs_bytes: "u8 list")

definition node_attrs_new :: "u8 list \<Rightarrow> (client_error, node_attrs) res" where
  "node_attrs_new bytes =
     (if MAX_ATTR_BYTES < length bytes then Err (ClientError InvalidRequest ''node attrs exceed 16 MiB'')
      else Ok (NodeAttrs bytes))"

definition node_attrs_validate :: "node_attrs \<Rightarrow> (client_error, unit) res" where
  "node_attrs_validate a =
     (if MAX_ATTR_BYTES < length (attrs_bytes a) then Err (ClientError InvalidRequest ''node attrs exceed 16 MiB'')
      else Ok ())"

record node_meta =
  nm_experiment_id :: string
  nm_node_id :: node_id
  nm_parent_node_id :: "node_id option"
  nm_depth :: u64
  nm_snapshot_ref :: snapshot_ref
  nm_input_log_id :: "input_log_id option"
  nm_status :: node_status
  nm_progress_score :: score
  nm_novelty_score :: novelty
  nm_visit_count :: u64
  nm_expand_count :: u64
  nm_last_visited_at :: u64
  nm_created_at :: u64
  nm_updated_at :: u64
  nm_attrs :: node_attrs

record create_node_request =
  cn_experiment_id :: string
  cn_node_id :: node_id
  cn_parent_node_id :: "node_id option"
  cn_snapshot_ref :: snapshot_ref
  cn_input_log_id :: "input_log_id option"
  cn_status :: node_status
  cn_progress_score :: score
  cn_novelty_score :: novelty
  cn_attrs :: node_attrs
  cn_input_log_container :: "u8 list option"

definition create_node_validate :: "create_node_request \<Rightarrow> (client_error, unit) res" where
  "create_node_validate r =
     bind_res
       (if node_id_is_root (cn_node_id r) then
          if cn_parent_node_id r \<noteq> None
          then Err (ClientError InvalidRequest ''root node must not have a parent'')
          else if cn_input_log_id r \<noteq> None \<or> cn_input_log_container r \<noteq> None
          then Err (ClientError InvalidRequest ''root node must not have an input log'')
          else Ok ()
        else if cn_parent_node_id r = None
        then Err (ClientError InvalidRequest ''non-root node must have a parent'')
        else Ok ())
       (\<lambda>_.
        if cn_input_log_id r \<noteq> None \<and> cn_input_log_container r \<noteq> None
        then Err (ClientError InvalidRequest ''input_log_id and input_log_container are mutually exclusive'')
        else if \<not> node_id_is_root (cn_node_id r) \<and> cn_input_log_id r = None \<and> cn_input_log_container r = None
        then Err (ClientError InvalidRequest ''non-root node must provide an input log id or inline log container'')
        else node_attrs_validate (cn_attrs r))"

record node_update =
  nu_node_id :: node_id
  nu_status :: "node_status option"
  nu_progress_score :: "score option"
  nu_novelty_score :: "novelty option"
  nu_visit_count_delta :: u64
  nu_expand_count_delta :: u64
  nu_touch_visited :: bool
  nu_attrs :: "node_attrs option"

record update_nodes_request =
  un_experiment_id :: string
  un_updates :: "node_update list"

record update_nodes_response =
  ur_updated_at :: u64
  ur_applied :: u32

record get_path_response =
  gp_nodes :: "node_meta list"
  gp_input_log_containers :: "u8 list list"

datatype order_by = CreatedAt | ProgressDesc | NoveltyDesc

record query_nodes_request =
  qn_experiment_id :: string
  qn_statuses :: "node_status list"
  qn_min_progress :: "score option"
  qn_max_progress :: "score option"
  qn_min_novelty :: "novelty option"
  qn_min_depth :: "u64 option"
  qn_max_depth :: "u64 option"
  qn_created_after :: "u64 option"
  qn_updated_after :: "u64 option"
  qn_order_by :: order_by
  qn_limit :: "u32 option"

definition resume_created_after :: "query_nodes_request \<Rightarrow> u64 \<Rightarrow> query_nodes_request" where
  "resume_created_after q t = q\<lparr>qn_created_after := Some t\<rparr>"

definition resume_updated_after :: "query_nodes_request \<Rightarrow> u64 \<Rightarrow> query_nodes_request" where
  "resume_updated_after q t = q\<lparr>qn_updated_after := Some t\<rparr>"

section \<open>Metadata\<close>

datatype metadata_key = MetadataKey (key_str: string)

text \<open>\<open>{seq:020}\<close>: decimal, padded with zeros to twenty digits.\<close>

definition show_nat_020 :: "nat \<Rightarrow> string" where
  "show_nat_020 n = replicate (20 - length (show_nat n)) CHR ''0'' @ show_nat n"

definition key_checkpoint :: "string \<Rightarrow> metadata_key" where
  "key_checkpoint experiment_id = MetadataKey (''orch/ckpt/'' @ experiment_id)"

definition key_wal :: "string \<Rightarrow> u64 \<Rightarrow> metadata_key" where
  "key_wal experiment_id sq = MetadataKey (''orch/wal/'' @ experiment_id @ ''/'' @ show_nat_020 (unat sq))"

datatype metadata_generation = MetadataGeneration (generation_get: u64)

definition GENERATION_CREATE_ONLY :: metadata_generation where "GENERATION_CREATE_ONLY = MetadataGeneration 0"

datatype metadata_expectation = Unconditional | CreateOnly | Generation metadata_generation

fun wire_generation :: "metadata_expectation \<Rightarrow> metadata_generation option" where
  "wire_generation Unconditional = None"
| "wire_generation CreateOnly = Some GENERATION_CREATE_ONLY"
| "wire_generation (Generation g) = Some g"

record put_metadata_request =
  pm_key :: metadata_key
  pm_value :: "u8 list"
  pm_expected_generation :: metadata_expectation

record get_metadata_response =
  gm_value :: "u8 list"
  gm_generation :: metadata_generation

record delete_metadata_request =
  dm_key :: metadata_key
  dm_expected_generation :: metadata_expectation

section \<open>Keys are distinct\<close>

text \<open>The decimal digits of a number, read back.\<close>

definition read_digits :: "string \<Rightarrow> nat" where
  "read_digits s = foldl (\<lambda>acc c. 10 * acc + (of_char c - 48)) 0 s"

lemma read_digits_append: "read_digits (s @ [c]) = 10 * read_digits s + (of_char c - 48)"
  by (simp add: read_digits_def)

lemma read_digits_show: "read_digits (show_nat n) = n"
proof (induction n rule: show_nat.induct)
  case (1 n)
  show ?case
  proof (cases "n < 10")
    case True
    then show ?thesis by (subst show_nat.simps) (simp add: read_digits_def)
  next
    case False
    then show ?thesis using 1 by (subst show_nat.simps) (simp add: read_digits_append)
  qed
qed

lemma read_digits_zeros: "read_digits (replicate k CHR ''0'' @ s) = read_digits s"
  by (induction k) (simp_all add: read_digits_def)

lemma show_nat_020_inject [simp]: "show_nat_020 m = show_nat_020 n \<longleftrightarrow> m = n"
  by (metis read_digits_show read_digits_zeros show_nat_020_def)

lemma show_nat_length: "n < 10 ^ k \<Longrightarrow> 0 < k \<Longrightarrow> length (show_nat n) \<le> k"
proof (induction k arbitrary: n)
  case (Suc k)
  show ?case
  proof (cases "n < 10")
    case False
    then have "0 < k" using Suc.prems by (cases k) auto
    moreover have "n div 10 < 10 ^ k" using Suc.prems by (simp add: div_less_iff_less_mult)
    ultimately show ?thesis using Suc.IH[of "n div 10"] False by (subst show_nat.simps) simp
  qed (subst show_nat.simps, simp)
qed simp

lemma length_show_nat_020: "n < 10 ^ 20 \<Longrightarrow> length (show_nat_020 n) = 20"
  using show_nat_length[of n 20] by (simp add: show_nat_020_def)

lemma length_seq_020 [simp]: "length (show_nat_020 (unat (x :: u64))) = 20"
  by (rule length_show_nat_020) (rule less_trans[OF unsigned_less], simp)

text \<open>The log keys of an experiment are distinct, and distinct from every checkpoint key.\<close>

lemma key_wal_inject [simp]: "key_wal e a = key_wal e b \<longleftrightarrow> a = b"
  by (auto simp: key_wal_def word_unat_eq_iff)

lemma key_wal_checkpoint [simp]: "key_wal e a \<noteq> key_checkpoint e'" "key_checkpoint e' \<noteq> key_wal e a"
  by (auto simp: key_wal_def key_checkpoint_def)

text \<open>Two experiments never share a log key: the number has twenty digits.\<close>

lemma key_wal_eq: "key_wal e a = key_wal e' b \<longleftrightarrow> e = e' \<and> a = b"
proof
  assume "key_wal e a = key_wal e' b"
  then have *: "(e @ ''/'') @ show_nat_020 (unat a) = (e' @ ''/'') @ show_nat_020 (unat b)" by (simp add: key_wal_def)
  have "show_nat_020 (unat a) = show_nat_020 (unat b)"
    using append_eq_append_conv[of "e @ ''/''" "e' @ ''/''" "show_nat_020 (unat a)" "show_nat_020 (unat b)"] * by simp
  then show "e = e' \<and> a = b" using * by (simp add: word_unat_eq_iff)
qed simp

end
