(* ===== verification/Fault.thy ===== *)
theory Fault
  imports Client Hash_Map Rng
begin

text \<open>
  The deterministic fault injection of the service fakes (\<open>crates/orch-fakes/src/fault.rs\<close>). A
  decision is drawn from a hash of the plan's seed, the attempt number of the operation stream and
  the request; the hash is the parameter \<open>blake3\<close>. The injector counts the attempts of each stream
  \<open>(target, operation)\<close>, so that a repeated request draws afresh.
\<close>

section \<open>Plans\<close>

datatype fault_target = TgtHypervisor | TgtSnapshotStore | TgtScorer | TgtSynth | TgtGrid | TgtObservatory

fun target_tag :: "fault_target \<Rightarrow> u8 list" where
  "target_tag TgtHypervisor = ascii ''hypervisor''"
| "target_tag TgtSnapshotStore = ascii ''snapshot_store''"
| "target_tag TgtScorer = ascii ''scorer''"
| "target_tag TgtSynth = ascii ''synth''"
| "target_tag TgtGrid = ascii ''grid''"
| "target_tag TgtObservatory = ascii ''observatory''"

record fault_request =
  fq_target :: fault_target
  fq_operation :: string
  fq_request_identity :: "u8 list"

definition FAULT_DENOMINATOR :: u32 where "FAULT_DENOMINATOR = 1000000"

datatype fault_rate = FaultRate (rate_get: u32)

definition rate_never :: fault_rate where "rate_never = FaultRate 0"
definition rate_always :: fault_rate where "rate_always = FaultRate FAULT_DENOMINATOR"

datatype fault_config_error =
    RateOutOfRange u32
  | InvalidSynthFingerprintFlip u8 u8

fun fault_config_error_display :: "fault_config_error \<Rightarrow> string" where
  "fault_config_error_display (RateOutOfRange r) =
     ''fault rate '' @ show_nat (unat r) @ '' is greater than '' @ show_nat (unat FAULT_DENOMINATOR) @ '' per million''"
| "fault_config_error_display (InvalidSynthFingerprintFlip y b) =
     ''invalid synth fingerprint flip at byte '' @ show_nat (unat y) @ '', bit '' @ show_nat (unat b)"

definition rate_per_million :: "u32 \<Rightarrow> (fault_config_error, fault_rate) res" where
  "rate_per_million n = (if FAULT_DENOMINATOR < n then Err (RateOutOfRange n) else Ok (FaultRate n))"

definition rate_fires :: "fault_rate \<Rightarrow> u64 \<Rightarrow> bool" where
  "rate_fires r draw =
     (if rate_get r = 0 then False
      else if rate_get r = FAULT_DENOMINATOR then True
      else draw mod ucast FAULT_DENOMINATOR < ucast (rate_get r))"

record latency_fault =
  lf_base_ticks :: u32
  lf_jitter_ticks :: u32

definition latency_disabled :: latency_fault where
  "latency_disabled = \<lparr>lf_base_ticks = 0, lf_jitter_ticks = 0\<rparr>"

definition latency_decide :: "latency_fault \<Rightarrow> u64 \<Rightarrow> u32" where
  "latency_decide l draw =
     (if lf_jitter_ticks l = 0 then lf_base_ticks l
      else saturating_add (lf_base_ticks l) (ucast (draw mod (ucast (lf_jitter_ticks l) + 1))))"

record partial_response_fault =
  pf_rate :: fault_rate
  pf_min_keep_items :: u32

definition partial_disabled :: partial_response_fault where
  "partial_disabled = \<lparr>pf_rate = rate_never, pf_min_keep_items = 0\<rparr>"

datatype partial_response = PartialResponse (keep_items: u32)

definition partial_truncate_len :: "partial_response \<Rightarrow> nat \<Rightarrow> nat" where
  "partial_truncate_len p len = min len (unat (keep_items p))"

definition partial_decide :: "partial_response_fault \<Rightarrow> u32 \<Rightarrow> u64 \<Rightarrow> u64 \<Rightarrow> partial_response option" where
  "partial_decide p total_items fires_draw len_draw =
     (if total_items = 0 \<or> total_items \<le> pf_min_keep_items p \<or> \<not> rate_fires (pf_rate p) fires_draw then None
      else let min_keep = pf_min_keep_items p;
               width = total_items - min_keep;
               keep = min_keep + ucast (len_draw mod ucast width)
           in if keep < total_items then Some (PartialResponse keep) else None)"

datatype fault_terminal = TerminalNone | TerminalError client_error_kind | TerminalTimeout

definition CONFIG_FINGERPRINT_LEN :: nat where "CONFIG_FINGERPRINT_LEN = 32"

record synth_fingerprint_flip =
  sf_byte_index :: u8
  sf_bit_mask :: u8

definition synth_fingerprint_flip_new :: "u8 \<Rightarrow> u8 \<Rightarrow> (fault_config_error, synth_fingerprint_flip) res" where
  "synth_fingerprint_flip_new byte_index bit_index =
     (if CONFIG_FINGERPRINT_LEN \<le> unat byte_index \<or> 8 \<le> bit_index
      then Err (InvalidSynthFingerprintFlip byte_index bit_index)
      else Ok \<lparr>sf_byte_index = byte_index, sf_bit_mask = push_bit (unat bit_index) 1\<rparr>)"

definition flip_apply :: "synth_fingerprint_flip \<Rightarrow> u8 list \<Rightarrow> ('e, u8 list) res" where
  "flip_apply f bytes = bind_res (index_vec bytes (unat (sf_byte_index f))) (\<lambda>b.
     Ok (bytes[unat (sf_byte_index f) := b XOR sf_bit_mask f]))"

record fault_decision =
  fd_latency_ticks :: u32
  fd_terminal :: fault_terminal
  fd_partial :: "partial_response option"
  fd_synth_fingerprint_flip :: "synth_fingerprint_flip option"

definition decision_client_error :: "fault_decision \<Rightarrow> client_error option" where
  "decision_client_error d = (case fd_terminal d of
       TerminalNone \<Rightarrow> None
     | TerminalError kind \<Rightarrow> Some (ClientError kind ''deterministic fake fault'')
     | TerminalTimeout \<Rightarrow> Some (ClientError Unavailable ''deterministic fake timeout''))"

definition decision_truncate_len :: "fault_decision \<Rightarrow> nat \<Rightarrow> nat" where
  "decision_truncate_len d len = (case fd_partial d of None \<Rightarrow> len | Some p \<Rightarrow> partial_truncate_len p len)"

definition apply_synth_fingerprint :: "fault_decision \<Rightarrow> u8 list \<Rightarrow> ('e, u8 list) res" where
  "apply_synth_fingerprint d fp = (case fd_synth_fingerprint_flip d of None \<Rightarrow> Ok fp | Some f \<Rightarrow> flip_apply f fp)"

record fault_stats =
  fs_decisions_total :: u64
  fs_latency_faults_total :: u64
  fs_terminal_faults_total :: u64
  fs_partial_response_faults_total :: u64
  fs_synth_fingerprint_flip_faults_total :: u64

record fault_plan =
  fp_seed :: u64
  fp_latency :: latency_fault
  fp_error_rate :: fault_rate
  fp_error_kind :: client_error_kind
  fp_timeout_rate :: fault_rate
  fp_partial_response :: partial_response_fault
  fp_synth_fingerprint_flip_rate :: fault_rate
  fp_one_shot_errors :: "(string, client_error_kind) hash_map"

definition plan_disabled :: "u64 \<Rightarrow> fault_plan" where
  "plan_disabled sd = \<lparr>fp_seed = sd, fp_latency = latency_disabled, fp_error_rate = rate_never,
     fp_error_kind = Unavailable, fp_timeout_rate = rate_never, fp_partial_response = partial_disabled,
     fp_synth_fingerprint_flip_rate = rate_never, fp_one_shot_errors = []\<rparr>"

definition plan_with_latency :: "latency_fault \<Rightarrow> fault_plan \<Rightarrow> fault_plan" where
  "plan_with_latency l p = p\<lparr>fp_latency := l\<rparr>"

definition plan_with_error :: "fault_rate \<Rightarrow> client_error_kind \<Rightarrow> fault_plan \<Rightarrow> fault_plan" where
  "plan_with_error r k p = p\<lparr>fp_error_rate := r, fp_error_kind := k\<rparr>"

definition plan_with_timeout :: "fault_rate \<Rightarrow> fault_plan \<Rightarrow> fault_plan" where
  "plan_with_timeout r p = p\<lparr>fp_timeout_rate := r\<rparr>"

definition plan_with_partial_response :: "partial_response_fault \<Rightarrow> fault_plan \<Rightarrow> fault_plan" where
  "plan_with_partial_response r p = p\<lparr>fp_partial_response := r\<rparr>"

definition plan_with_synth_fingerprint_flip :: "fault_rate \<Rightarrow> fault_plan \<Rightarrow> fault_plan" where
  "plan_with_synth_fingerprint_flip r p = p\<lparr>fp_synth_fingerprint_flip_rate := r\<rparr>"

definition plan_with_one_shot_error :: "string \<Rightarrow> client_error_kind \<Rightarrow> fault_plan \<Rightarrow> fault_plan" where
  "plan_with_one_shot_error op k p = p\<lparr>fp_one_shot_errors := hm_insert (fp_one_shot_errors p) op k\<rparr>"

section \<open>Decisions\<close>

datatype fault_channel =
    ChLatency
  | ChTerminal
  | ChPartialResponse
  | ChPartialResponseLen
  | ChSynthFingerprintFlip
  | ChSynthFingerprintFlipBit

fun channel_tag :: "fault_channel \<Rightarrow> u8 list" where
  "channel_tag ChLatency = ascii ''latency''"
| "channel_tag ChTerminal = ascii ''terminal''"
| "channel_tag ChPartialResponse = ascii ''partial_response''"
| "channel_tag ChPartialResponseLen = ascii ''partial_response_len''"
| "channel_tag ChSynthFingerprintFlip = ascii ''synth_fingerprint_flip''"
| "channel_tag ChSynthFingerprintFlipBit = ascii ''synth_fingerprint_flip_bit''"

definition len_prefixed :: "u8 list \<Rightarrow> u8 list" where
  "len_prefixed bytes = to_le_bytes (word_of_nat (length bytes) :: u64) @ bytes"

definition from_le_bytes :: "u8 list \<Rightarrow> u64" where
  "from_le_bytes bytes = foldr (\<lambda>b acc. ucast b + push_bit 8 acc) bytes 0"

definition draw_u64 :: "(u8 list \<Rightarrow> u8 list) \<Rightarrow> u64 \<Rightarrow> fault_request \<Rightarrow> u64 \<Rightarrow> fault_channel \<Rightarrow> u64" where
  "draw_u64 blake3 sd request attempt channel =
     from_le_bytes (take 8 (blake3 (ascii ''orch-fakes/fault/v2'' @ to_le_bytes sd @ to_le_bytes attempt
       @ len_prefixed (channel_tag channel) @ len_prefixed (target_tag (fq_target request))
       @ len_prefixed (ascii (fq_operation request)) @ len_prefixed (fq_request_identity request))))"

definition decide_terminal :: "fault_rate \<Rightarrow> fault_rate \<Rightarrow> client_error_kind \<Rightarrow> u64 \<Rightarrow> fault_terminal" where
  "decide_terminal timeout_rate error_rate error_kind draw =
     (let terminal_draw = draw mod ucast FAULT_DENOMINATOR;
          timeout_cutoff = ucast (rate_get timeout_rate);
          error_cutoff = min (saturating_add timeout_cutoff (ucast (rate_get error_rate))) (ucast FAULT_DENOMINATOR)
      in if terminal_draw < timeout_cutoff then TerminalTimeout
         else if terminal_draw < error_cutoff then TerminalError error_kind
         else TerminalNone)"

definition decide_with_attempt ::
  "(u8 list \<Rightarrow> u8 list) \<Rightarrow> fault_plan \<Rightarrow> fault_request \<Rightarrow> u32 \<Rightarrow> u64 \<Rightarrow> (client_error, fault_decision) res" where
  "decide_with_attempt blake3 plan request response_items attempt =
     (let draw = draw_u64 blake3 (fp_seed plan) request attempt;
          latency_ticks = latency_decide (fp_latency plan) (draw ChLatency);
          terminal = (if attempt = 1
            then case_option TerminalNone TerminalError (hm_get (fp_one_shot_errors plan) (fq_operation request))
            else decide_terminal (fp_timeout_rate plan) (fp_error_rate plan) (fp_error_kind plan) (draw ChTerminal));
          has_response = (terminal = TerminalNone);
          partial = (if has_response
            then partial_decide (fp_partial_response plan) response_items (draw ChPartialResponse) (draw ChPartialResponseLen)
            else None)
      in bind_res
        (if has_response \<and> fq_target request = TgtSynth
            \<and> rate_fires (fp_synth_fingerprint_flip_rate plan) (draw ChSynthFingerprintFlip)
         then let d = draw ChSynthFingerprintFlipBit
           in (case synth_fingerprint_flip_new (ucast (d mod word_of_nat CONFIG_FINGERPRINT_LEN)) (ucast (drop_bit 8 d mod 8)) of
                 Ok f \<Rightarrow> Ok (Some f)
               | _ \<Rightarrow> Panic ''generated synth fingerprint flip is in range'')
         else Ok None)
        (\<lambda>flip. Ok \<lparr>fd_latency_ticks = latency_ticks, fd_terminal = terminal, fd_partial = partial,
                    fd_synth_fingerprint_flip = flip\<rparr>))"

section \<open>The injector\<close>

record fault_injector =
  inj_plan :: fault_plan
  inj_attempts :: "(fault_target \<times> string, u64) hash_map"
  inj_stats :: fault_stats

definition injector_new :: "fault_plan \<Rightarrow> fault_injector" where
  "injector_new plan = \<lparr>inj_plan = plan, inj_attempts = [],
     inj_stats = \<lparr>fs_decisions_total = 0, fs_latency_faults_total = 0, fs_terminal_faults_total = 0,
       fs_partial_response_faults_total = 0, fs_synth_fingerprint_flip_faults_total = 0\<rparr>\<rparr>"

definition record_stats :: "fault_stats \<Rightarrow> fault_decision \<Rightarrow> fault_stats" where
  "record_stats st d =
     \<lparr>fs_decisions_total = saturating_add (fs_decisions_total st) 1,
      fs_latency_faults_total = (if 0 < fd_latency_ticks d then saturating_add (fs_latency_faults_total st) 1
        else fs_latency_faults_total st),
      fs_terminal_faults_total = (if fd_terminal d \<noteq> TerminalNone then saturating_add (fs_terminal_faults_total st) 1
        else fs_terminal_faults_total st),
      fs_partial_response_faults_total = (if fd_partial d \<noteq> None then saturating_add (fs_partial_response_faults_total st) 1
        else fs_partial_response_faults_total st),
      fs_synth_fingerprint_flip_faults_total = (if fd_synth_fingerprint_flip d \<noteq> None
        then saturating_add (fs_synth_fingerprint_flip_faults_total st) 1 else fs_synth_fingerprint_flip_faults_total st)\<rparr>"

definition attempt_of :: "fault_injector \<Rightarrow> fault_request \<Rightarrow> u64" where
  "attempt_of fi request = case_option 0 id (hm_get (inj_attempts fi) (fq_target request, fq_operation request))"

definition injector_decide ::
  "(u8 list \<Rightarrow> u8 list) \<Rightarrow> fault_injector \<Rightarrow> fault_request \<Rightarrow> u32 \<Rightarrow> (client_error, fault_decision \<times> fault_injector) res" where
  "injector_decide blake3 fi request response_items =
     (let attempt = attempt_of fi request in
      bind_res (add_or_panic attempt 1) (\<lambda>next.
      let fi = fi\<lparr>inj_attempts := hm_insert (inj_attempts fi) (fq_target request, fq_operation request) next\<rparr> in
      bind_res (decide_with_attempt blake3 (inj_plan fi) request response_items attempt) (\<lambda>decision.
        Ok (decision, fi\<lparr>inj_stats := record_stats (inj_stats fi) decision\<rparr>))))"

definition injector_peek ::
  "(u8 list \<Rightarrow> u8 list) \<Rightarrow> fault_injector \<Rightarrow> fault_request \<Rightarrow> u32 \<Rightarrow> (client_error, fault_decision) res" where
  "injector_peek blake3 fi request response_items =
     decide_with_attempt blake3 (inj_plan fi) request response_items (attempt_of fi request)"

section \<open>Facts\<close>

lemma flip_new_in_range:
  "\<exists>f. synth_fingerprint_flip_new (ucast (d mod word_of_nat CONFIG_FINGERPRINT_LEN)) (ucast (drop_bit 8 d mod 8)) = Ok f
     \<and> unat (sf_byte_index f) < CONFIG_FINGERPRINT_LEN \<and> sf_bit_mask f \<noteq> 0"
  for d :: u64
proof -
  have b: "unat (ucast (d mod 32) :: u8) = unat d mod 32" "unat (ucast (drop_bit 8 d mod 8) :: u8) = unat (drop_bit 8 d) mod 8"
    by (simp_all add: unsigned_ucast_eq unat_mod take_bit_nat_eq_self)
  then have "unat (ucast (d mod 32) :: u8) < 32" "unat (ucast (drop_bit 8 d mod 8) :: u8) < 8" by simp_all
  moreover have "(push_bit n 1 :: u8) \<noteq> 0" if "n < 8" for n
    using that by (auto simp: bit_eq_iff bit_simps)
  ultimately show ?thesis
    by (simp add: synth_fingerprint_flip_new_def CONFIG_FINGERPRINT_LEN_def word_le_nat_alt not_le)
qed

lemma partial_decide_Some:
  assumes "partial_decide p total_items d e = Some r"
  shows "pf_min_keep_items p \<le> keep_items r" "keep_items r < total_items"
proof -
  let ?w = "total_items - pf_min_keep_items p"
  have lt: "pf_min_keep_items p < total_items" and
    r: "keep_items r = pf_min_keep_items p + ucast (e mod ucast ?w)" "keep_items r < total_items"
    using assms by (auto simp: partial_decide_def Let_def split: if_splits)
  show "keep_items r < total_items" by (rule r)
  have w: "unat ?w = unat total_items - unat (pf_min_keep_items p)" using lt by (simp add: unat_sub)
  have m: "unat (ucast (e mod ucast ?w) :: u32) < unat ?w"
  proof -
    have "0 < unat ?w" using lt w by (simp add: word_less_nat_alt)
    then have "unat (e mod ucast ?w) < unat ?w" by (simp add: unat_mod)
    then show ?thesis by (simp add: unsigned_ucast_eq le_less_trans[OF take_bit_nat_less_eq_self])
  qed
  have "unat (pf_min_keep_items p) + unat (ucast (e mod ucast ?w) :: u32) < 2 ^ LENGTH(32)"
    using m w lt unsigned_less[of total_items, where ?'a = nat] by (simp add: word_less_nat_alt)
  then show "pf_min_keep_items p \<le> keep_items r"
    unfolding r(1) word_le_nat_alt by (subst unat_add_no_overflow) auto
qed

lemma decide_cases:
  assumes t: "t = (if attempt = 1
            then case_option TerminalNone TerminalError (hm_get (fp_one_shot_errors plan) (fq_operation request))
            else decide_terminal (fp_timeout_rate plan) (fp_error_rate plan) (fp_error_kind plan)
              (draw_u64 blake3 (fp_seed plan) request attempt ChTerminal))"
  obtains d where "decide_with_attempt blake3 plan request n attempt = Ok d" "fd_terminal d = t"
    "fd_latency_ticks d = latency_decide (fp_latency plan) (draw_u64 blake3 (fp_seed plan) request attempt ChLatency)"
    "fd_partial d = (if t = TerminalNone
          then partial_decide (fp_partial_response plan) n (draw_u64 blake3 (fp_seed plan) request attempt ChPartialResponse)
            (draw_u64 blake3 (fp_seed plan) request attempt ChPartialResponseLen) else None)"
    "\<And>f. fd_synth_fingerprint_flip d = Some f \<Longrightarrow> t = TerminalNone \<and> fq_target request = TgtSynth
       \<and> unat (sf_byte_index f) < CONFIG_FINGERPRINT_LEN \<and> sf_bit_mask f \<noteq> 0"
    "rate_get (fp_synth_fingerprint_flip_rate plan) = 0 \<Longrightarrow> fd_synth_fingerprint_flip d = None"
proof (cases "t = TerminalNone \<and> fq_target request = TgtSynth
    \<and> rate_fires (fp_synth_fingerprint_flip_rate plan) (draw_u64 blake3 (fp_seed plan) request attempt ChSynthFingerprintFlip)")
  case True
  obtain f where f: "synth_fingerprint_flip_new
      (ucast (draw_u64 blake3 (fp_seed plan) request attempt ChSynthFingerprintFlipBit mod word_of_nat CONFIG_FINGERPRINT_LEN))
      (ucast (drop_bit 8 (draw_u64 blake3 (fp_seed plan) request attempt ChSynthFingerprintFlipBit) mod 8)) = Ok f"
    "unat (sf_byte_index f) < CONFIG_FINGERPRINT_LEN" "sf_bit_mask f \<noteq> 0"
    using flip_new_in_range by blast
  have "rate_get (fp_synth_fingerprint_flip_rate plan) \<noteq> 0" using True by (auto simp: rate_fires_def)
  moreover obtain d where "decide_with_attempt blake3 plan request n attempt = Ok d" "d = \<lparr>fd_latency_ticks =
      latency_decide (fp_latency plan) (draw_u64 blake3 (fp_seed plan) request attempt ChLatency),
      fd_terminal = t, fd_partial = partial_decide (fp_partial_response plan) n
        (draw_u64 blake3 (fp_seed plan) request attempt ChPartialResponse)
        (draw_u64 blake3 (fp_seed plan) request attempt ChPartialResponseLen), fd_synth_fingerprint_flip = Some f\<rparr>"
    using True f(1) by (simp add: decide_with_attempt_def Let_def t[symmetric])
  ultimately show ?thesis using True f by (intro that[of d]) simp_all
next
  case False
  then obtain d where "decide_with_attempt blake3 plan request n attempt = Ok d" "d = \<lparr>fd_latency_ticks =
      latency_decide (fp_latency plan) (draw_u64 blake3 (fp_seed plan) request attempt ChLatency),
      fd_terminal = t, fd_partial = (if t = TerminalNone then partial_decide (fp_partial_response plan) n
        (draw_u64 blake3 (fp_seed plan) request attempt ChPartialResponse)
        (draw_u64 blake3 (fp_seed plan) request attempt ChPartialResponseLen) else None), fd_synth_fingerprint_flip = None\<rparr>"
    by (simp add: decide_with_attempt_def Let_def t[symmetric])
  then show ?thesis by (intro that[of d]) simp_all
qed

text \<open>A disabled plan never interferes.\<close>

definition no_fault :: fault_decision where
  "no_fault = \<lparr>fd_latency_ticks = 0, fd_terminal = TerminalNone, fd_partial = None, fd_synth_fingerprint_flip = None\<rparr>"

lemma decide_disabled: "decide_with_attempt blake3 (plan_disabled sd) request n attempt = Ok no_fault"
proof -
  have "TerminalNone = (if attempt = 1
      then case_option TerminalNone TerminalError (hm_get (fp_one_shot_errors (plan_disabled sd)) (fq_operation request))
      else decide_terminal (fp_timeout_rate (plan_disabled sd)) (fp_error_rate (plan_disabled sd)) (fp_error_kind (plan_disabled sd))
        (draw_u64 blake3 (fp_seed (plan_disabled sd)) request attempt ChTerminal))"
    by (simp add: plan_disabled_def decide_terminal_def rate_never_def saturating_add_def)
  from decide_cases[OF this, of n] obtain d where d: "decide_with_attempt blake3 (plan_disabled sd) request n attempt = Ok d"
    "fd_terminal d = TerminalNone" "fd_latency_ticks d = 0" "fd_partial d = None" "fd_synth_fingerprint_flip d = None"
    by (simp add: plan_disabled_def latency_decide_def latency_disabled_def partial_decide_def partial_disabled_def
        rate_fires_def rate_never_def) blast
  then show ?thesis by (simp add: no_fault_def)
qed

text \<open>C36: Every fault decision is well formed. Deciding never panics; a partial response and a fingerprint flip only
  come with a request that succeeds; a partial response keeps at least the configured minimum and drops at
  least one item; a flip only hits the synthesizer and flips a bit inside the fingerprint.\<close>

theorem fault_decision_wf:
  "\<exists>d. decide_with_attempt blake3 plan request n attempt = Ok d
     \<and> (fd_partial d \<noteq> None \<or> fd_synth_fingerprint_flip d \<noteq> None \<longrightarrow> fd_terminal d = TerminalNone)
     \<and> (\<forall>p. fd_partial d = Some p \<longrightarrow> pf_min_keep_items (fp_partial_response plan) \<le> keep_items p \<and> keep_items p < n)
     \<and> (\<forall>f. fd_synth_fingerprint_flip d = Some f \<longrightarrow>
          fq_target request = TgtSynth \<and> unat (sf_byte_index f) < CONFIG_FINGERPRINT_LEN \<and> sf_bit_mask f \<noteq> 0)"
proof -
  obtain d t where d: "decide_with_attempt blake3 plan request n attempt = Ok d" "fd_terminal d = t"
    "fd_partial d = (if t = TerminalNone
          then partial_decide (fp_partial_response plan) n (draw_u64 blake3 (fp_seed plan) request attempt ChPartialResponse)
            (draw_u64 blake3 (fp_seed plan) request attempt ChPartialResponseLen) else None)"
    and f: "\<And>f. fd_synth_fingerprint_flip d = Some f \<Longrightarrow> t = TerminalNone \<and> fq_target request = TgtSynth
       \<and> unat (sf_byte_index f) < CONFIG_FINGERPRINT_LEN \<and> sf_bit_mask f \<noteq> 0"
    by (rule decide_cases[OF refl]) blast
  show ?thesis
    using d by (intro exI[of _ d]) (cases "fd_synth_fingerprint_flip d", auto dest: partial_decide_Some f split: if_splits)
qed

definition example_request :: fault_request where
  "example_request = \<lparr>fq_target = TgtSynth, fq_operation = ''propose_bursts'', fq_request_identity = []\<rparr>"

theorem fault_decision_wf_witness:
  "\<exists>d f. decide_with_attempt (\<lambda>_. []) (plan_with_synth_fingerprint_flip rate_always (plan_disabled 0)) example_request 3 1 = Ok d
     \<and> fd_synth_fingerprint_flip d = Some f \<and> unat (sf_byte_index f) < CONFIG_FINGERPRINT_LEN \<and> sf_bit_mask f \<noteq> 0"
proof -
  let ?plan = "plan_with_synth_fingerprint_flip rate_always (plan_disabled 0)"
  obtain d where d: "decide_with_attempt (\<lambda>_. []) ?plan example_request 3 1 = Ok d"
    "\<And>f. fd_synth_fingerprint_flip d = Some f \<Longrightarrow> unat (sf_byte_index f) < CONFIG_FINGERPRINT_LEN \<and> sf_bit_mask f \<noteq> 0"
    using fault_decision_wf[of "\<lambda>_. []" ?plan example_request 3 1] by blast
  have "fd_synth_fingerprint_flip d \<noteq> None"
    using d(1) by (auto simp: decide_with_attempt_def Let_def res_simps plan_with_synth_fingerprint_flip_def plan_disabled_def
        example_request_def rate_fires_def rate_always_def FAULT_DENOMINATOR_def split: res.splits)
  then show ?thesis using d by blast
qed

lemma injector_decide_Ok:
  "injector_decide blake3 fi request n = Ok (d, fi') \<longleftrightarrow>
     injector_peek blake3 fi request n = Ok d \<and> unat (attempt_of fi request) + 1 < 2 ^ 64
     \<and> fi' = fi\<lparr>inj_attempts := hm_insert (inj_attempts fi) (fq_target request, fq_operation request) (attempt_of fi request + 1),
                inj_stats := record_stats (inj_stats fi) d\<rparr>"
  by (auto simp: injector_decide_def injector_peek_def Let_def res_simps)

text \<open>The rates of a plan have no effect on the second request of a stream: there only the one-shot errors count.\<close>

lemma second_request_ignores_rates:
  assumes "hm_get (fp_one_shot_errors plan) (fq_operation request) = None"
  shows "\<exists>d. decide_with_attempt blake3
      (plan_with_error rate_always kind (plan_with_timeout rate_always plan)) request n 1 = Ok d \<and> fd_terminal d = TerminalNone"
proof -
  let ?p = "plan_with_error rate_always kind (plan_with_timeout rate_always plan)"
  have "TerminalNone = (if (1 :: u64) = 1
      then case_option TerminalNone TerminalError (hm_get (fp_one_shot_errors ?p) (fq_operation request))
      else decide_terminal (fp_timeout_rate ?p) (fp_error_rate ?p) (fp_error_kind ?p)
        (draw_u64 blake3 (fp_seed ?p) request 1 ChTerminal))"
    using assms by (simp add: plan_with_error_def plan_with_timeout_def)
  from decide_cases[OF this] show ?thesis by metis
qed

text \<open>On every other request a plan that always times out does so.\<close>

lemma always_times_out:
  assumes "attempt \<noteq> 1"
  shows "\<exists>d. decide_with_attempt blake3 (plan_with_timeout rate_always plan) request n attempt = Ok d \<and> fd_terminal d = TerminalTimeout"
proof -
  let ?p = "plan_with_timeout rate_always plan"
  have "x mod 1000000 < (1000000 :: u64)" for x :: u64 by (rule word_mod_less_divisor) simp
  then have "TerminalTimeout = (if attempt = 1
      then case_option TerminalNone TerminalError (hm_get (fp_one_shot_errors ?p) (fq_operation request))
      else decide_terminal (fp_timeout_rate ?p) (fp_error_rate ?p) (fp_error_kind ?p)
        (draw_u64 blake3 (fp_seed ?p) request attempt ChTerminal))"
    using assms by (simp add: plan_with_timeout_def decide_terminal_def rate_always_def FAULT_DENOMINATOR_def)
  from decide_cases[OF this] show ?thesis by metis
qed

end
