(* ===== verification/Snapshot_Store.thy ===== *)
theory Snapshot_Store
  imports Store_Api Fault
begin

text \<open>
  The in-memory snapshot store (\<open>crates/orch-fakes/src/snapshot_store.rs\<close>). Every operation first
  asks the fault injector; the attempt counters behind a \<open>RefCell\<close> make even the reading
  operations state changes. The encoding of a request that identifies it to the injector and the hash
  are parameters, collected in \<open>store_env\<close>. An ordered map is an association list whose listing is
  sorted by key. The two loops over the node graph, the walk to the root and the traversal of a
  subtree, are partial functions: their end is proved from the invariant of the store.
\<close>

section \<open>State\<close>

record stored_node =
  sn_meta :: node_meta
  sn_input_log_container :: "u8 list option"

record experiment_store =
  xs_nodes :: "(node_id, stored_node) hash_map"
  xs_children :: "(node_id, node_id list) hash_map"

record metadata_entry =
  me_value :: "u8 list"
  me_generation :: metadata_generation

record snapshot_store =
  ss_experiments :: "(string, experiment_store) hash_map"
  ss_metadata :: "(metadata_key, metadata_entry) hash_map"
  ss_fault_injector :: fault_injector
  ss_last_fault :: "fault_decision option"
  ss_logical_clock :: u64

text \<open>The requests, as they are encoded for the injector.\<close>

datatype store_request =
    RqCreateNode create_node_request
  | RqUpdateNodes update_nodes_request
  | RqGetNode string node_id
  | RqGetChildren string node_id
  | RqGetPath string node_id bool
  | RqQueryNodes query_nodes_request
  | RqPutMetadata put_metadata_request
  | RqGetMetadata metadata_key
  | RqDeleteMetadata delete_metadata_request
  | RqPruneSubtree string node_id bool

record store_env =
  se_blake3 :: "u8 list \<Rightarrow> u8 list"
  se_request_identity :: "store_request \<Rightarrow> u8 list"

definition store_with_fault_plan :: "fault_plan \<Rightarrow> snapshot_store" where
  "store_with_fault_plan plan = \<lparr>ss_experiments = [], ss_metadata = [], ss_fault_injector = injector_new plan,
     ss_last_fault = None, ss_logical_clock = 0\<rparr>"

definition store_new :: snapshot_store where
  "store_new = store_with_fault_plan (plan_disabled 0)"

definition store_tick :: "snapshot_store \<Rightarrow> (client_error, u64) res \<times> snapshot_store" where
  "store_tick s = (case checked_add (ss_logical_clock s) 1 of
       None \<Rightarrow> (Err (ClientError Internal ''snapshot-store clock overflow''), s)
     | Some t \<Rightarrow> (Ok t, s\<lparr>ss_logical_clock := t\<rparr>))"

definition decide_fault ::
  "store_env \<Rightarrow> snapshot_store \<Rightarrow> string \<Rightarrow> store_request \<Rightarrow> u32 \<Rightarrow> (client_error, fault_decision) res \<times> snapshot_store" where
  "decide_fault E s operation request response_items =
     (case injector_decide (se_blake3 E) (ss_fault_injector s)
         \<lparr>fq_target = TgtSnapshotStore, fq_operation = operation, fq_request_identity = se_request_identity E request\<rparr>
         response_items of
        Ok (decision, fi) \<Rightarrow>
          let s = s\<lparr>ss_fault_injector := fi, ss_last_fault := Some decision\<rparr>
          in (case decision_client_error decision of Some e \<Rightarrow> (Err e, s) | None \<Rightarrow> (Ok decision, s))
      | Err e \<Rightarrow> (Err e, s)
      | Panic m \<Rightarrow> (Panic m, s))"

section \<open>Nodes\<close>

definition same_immutable_create_identity :: "stored_node \<Rightarrow> create_node_request \<Rightarrow> input_log_id option \<Rightarrow> bool" where
  "same_immutable_create_identity n r log_id \<longleftrightarrow>
     nm_parent_node_id (sn_meta n) = cn_parent_node_id r
     \<and> nm_snapshot_ref (sn_meta n) = cn_snapshot_ref r
     \<and> nm_input_log_id (sn_meta n) = log_id"

definition BLAKE3_OUT_LEN :: nat where "BLAKE3_OUT_LEN = 32"

definition resolved_input_log_id :: "store_env \<Rightarrow> create_node_request \<Rightarrow> (client_error, input_log_id option) res" where
  "resolved_input_log_id E r =
     (case cn_input_log_id r of
        Some i \<Rightarrow> Ok (Some i)
      | None \<Rightarrow>
          (case cn_input_log_container r of
             None \<Rightarrow> Ok None
           | Some container \<Rightarrow>
               if length container < BLAKE3_OUT_LEN
               then Err (ClientError InvalidRequest ''input log container is missing footer'')
               else let canonical_len = length container - BLAKE3_OUT_LEN;
                        expected = se_blake3 E (take canonical_len container)
                    in if drop canonical_len container \<noteq> expected
                       then Err (ClientError InvalidRequest ''input log container footer mismatch'')
                       else Ok (Some (InputLogId expected))))"

text \<open>\<open>entry(k).or_default()\<close> on the child lists.\<close>

definition or_default_children :: "(node_id, node_id list) hash_map \<Rightarrow> node_id \<Rightarrow> (node_id, node_id list) hash_map" where
  "or_default_children m k = (if hm_contains m k then m else hm_insert m k [])"

definition insert_node :: "experiment_store \<Rightarrow> stored_node \<Rightarrow> experiment_store" where
  "insert_node x n =
     (let node_id = nm_node_id (sn_meta n);
          children = or_default_children (xs_children x) node_id;
          children = (case nm_parent_node_id (sn_meta n) of
            None \<Rightarrow> children
          | Some parent \<Rightarrow>
              let children = or_default_children children parent
              in hm_insert children parent (sort (the (hm_get children parent) @ [node_id])))
      in x\<lparr>xs_children := children, xs_nodes := hm_insert (xs_nodes x) node_id n\<rparr>)"

definition check_parent :: "snapshot_store \<Rightarrow> create_node_request \<Rightarrow> (client_error, unit) res" where
  "check_parent s r =
     (if node_id_is_root (cn_node_id r) then Ok ()
      else bind_res (expect (cn_parent_node_id r) ''request validation requires parent'') (\<lambda>parent.
        bind_res (ok_or (hm_get (ss_experiments s) (cn_experiment_id r)) (ClientError NotFound ''parent experiment not found'')) (\<lambda>x.
          case hm_get (xs_nodes x) parent of
            None \<Rightarrow> Err (ClientError NotFound ''parent node not found'')
          | Some p \<Rightarrow> if nm_status (sn_meta p) = Pruned
                       then Err (ClientError FailedPrecondition ''parent node is pruned'') else Ok ())))"

definition new_depth :: "snapshot_store \<Rightarrow> create_node_request \<Rightarrow> (client_error, u64) res" where
  "new_depth s r =
     (let parent_depth =
            (case Option.bind (cn_parent_node_id r) (\<lambda>parent.
               Option.bind (hm_get (ss_experiments s) (cn_experiment_id r)) (\<lambda>x.
                 map_option (\<lambda>n. nm_depth (sn_meta n)) (hm_get (xs_nodes x) parent))) of
               None \<Rightarrow> 0 | Some d \<Rightarrow> d)
      in if node_id_is_root (cn_node_id r) then Ok 0
         else ok_or (checked_add parent_depth 1) (ClientError Internal ''node depth overflow''))"

definition node_of_request :: "create_node_request \<Rightarrow> input_log_id option \<Rightarrow> u64 \<Rightarrow> u64 \<Rightarrow> node_meta" where
  "node_of_request r log_id depth created_at =
     \<lparr>nm_experiment_id = cn_experiment_id r, nm_node_id = cn_node_id r, nm_parent_node_id = cn_parent_node_id r,
      nm_depth = depth, nm_snapshot_ref = cn_snapshot_ref r, nm_input_log_id = log_id, nm_status = cn_status r,
      nm_progress_score = cn_progress_score r, nm_novelty_score = cn_novelty_score r, nm_visit_count = 0,
      nm_expand_count = 0, nm_last_visited_at = 0, nm_created_at = created_at, nm_updated_at = created_at,
      nm_attrs = cn_attrs r\<rparr>"

definition experiment_or_default :: "snapshot_store \<Rightarrow> string \<Rightarrow> experiment_store" where
  "experiment_or_default s e = case_option \<lparr>xs_nodes = [], xs_children = []\<rparr> id (hm_get (ss_experiments s) e)"

definition create_fresh ::
  "snapshot_store \<Rightarrow> create_node_request \<Rightarrow> input_log_id option \<Rightarrow> (client_error, node_meta) res \<times> snapshot_store" where
  "create_fresh s r log_id =
     bind_st (check_parent s r, s) (\<lambda>_ s.
     bind_st (store_tick s) (\<lambda>created_at s.
     bind_st (new_depth s r, s) (\<lambda>depth s.
       let node = node_of_request r log_id depth created_at;
           x = insert_node (experiment_or_default s (cn_experiment_id r))
                 \<lparr>sn_meta = node, sn_input_log_container = cn_input_log_container r\<rparr>
       in (Ok node, s\<lparr>ss_experiments := hm_insert (ss_experiments s) (cn_experiment_id r) x\<rparr>))))"

definition create_node :: "store_env \<Rightarrow> create_node_request \<Rightarrow> (snapshot_store, node_meta) rpc" where
  "create_node E r s =
     bind_st (decide_fault E s ''create_node'' (RqCreateNode r) 0) (\<lambda>_ s.
     bind_st (create_node_validate r, s) (\<lambda>_ s.
     bind_st (resolved_input_log_id E r, s) (\<lambda>log_id s.
       case Option.bind (hm_get (ss_experiments s) (cn_experiment_id r)) (\<lambda>x. hm_get (xs_nodes x) (cn_node_id r)) of
         Some existing \<Rightarrow>
           if same_immutable_create_identity existing r log_id then (Ok (sn_meta existing), s)
           else (Err (ClientError AlreadyExists ''node id already exists with different immutable create data''), s)
       | None \<Rightarrow> create_fresh s r log_id)))"

definition apply_update :: "stored_node \<Rightarrow> node_update \<Rightarrow> u64 \<Rightarrow> (client_error, stored_node) res" where
  "apply_update n u updated_at =
     (let m = sn_meta n;
          m = m\<lparr>nm_status := case_option (nm_status m) id (nu_status u),
                nm_progress_score := case_option (nm_progress_score m) id (nu_progress_score u),
                nm_novelty_score := case_option (nm_novelty_score m) id (nu_novelty_score u)\<rparr>
      in bind_res (if nu_visit_count_delta u \<noteq> 0
                   then ok_or (checked_add (nm_visit_count m) (nu_visit_count_delta u)) (ClientError Internal ''visit count overflow'')
                   else Ok (nm_visit_count m)) (\<lambda>visits.
         bind_res (if nu_expand_count_delta u \<noteq> 0
                   then ok_or (checked_add (nm_expand_count m) (nu_expand_count_delta u)) (ClientError Internal ''expand count overflow'')
                   else Ok (nm_expand_count m)) (\<lambda>expands.
           Ok (n\<lparr>sn_meta := m\<lparr>nm_visit_count := visits, nm_expand_count := expands,
                  nm_last_visited_at := (if nu_touch_visited u then updated_at else nm_last_visited_at m),
                  nm_attrs := case_option (nm_attrs m) id (nu_attrs u),
                  nm_updated_at := updated_at\<rparr>\<rparr>))))"

fun check_updates :: "experiment_store \<Rightarrow> node_update list \<Rightarrow> (client_error, unit) res" where
  "check_updates x [] = Ok ()"
| "check_updates x (u # us) =
     (if \<not> hm_contains (xs_nodes x) (nu_node_id u) then Err (ClientError NotFound ''node not found'')
      else bind_res (case nu_attrs u of Some a \<Rightarrow> node_attrs_validate a | None \<Rightarrow> Ok ()) (\<lambda>_. check_updates x us))"

fun stage_updates ::
  "experiment_store \<Rightarrow> u64 \<Rightarrow> (node_id, stored_node) hash_map \<Rightarrow> node_update list
    \<Rightarrow> (client_error, (node_id, stored_node) hash_map) res" where
  "stage_updates x updated_at stg [] = Ok stg"
| "stage_updates x updated_at stg (u # us) =
     bind_res (case hm_get stg (nu_node_id u) of
                 Some existing \<Rightarrow> Ok existing
               | None \<Rightarrow> expect (hm_get (xs_nodes x) (nu_node_id u)) ''node existence was checked'') (\<lambda>n.
     bind_res (apply_update n u updated_at) (\<lambda>n.
       stage_updates x updated_at (hm_insert stg (nm_node_id (sn_meta n)) n) us))"

definition update_nodes :: "store_env \<Rightarrow> update_nodes_request \<Rightarrow> (snapshot_store, update_nodes_response) rpc" where
  "update_nodes E r s =
     bind_st (decide_fault E s ''update_nodes'' (RqUpdateNodes r) 0) (\<lambda>_ s.
       if un_updates r = [] then (Ok \<lparr>ur_updated_at = ss_logical_clock s, ur_applied = 0\<rparr>, s)
       else
         bind_st (ok_or (hm_get (ss_experiments s) (un_experiment_id r)) (ClientError NotFound ''experiment not found''), s) (\<lambda>x s.
         bind_st (check_updates x (un_updates r), s) (\<lambda>_ s.
         bind_st (if length (un_updates r) < 2 ^ 32 then Ok (word_of_nat (length (un_updates r)))
                  else Err (ClientError InvalidRequest ''too many node updates''), s) (\<lambda>applied s.
         bind_st (ok_or (checked_add (ss_logical_clock s) 1) (ClientError Internal ''snapshot-store clock overflow''), s) (\<lambda>updated_at s.
         bind_st (stage_updates x updated_at [] (un_updates r), s) (\<lambda>stg s.
           let x = x\<lparr>xs_nodes := fold (\<lambda>(k, n) m. hm_insert m k n) (hm_sorted stg) (xs_nodes x)\<rparr>
           in (Ok \<lparr>ur_updated_at = updated_at, ur_applied = applied\<rparr>,
               s\<lparr>ss_logical_clock := updated_at, ss_experiments := hm_insert (ss_experiments s) (un_experiment_id r) x\<rparr>)))))))"

definition find_experiment :: "snapshot_store \<Rightarrow> string \<Rightarrow> (client_error, experiment_store) res" where
  "find_experiment s e = ok_or (hm_get (ss_experiments s) e) (ClientError NotFound ''experiment not found'')"

definition find_node :: "snapshot_store \<Rightarrow> string \<Rightarrow> node_id \<Rightarrow> (client_error, stored_node) res" where
  "find_node s e i = bind_res (find_experiment s e) (\<lambda>x. ok_or (hm_get (xs_nodes x) i) (ClientError NotFound ''node not found''))"

definition get_node :: "store_env \<Rightarrow> string \<Rightarrow> node_id \<Rightarrow> (snapshot_store, node_meta) rpc" where
  "get_node E e i s =
     bind_st (decide_fault E s ''get_node'' (RqGetNode e i) 0) (\<lambda>_ s.
     bind_st (find_node s e i, s) (\<lambda>n s. (Ok (sn_meta n), s)))"

definition get_children :: "store_env \<Rightarrow> string \<Rightarrow> node_id \<Rightarrow> (snapshot_store, node_meta list) rpc" where
  "get_children E e i s =
     bind_st (find_experiment s e, s) (\<lambda>x s.
     bind_st (ok_or (hm_get (xs_children x) i) (ClientError NotFound ''node not found''), s) (\<lambda>child_ids s.
     bind_st (decide_fault E s ''get_children'' (RqGetChildren e i) (word_of_nat (length child_ids))) (\<lambda>decision s.
       let children = map sn_meta (List.map_filter (hm_get (xs_nodes x)) child_ids)
       in (Ok (take (decision_truncate_len decision (length children)) children), s))))"

partial_function (option) store_path_loop ::
  "(node_id, stored_node) hash_map \<Rightarrow> node_id \<Rightarrow> node_id list \<Rightarrow> (client_error, node_id list) res option" where
  "store_path_loop nodes current path_ids =
     (case hm_get nodes current of
        None \<Rightarrow> Some (Err (ClientError NotFound ''node not found''))
      | Some n \<Rightarrow>
          (case nm_parent_node_id (sn_meta n) of
             Some parent \<Rightarrow> store_path_loop nodes parent (path_ids @ [current])
           | None \<Rightarrow> Some (Ok (path_ids @ [current]))))"

definition get_path ::
  "store_env \<Rightarrow> string \<Rightarrow> node_id \<Rightarrow> bool \<Rightarrow> snapshot_store \<Rightarrow> ((client_error, get_path_response) res \<times> snapshot_store) option" where
  "get_path E e i include_input_logs s =
     (case find_experiment s e of
        Err err \<Rightarrow> Some (Err err, s)
      | Panic m \<Rightarrow> Some (Panic m, s)
      | Ok x \<Rightarrow>
          map_option (\<lambda>r.
            bind_st (r, s) (\<lambda>walked s.
              let path_ids = rev walked in
              bind_st (decide_fault E s ''get_path'' (RqGetPath e i include_input_logs) (word_of_nat (length path_ids))) (\<lambda>decision s.
                bind_st (collect_res (\<lambda>k. expect (hm_get (xs_nodes x) k) ''path id exists'')
                           (take (decision_truncate_len decision (length path_ids)) path_ids), s) (\<lambda>nodes s.
                  (Ok \<lparr>gp_nodes = map sn_meta nodes,
                       gp_input_log_containers = (if include_input_logs then List.map_filter sn_input_log_container nodes else [])\<rparr>, s)))))
            (store_path_loop (xs_nodes x) i []))"

definition query_matches :: "node_meta \<Rightarrow> query_nodes_request \<Rightarrow> bool" where
  "query_matches n q \<longleftrightarrow>
     (qn_statuses q = [] \<or> nm_status n \<in> set (qn_statuses q))
     \<and> (case qn_min_progress q of None \<Rightarrow> True | Some v \<Rightarrow> score_inner v \<le> score_inner (nm_progress_score n))
     \<and> (case qn_max_progress q of None \<Rightarrow> True | Some v \<Rightarrow> score_inner (nm_progress_score n) \<le> score_inner v)
     \<and> (case qn_min_novelty q of None \<Rightarrow> True | Some v \<Rightarrow> novelty_inner v \<le> novelty_inner (nm_novelty_score n))
     \<and> (case qn_min_depth q of None \<Rightarrow> True | Some v \<Rightarrow> v \<le> nm_depth n)
     \<and> (case qn_max_depth q of None \<Rightarrow> True | Some v \<Rightarrow> nm_depth n \<le> v)
     \<and> (case qn_created_after q of None \<Rightarrow> True | Some v \<Rightarrow> v < nm_created_at n)
     \<and> (case qn_updated_after q of None \<Rightarrow> True | Some v \<Rightarrow> v < nm_updated_at n)"

text \<open>\<open>sort_by\<close> is a stable sort by the comparison; the keys are compared left to right.\<close>

definition sort_query_nodes :: "order_by \<Rightarrow> node_meta list \<Rightarrow> node_meta list" where
  "sort_query_nodes ord nodes = (case ord of
       CreatedAt \<Rightarrow> sort_key nm_created_at (sort_key nm_node_id nodes)
     | ProgressDesc \<Rightarrow>
         sort_key (\<lambda>n. - total_key (finite_get (score_inner (nm_progress_score n)))) (sort_key nm_created_at (sort_key nm_node_id nodes))
     | NoveltyDesc \<Rightarrow>
         sort_key (\<lambda>n. - total_key (finite_get (novelty_inner (nm_novelty_score n)))) (sort_key nm_created_at (sort_key nm_node_id nodes)))"

definition query_nodes :: "store_env \<Rightarrow> query_nodes_request \<Rightarrow> (snapshot_store, node_meta list) rpc" where
  "query_nodes E q s =
     bind_st (find_experiment s (qn_experiment_id q), s) (\<lambda>x s.
       let nodes = filter (\<lambda>m. query_matches m q) (map (\<lambda>(_, n). sn_meta n) (hm_sorted (xs_nodes x)));
           nodes = sort_query_nodes (qn_order_by q) nodes;
           nodes = (case qn_limit q of None \<Rightarrow> nodes | Some limit \<Rightarrow> take (unat limit) nodes)
       in bind_st (decide_fault E s ''query_nodes'' (RqQueryNodes q) (word_of_nat (length nodes))) (\<lambda>decision s.
            (Ok (take (decision_truncate_len decision (length nodes)) nodes), s)))"

section \<open>Metadata\<close>

definition metadata_generation_conflict :: client_error where
  "metadata_generation_conflict = ClientError FailedPrecondition ''metadata generation conflict''"

definition check_metadata_expectation ::
  "metadata_generation option \<Rightarrow> metadata_expectation \<Rightarrow> bool \<Rightarrow> (client_error, unit) res" where
  "check_metadata_expectation current expected allow_create_only =
     (case expected of
        Unconditional \<Rightarrow> Ok ()
      | CreateOnly \<Rightarrow>
          if allow_create_only \<and> current = None then Ok ()
          else if allow_create_only then Err metadata_generation_conflict
          else Err (ClientError FailedPrecondition ''create-only expectation is invalid for delete'')
      | Generation g \<Rightarrow> if current = Some g then Ok () else Err metadata_generation_conflict)"

definition put_metadata :: "store_env \<Rightarrow> put_metadata_request \<Rightarrow> (snapshot_store, metadata_generation) rpc" where
  "put_metadata E r s =
     bind_st (decide_fault E s ''put_metadata'' (RqPutMetadata r) 0) (\<lambda>_ s.
       let current = map_option me_generation (hm_get (ss_metadata s) (pm_key r)) in
       bind_st (check_metadata_expectation current (pm_expected_generation r) True, s) (\<lambda>_ s.
       bind_st (ok_or (case current of None \<Rightarrow> Some 1 | Some g \<Rightarrow> checked_add (generation_get g) 1)
                  (ClientError Internal ''metadata generation overflow''), s) (\<lambda>g s.
         let generation = MetadataGeneration g
         in (Ok generation, s\<lparr>ss_metadata := hm_insert (ss_metadata s) (pm_key r)
               \<lparr>me_value = pm_value r, me_generation = generation\<rparr>\<rparr>))))"

definition get_metadata :: "store_env \<Rightarrow> metadata_key \<Rightarrow> (snapshot_store, get_metadata_response) rpc" where
  "get_metadata E k s =
     bind_st (decide_fault E s ''get_metadata'' (RqGetMetadata k) 0) (\<lambda>_ s.
     bind_st (ok_or (hm_get (ss_metadata s) k) (ClientError NotFound ''metadata not found''), s) (\<lambda>entry s.
       (Ok \<lparr>gm_value = me_value entry, gm_generation = me_generation entry\<rparr>, s)))"

definition delete_metadata :: "store_env \<Rightarrow> delete_metadata_request \<Rightarrow> (snapshot_store, unit) rpc" where
  "delete_metadata E r s =
     bind_st (decide_fault E s ''delete_metadata'' (RqDeleteMetadata r) 0) (\<lambda>_ s.
       let current = map_option me_generation (hm_get (ss_metadata s) (dm_key r)) in
       bind_st (check_metadata_expectation current (dm_expected_generation r) False, s) (\<lambda>_ s.
         let removed = hm_get (ss_metadata s) (dm_key r);
             s = s\<lparr>ss_metadata := hm_remove (ss_metadata s) (dm_key r)\<rparr>
         in bind_st (ok_or removed (ClientError NotFound ''metadata not found''), s) (\<lambda>_ s. (Ok (), s))))"

section \<open>Pruning\<close>

partial_function (option) subtree_loop ::
  "(node_id, node_id list) hash_map \<Rightarrow> node_id list \<Rightarrow> node_id list \<Rightarrow> node_id list option" where
  "subtree_loop children stack out =
     (case stack of
        [] \<Rightarrow> Some out
      | i # rest \<Rightarrow>
          subtree_loop children ((case hm_get children i of Some cs \<Rightarrow> cs | None \<Rightarrow> []) @ rest) (out @ [i]))"

text \<open>
  The stack is the list with its top first: pushing the children in reverse order puts the
  first child on top.
\<close>

definition subtree_ids :: "experiment_store \<Rightarrow> node_id \<Rightarrow> node_id list option" where
  "subtree_ids x i = subtree_loop (xs_children x) [i] []"

fun mark_subtree ::
  "u64 \<Rightarrow> (node_id, stored_node) hash_map \<Rightarrow> node_id list \<Rightarrow> (client_error, (node_id, stored_node) hash_map) res" where
  "mark_subtree updated_at nodes [] = Ok nodes"
| "mark_subtree updated_at nodes (i # ids) =
     bind_res (expect (hm_get nodes i) ''subtree id exists'') (\<lambda>n.
       mark_subtree updated_at
         (hm_insert nodes i (n\<lparr>sn_meta := (sn_meta n)\<lparr>nm_status := Pruned, nm_updated_at := updated_at\<rparr>\<rparr>)) ids)"

definition prune_subtree ::
  "store_env \<Rightarrow> string \<Rightarrow> node_id \<Rightarrow> bool \<Rightarrow> snapshot_store \<Rightarrow> ((client_error, u64) res \<times> snapshot_store) option" where
  "prune_subtree E e i allow_root s =
     (case bind_st (decide_fault E s ''prune_subtree'' (RqPruneSubtree e i allow_root) 0) (\<lambda>_ s.
             if node_id_is_root i \<and> \<not> allow_root
             then (Err (ClientError FailedPrecondition ''root prune requires allow_root''), s)
             else bind_st (find_experiment s e, s) (\<lambda>x s.
               if \<not> hm_contains (xs_nodes x) i then (Err (ClientError NotFound ''node not found''), s) else (Ok x, s))) of
        (Ok x, s) \<Rightarrow>
          map_option (\<lambda>subtree.
            bind_st (store_tick s) (\<lambda>updated_at s.
            bind_st (mark_subtree updated_at (xs_nodes x) subtree, s) (\<lambda>nodes s.
              (Ok (word_of_nat (length subtree)),
               s\<lparr>ss_experiments := hm_insert (ss_experiments s) e (x\<lparr>xs_nodes := nodes\<rparr>)\<rparr>))))
            (subtree_ids x i)
      | (Err err, s) \<Rightarrow> Some (Err err, s)
      | (Panic m, s) \<Rightarrow> Some (Panic m, s))"

end
