(* ===== verification/Store_Facts.thy ===== *)
theory Store_Facts
  imports Snapshot_Store "HOL-Library.Multiset"
begin

text \<open>
  What the in-memory snapshot store guarantees: conditional puts have a single winner, creating a node
  again changes nothing, the node graph stays a forest, and the walks over it end. The locale
  \<open>metadata_service\<close> is the contract the experiment runner relies on for its checkpoint and its
  write-ahead log; the fault-free store provides it.
\<close>

section \<open>Faults leave the data alone\<close>

definition same_data :: "snapshot_store \<Rightarrow> snapshot_store \<Rightarrow> bool" where
  "same_data s s' \<longleftrightarrow> ss_experiments s' = ss_experiments s \<and> ss_metadata s' = ss_metadata s
     \<and> ss_logical_clock s' = ss_logical_clock s"

lemma same_data_refl [simp]: "same_data s s"
  by (simp add: same_data_def)

lemma decide_fault_data: "decide_fault E s op r n = (res, s') \<Longrightarrow> same_data s s'"
  by (auto simp: decide_fault_def same_data_def Let_def split: res.splits prod.splits option.splits)

lemma decide_fault_not_panic_data: "same_data s (snd (decide_fault E s op r n))"
  using decide_fault_data[of E s op r n "fst (decide_fault E s op r n)" "snd (decide_fault E s op r n)"] by simp

text \<open>A store whose plan injects nothing and that can count \<open>k\<close> more requests.\<close>

definition quiet :: "nat \<Rightarrow> snapshot_store \<Rightarrow> bool" where
  "quiet k s \<longleftrightarrow> (\<exists>sd. inj_plan (ss_fault_injector s) = plan_disabled sd)
     \<and> k < 2 ^ 64 \<and> (\<forall>key a. hm_get (inj_attempts (ss_fault_injector s)) key = Some a \<longrightarrow> unat a + k < 2 ^ 64)"

lemma quiet_new: "k < 2 ^ 64 \<Longrightarrow> quiet k store_new"
  by (auto simp: quiet_def store_new_def store_with_fault_plan_def injector_new_def)

lemma quiet_mono: "quiet k s \<Longrightarrow> j \<le> k \<Longrightarrow> quiet j s"
  unfolding quiet_def by (meson add_left_mono order_le_less_trans)

lemma quiet_metadata [simp]: "quiet k (s\<lparr>ss_metadata := m\<rparr>) \<longleftrightarrow> quiet k s"
  by (simp add: quiet_def)

lemma quiet_decide:
  assumes "quiet (Suc k) s"
  obtains s' where "decide_fault E s op r n = (Ok no_fault, s')" "same_data s s'" "quiet k s'"
proof -
  let ?q = "\<lparr>fq_target = TgtSnapshotStore, fq_operation = op, fq_request_identity = se_request_identity E r\<rparr>"
  let ?fi = "ss_fault_injector s"
  obtain sd where p: "inj_plan ?fi = plan_disabled sd" using assms by (auto simp: quiet_def)
  have a: "unat (attempt_of ?fi ?q) + Suc k < 2 ^ 64"
    using assms by (auto simp: quiet_def attempt_of_def split: option.splits)
  then have u: "unat (attempt_of ?fi ?q + 1) = Suc (unat (attempt_of ?fi ?q))"
    using unat_add_no_overflow[of "attempt_of ?fi ?q" 1] by simp
  obtain fi' where d: "injector_decide (se_blake3 E) ?fi ?q n = Ok (no_fault, fi')" "inj_plan fi' = plan_disabled sd"
    "inj_attempts fi' = hm_insert (inj_attempts ?fi) (TgtSnapshotStore, op) (attempt_of ?fi ?q + 1)"
    using a by (simp add: injector_decide_Ok injector_peek_def p decide_disabled)
  define s' where "s' = s\<lparr>ss_fault_injector := fi', ss_last_fault := Some no_fault\<rparr>"
  have "decide_fault E s op r n = (Ok no_fault, s')"
    by (simp add: decide_fault_def d(1) s'_def decision_client_error_def no_fault_def Let_def)
  moreover have "unat x + k < 2 ^ 64" if "hm_get (inj_attempts fi') key = Some x" for key x
  proof (cases "key = (TgtSnapshotStore, op)")
    case True
    then show ?thesis using that a u d(3) by simp
  next
    case False
    then have "hm_get (inj_attempts ?fi) key = Some x" using that d(3) by simp
    then have "unat x + Suc k < 2 ^ 64" using assms unfolding quiet_def by blast
    then show ?thesis by simp
  qed
  then have "quiet k s'" using assms d(2) unfolding quiet_def s'_def by auto
  moreover have "same_data s s'" by (simp add: s'_def same_data_def)
  ultimately show ?thesis using that by blast
qed

section \<open>Metadata\<close>

text \<open>What a put does, on every branch.\<close>

lemma put_metadata_effect:
  assumes "put_metadata E r s = (res, s')"
  shows "(\<exists>g. res = Ok g \<and> ss_metadata s' = hm_insert (ss_metadata s) (pm_key r) \<lparr>me_value = pm_value r, me_generation = g\<rparr>
      \<and> (case hm_get (ss_metadata s) (pm_key r) of
           None \<Rightarrow> g = MetadataGeneration 1
             \<and> (pm_expected_generation r = Unconditional \<or> pm_expected_generation r = CreateOnly)
         | Some old \<Rightarrow> unat (generation_get (me_generation old)) < 2 ^ 64 - 1 \<and> g = MetadataGeneration (generation_get (me_generation old) + 1)
             \<and> (pm_expected_generation r = Unconditional \<or> pm_expected_generation r = Generation (me_generation old))))
    \<or> (\<forall>g. res \<noteq> Ok g) \<and> ss_metadata s' = ss_metadata s"
proof -
  obtain d s1 where d: "decide_fault E s ''put_metadata'' (RqPutMetadata r) 0 = (d, s1)" by fastforce
  have m: "ss_metadata s1 = ss_metadata s" using decide_fault_data[OF d] by (simp add: same_data_def)
  show ?thesis
    using assms m unfolding put_metadata_def d
    by (cases d; cases "hm_get (ss_metadata s) (pm_key r)"; cases "pm_expected_generation r")
      (auto simp: check_metadata_expectation_def Let_def checked_add_def split: if_splits)
qed

definition example_env :: store_env where
  "example_env = \<lparr>se_blake3 = (\<lambda>_. []), se_request_identity = (\<lambda>_. [])\<rparr>"

definition example_put :: put_metadata_request where
  "example_put = \<lparr>pm_key = key_checkpoint ''e'', pm_value = [1], pm_expected_generation = CreateOnly\<rparr>"

text \<open>The metadata a client sees: the value and the generation of a key.\<close>

definition meta_view :: "snapshot_store \<Rightarrow> metadata_key \<rightharpoonup> u8 list \<times> u64" where
  "meta_view s k = map_option (\<lambda>e. (me_value e, generation_get (me_generation e))) (hm_get (ss_metadata s) k)"

lemma same_data_view: "same_data s s' \<Longrightarrow> meta_view s' = meta_view s"
  by (simp add: same_data_def meta_view_def fun_eq_iff)

text \<open>
  The contract of a metadata service that is ready for a number of requests: reading returns the current
  entry, an unconditional put stores the value under the next generation, an unconditional delete removes the
  key, and a missing key is reported as such.
\<close>

locale metadata_service =
  fixes get :: "metadata_key \<Rightarrow> ('w, get_metadata_response) rpc"
    and put :: "put_metadata_request \<Rightarrow> ('w, metadata_generation) rpc"
    and del :: "delete_metadata_request \<Rightarrow> ('w, unit) rpc"
    and view :: "'w \<Rightarrow> metadata_key \<rightharpoonup> u8 list \<times> u64"
    and ready :: "nat \<Rightarrow> 'w \<Rightarrow> bool"
  assumes ready_mono: "ready i w \<Longrightarrow> j \<le> i \<Longrightarrow> ready j w"
    and get_present: "ready (Suc n) w \<Longrightarrow> view w k = Some (v, g) \<Longrightarrow>
      \<exists>w'. get k w = (Ok \<lparr>gm_value = v, gm_generation = MetadataGeneration g\<rparr>, w') \<and> view w' = view w \<and> ready n w'"
    and get_absent: "ready (Suc n) w \<Longrightarrow> view w k = None \<Longrightarrow>
      \<exists>w' m. get k w = (Err (ClientError NotFound m), w') \<and> view w' = view w \<and> ready n w'"
    and put_any: "ready (Suc n) w \<Longrightarrow> pm_expected_generation r = Unconditional \<Longrightarrow>
      (case view w (pm_key r) of None \<Rightarrow> True | Some (_, g) \<Rightarrow> unat g < 2 ^ 64 - 1) \<Longrightarrow>
      \<exists>w' g. put r w = (Ok g, w') \<and> view w' = (view w)(pm_key r \<mapsto> (pm_value r, generation_get g)) \<and> ready n w'"
    and del_present: "ready (Suc n) w \<Longrightarrow> dm_expected_generation d = Unconditional \<Longrightarrow> view w (dm_key d) \<noteq> None \<Longrightarrow>
      \<exists>w'. del d w = (Ok (), w') \<and> view w' = (view w)(dm_key d := None) \<and> ready n w'"
    and del_absent: "ready (Suc n) w \<Longrightarrow> dm_expected_generation d = Unconditional \<Longrightarrow> view w (dm_key d) = None \<Longrightarrow>
      \<exists>w' m. del d w = (Err (ClientError NotFound m), w') \<and> view w' = view w \<and> ready n w'"
begin

text \<open>Deleting leaves the key absent, whether or not it was there.\<close>

lemma del_removes:
  assumes "ready (Suc n) w" "dm_expected_generation d = Unconditional"
  obtains res w' where "del d w = (res, w')" "res = Ok () \<or> (\<exists>m. res = Err (ClientError NotFound m))"
    "view w' = (view w)(dm_key d := None)" "ready n w'"
proof (cases "view w (dm_key d)")
  case None
  then have "(view w)(dm_key d := None) = view w" by (auto simp: fun_eq_iff)
  with del_absent[OF assms None] that show ?thesis by metis
next
  case Some
  with del_present[OF assms] that show ?thesis by blast
qed

end

interpretation fake_meta: metadata_service "get_metadata E" "put_metadata E" "delete_metadata E" meta_view quiet
  for E :: store_env
proof (unfold_locales, goal_cases)
  case (1 k w j) then show ?case by (rule quiet_mono)
next
  case (2 n w k v g)
  from quiet_decide[OF 2(1), of E "''get_metadata''" "RqGetMetadata k" 0] obtain s' where
    d: "decide_fault E w ''get_metadata'' (RqGetMetadata k) 0 = (Ok no_fault, s')" "same_data w s'" "quiet n s'" by blast
  then show ?case using 2(2) same_data_view[OF d(2)]
    by (auto simp: get_metadata_def d(1) meta_view_def same_data_def)
next
  case (3 n w k)
  from quiet_decide[OF 3(1), of E "''get_metadata''" "RqGetMetadata k" 0] obtain s' where
    d: "decide_fault E w ''get_metadata'' (RqGetMetadata k) 0 = (Ok no_fault, s')" "same_data w s'" "quiet n s'" by blast
  then show ?case using 3(2) same_data_view[OF d(2)]
    by (auto simp: get_metadata_def d(1) meta_view_def same_data_def)
next
  case (4 n w r)
  from quiet_decide[OF 4(1), of E "''put_metadata''" "RqPutMetadata r" 0] obtain s' where
    d: "decide_fault E w ''put_metadata'' (RqPutMetadata r) 0 = (Ok no_fault, s')" "same_data w s'" "quiet n s'" by blast
  then show ?case using 4(2,3)
    by (cases "hm_get (ss_metadata w) (pm_key r)")
      (auto simp: put_metadata_def d(1) meta_view_def same_data_def check_metadata_expectation_def checked_add_def Let_def fun_eq_iff)
next
  case (5 n w r)
  from quiet_decide[OF 5(1), of E "''delete_metadata''" "RqDeleteMetadata r" 0] obtain s' where
    d: "decide_fault E w ''delete_metadata'' (RqDeleteMetadata r) 0 = (Ok no_fault, s')" "same_data w s'" "quiet n s'" by blast
  then show ?case using 5(2,3)
    by (auto simp: delete_metadata_def d(1) meta_view_def same_data_def check_metadata_expectation_def Let_def fun_eq_iff)
next
  case (6 n w r)
  from quiet_decide[OF 6(1), of E "''delete_metadata''" "RqDeleteMetadata r" 0] obtain s' where
    d: "decide_fault E w ''delete_metadata'' (RqDeleteMetadata r) 0 = (Ok no_fault, s')" "same_data w s'" "quiet n s'" by blast
  then show ?case using 6(2,3)
    by (auto simp: delete_metadata_def d(1) meta_view_def same_data_def check_metadata_expectation_def Let_def fun_eq_iff)
qed

section \<open>The node graph\<close>

text \<open>
  An experiment is a forest: a node is filed under its id, a node other than the root has a parent that was
  created before it and lies one level above it, and the child lists hold exactly the children, in order.
\<close>

definition node_ok :: "u64 \<Rightarrow> (node_id, stored_node) hash_map \<Rightarrow> node_id \<Rightarrow> stored_node \<Rightarrow> bool" where
  "node_ok clock nodes i n \<longleftrightarrow> nm_node_id (sn_meta n) = i \<and> nm_created_at (sn_meta n) \<le> clock
     \<and> (case nm_parent_node_id (sn_meta n) of
          None \<Rightarrow> i = ROOT \<and> nm_depth (sn_meta n) = 0
        | Some p \<Rightarrow> i \<noteq> ROOT \<and> (\<exists>pn. hm_get nodes p = Some pn \<and> nm_created_at (sn_meta pn) < nm_created_at (sn_meta n)
             \<and> unat (nm_depth (sn_meta n)) = Suc (unat (nm_depth (sn_meta pn)))))"

definition kids :: "(node_id, stored_node) hash_map \<Rightarrow> node_id \<Rightarrow> node_id set" where
  "kids nodes i = {j. \<exists>n. hm_get nodes j = Some n \<and> nm_parent_node_id (sn_meta n) = Some i}"

definition exp_inv :: "u64 \<Rightarrow> experiment_store \<Rightarrow> bool" where
  "exp_inv clock x \<longleftrightarrow>
     (\<forall>i n. hm_get (xs_nodes x) i = Some n \<longrightarrow> node_ok clock (xs_nodes x) i n)
     \<and> (\<forall>i. hm_get (xs_children x) i =
          (if hm_get (xs_nodes x) i = None then None else Some (sorted_list_of_set (kids (xs_nodes x) i))))"

lemma exp_invD:
  assumes "exp_inv c x"
  shows "hm_get (xs_nodes x) i = Some n \<Longrightarrow> node_ok c (xs_nodes x) i n"
    "hm_get (xs_children x) i =
       (if hm_get (xs_nodes x) i = None then None else Some (sorted_list_of_set (kids (xs_nodes x) i)))"
  using assms by (auto simp: exp_inv_def)

definition store_inv :: "snapshot_store \<Rightarrow> bool" where
  "store_inv s \<longleftrightarrow> (\<forall>e x. hm_get (ss_experiments s) e = Some x \<longrightarrow> exp_inv (ss_logical_clock s) x)"

lemma store_inv_data: "same_data s s' \<Longrightarrow> store_inv s' \<longleftrightarrow> store_inv s"
  by (simp add: same_data_def store_inv_def)

lemma store_inv_new: "store_inv (store_with_fault_plan plan)"
  by (simp add: store_inv_def store_with_fault_plan_def)

lemma exp_inv_mono: "exp_inv c x \<Longrightarrow> c \<le> c' \<Longrightarrow> exp_inv c' x"
  by (fastforce simp: exp_inv_def node_ok_def)

lemma is_root_iff: "node_id_is_root i \<longleftrightarrow> i = ROOT"
  by (cases i) (auto simp: node_id_is_root_def ROOT_def)

lemma finite_kids [simp]: "finite (kids m i)"
  by (rule finite_subset[OF _ finite_dom_map_of[of m]]) (auto simp: kids_def)

text \<open>Updates that keep the identity, the parent, the depth and the creation time of every node.\<close>

definition same_shape :: "stored_node \<Rightarrow> stored_node \<Rightarrow> bool" where
  "same_shape n n' \<longleftrightarrow> nm_node_id (sn_meta n') = nm_node_id (sn_meta n)
     \<and> nm_parent_node_id (sn_meta n') = nm_parent_node_id (sn_meta n)
     \<and> nm_created_at (sn_meta n') = nm_created_at (sn_meta n) \<and> nm_depth (sn_meta n') = nm_depth (sn_meta n)"

definition reshaped :: "(node_id, stored_node) hash_map \<Rightarrow> (node_id, stored_node) hash_map \<Rightarrow> bool" where
  "reshaped m m' \<longleftrightarrow> (\<forall>i. rel_option same_shape (hm_get m i) (hm_get m' i))"

lemma same_shape_refl [simp]: "same_shape n n"
  by (simp add: same_shape_def)

lemma reshaped_refl [simp]: "reshaped m m"
  by (simp add: reshaped_def option.rel_refl)

lemma reshaped_insert:
  "reshaped m m' \<Longrightarrow> hm_get m i = Some n \<Longrightarrow> same_shape n n' \<Longrightarrow> reshaped m (hm_insert m' i n')"
  by (auto simp: reshaped_def)

lemma reshapedD:
  assumes "reshaped m m'"
  shows "hm_get m' i = None \<longleftrightarrow> hm_get m i = None"
    "hm_get m' i = Some n' \<Longrightarrow> \<exists>n. hm_get m i = Some n \<and> same_shape n n'"
    "hm_get m i = Some n \<Longrightarrow> \<exists>n'. hm_get m' i = Some n' \<and> same_shape n n'"
proof -
  have "rel_option same_shape (hm_get m i) (hm_get m' i)" using assms by (simp add: reshaped_def)
  then show "hm_get m' i = None \<longleftrightarrow> hm_get m i = None"
    "hm_get m' i = Some n' \<Longrightarrow> \<exists>n. hm_get m i = Some n \<and> same_shape n n'"
    "hm_get m i = Some n \<Longrightarrow> \<exists>n'. hm_get m' i = Some n' \<and> same_shape n n'"
    by (auto elim: option.rel_cases)
qed

lemma kids_reshaped: "reshaped m m' \<Longrightarrow> kids m' i = kids m i"
  using reshapedD(2,3)[of m m'] unfolding kids_def same_shape_def by (intro Collect_cong) metis

lemma node_ok_reshaped:
  assumes "reshaped m m'" "node_ok c m i n" "same_shape n n'"
  shows "node_ok c m' i n'"
proof (cases "nm_parent_node_id (sn_meta n)")
  case None
  then show ?thesis using assms(2,3) by (simp add: node_ok_def same_shape_def)
next
  case (Some p)
  then obtain pn where pn: "hm_get m p = Some pn" "nm_created_at (sn_meta pn) < nm_created_at (sn_meta n)"
    "unat (nm_depth (sn_meta n)) = Suc (unat (nm_depth (sn_meta pn)))" using assms(2) by (auto simp: node_ok_def)
  with reshapedD(3)[OF assms(1) pn(1)] Some assms(2,3) show ?thesis by (auto simp: node_ok_def same_shape_def)
qed

lemma exp_inv_reshaped:
  assumes "exp_inv c x" "reshaped (xs_nodes x) m"
  shows "exp_inv c (x\<lparr>xs_nodes := m\<rparr>)"
  unfolding exp_inv_def
proof (intro conjI allI impI, goal_cases)
  case (1 i n')
  then obtain n where "hm_get (xs_nodes x) i = Some n" "same_shape n n'" using reshapedD(2)[OF assms(2)] by auto
  then show ?case using node_ok_reshaped[OF assms(2) exp_invD(1)[OF assms(1)]] by simp
next
  case (2 i)
  then show ?case using exp_invD(2)[OF assms(1), of i] by (simp add: kids_reshaped[OF assms(2)] reshapedD(1)[OF assms(2)])
qed

subsection \<open>The operations keep the forest\<close>

lemma apply_update_shape: "apply_update n u t = Ok n' \<Longrightarrow> same_shape n n'"
  by (auto simp: apply_update_def Let_def res_simps same_shape_def)

lemma stage_updates_shape:
  assumes "exp_inv c x" "stage_updates x t stg us = Ok stg'"
    "\<And>i n'. hm_get stg i = Some n' \<Longrightarrow> \<exists>n. hm_get (xs_nodes x) i = Some n \<and> same_shape n n'"
    "hm_get stg' i = Some n'"
  shows "\<exists>n. hm_get (xs_nodes x) i = Some n \<and> same_shape n n'"
  using assms(2-)
proof (induction us arbitrary: stg)
  case Nil
  then show ?case by simp
next
  case (Cons u us)
  obtain m m' where m: "(case hm_get stg (nu_node_id u) of Some existing \<Rightarrow> Ok existing
        | None \<Rightarrow> expect (hm_get (xs_nodes x) (nu_node_id u)) ''node existence was checked'') = (Ok m :: (client_error, stored_node) res)"
    "apply_update m u t = Ok m'" "stage_updates x t (hm_insert stg (nm_node_id (sn_meta m')) m') us = Ok stg'"
    using Cons.prems(1) by (auto simp: res_simps)
  obtain n0 where n0: "hm_get (xs_nodes x) (nu_node_id u) = Some n0" "same_shape n0 m"
    using m(1) Cons.prems(2) by (auto simp: res_simps split: option.splits)
  then have "same_shape n0 m'" using apply_update_shape[OF m(2)] by (simp add: same_shape_def)
  moreover have "nm_node_id (sn_meta m') = nu_node_id u"
    using exp_invD(1)[OF assms(1) n0(1)] calculation by (simp add: node_ok_def same_shape_def)
  ultimately show ?case
    using n0(1) by (intro Cons.IH[OF m(3) _ Cons.prems(3)]) (auto split: if_splits dest: Cons.prems(2))
qed

lemma stage_updates_ok: "stage_updates x t stg us = Ok stg' \<Longrightarrow> hm_ok stg \<Longrightarrow> hm_ok stg'"
  by (induction us arbitrary: stg) (auto simp: res_simps simp del: hm_ok_insert intro: hm_ok_insert)

lemma reshaped_fold:
  assumes "reshaped m m'" "\<And>i n'. (i, n') \<in> set l \<Longrightarrow> \<exists>n. hm_get m i = Some n \<and> same_shape n n'"
  shows "reshaped m (fold (\<lambda>(k, n) m. hm_insert m k n) l m')"
  using assms
proof (induction l arbitrary: m')
  case (Cons a l)
  obtain i n' where a: "a = (i, n')" by fastforce
  then obtain n where "hm_get m i = Some n" "same_shape n n'" using Cons.prems(2)[of i n'] by auto
  then have "reshaped m (hm_insert m' i n')" using Cons.prems(1) by (intro reshaped_insert)
  then show ?case using Cons.IH Cons.prems(2) by (simp add: a)
qed simp

lemma mark_subtree_shape: "mark_subtree t m ids = Ok m' \<Longrightarrow> reshaped m0 m \<Longrightarrow> reshaped m0 m'"
proof (induction ids arbitrary: m)
  case (Cons i ids)
  then obtain n where n: "hm_get m i = Some n" "mark_subtree t
      (hm_insert m i (n\<lparr>sn_meta := (sn_meta n)\<lparr>nm_status := Pruned, nm_updated_at := t\<rparr>\<rparr>)) ids = Ok m'"
    by (auto simp: res_simps)
  obtain n0 where "hm_get m0 i = Some n0" "same_shape n0 n" using reshapedD(2)[OF Cons.prems(2) n(1)] by blast
  then show ?case
    using Cons.prems(2) by (intro Cons.IH[OF n(2)] reshaped_insert) (auto simp: same_shape_def)
qed simp

lemma sort_snoc_sorted_list_of_set:
  "finite K \<Longrightarrow> i \<notin> K \<Longrightarrow> sort (sorted_list_of_set K @ [i]) = sorted_list_of_set (insert i K)"
  for i :: "'a::linorder"
  by (intro sorted_distinct_set_unique) (auto simp: sorted_insort distinct_insort set_insort_key)

lemma insert_node_inv:
  assumes inv: "exp_inv c x" and le: "c \<le> c'" and fresh: "hm_get (xs_nodes x) i = None"
    and i: "nm_node_id (sn_meta n) = i" "nm_created_at (sn_meta n) \<le> c'"
    and par: "case nm_parent_node_id (sn_meta n) of None \<Rightarrow> i = ROOT \<and> nm_depth (sn_meta n) = 0
      | Some p \<Rightarrow> i \<noteq> ROOT \<and> (\<exists>pn. hm_get (xs_nodes x) p = Some pn \<and> nm_created_at (sn_meta pn) < nm_created_at (sn_meta n)
             \<and> unat (nm_depth (sn_meta n)) = Suc (unat (nm_depth (sn_meta pn))))"
  shows "exp_inv c' (insert_node x n)"
proof -
  let ?x = "insert_node x n"
  have nodes: "hm_get (xs_nodes ?x) = (hm_get (xs_nodes x))(i \<mapsto> n)"
    using i(1) by (simp add: insert_node_def Let_def)
  have no_kids: "kids (xs_nodes x) i = {}"
    using exp_invD(1)[OF inv] fresh by (fastforce simp: kids_def node_ok_def)
  have kids': "kids (xs_nodes ?x) j = kids (xs_nodes x) j \<union> (if nm_parent_node_id (sn_meta n) = Some j then {i} else {})" for j
    using nodes fresh by (auto simp: kids_def)
  have notin: "i \<notin> kids (xs_nodes x) j" for j using fresh by (simp add: kids_def)
  have ok: "node_ok c' (xs_nodes ?x) j m" if "hm_get (xs_nodes ?x) j = Some m" for j m
  proof (cases "j = i")
    case True
    then show ?thesis using that nodes i par fresh by (auto simp: node_ok_def split: option.splits)
  next
    case False
    then have "node_ok c (xs_nodes x) j m" using that nodes exp_invD(1)[OF inv] by simp
    then show ?thesis using le fresh nodes by (fastforce simp: node_ok_def split: option.splits)
  qed
  have children: "hm_get (xs_children ?x) j =
      (if hm_get (xs_nodes ?x) j = None then None else Some (sorted_list_of_set (kids (xs_nodes ?x) j)))" for j
  proof (cases "nm_parent_node_id (sn_meta n)")
    case None
    then show ?thesis
      using exp_invD(2)[OF inv, of j] exp_invD(2)[OF inv, of i] i(1) fresh no_kids kids'[of j] nodes
      by (auto simp: insert_node_def Let_def or_default_children_def hm_contains_def)
  next
    case (Some p)
    then have "p \<noteq> i" "hm_get (xs_nodes x) p \<noteq> None" using par fresh by auto
    then show ?thesis
      using Some exp_invD(2)[OF inv, of j] exp_invD(2)[OF inv, of i] exp_invD(2)[OF inv, of p] i(1) fresh no_kids
        kids'[of j] nodes notin[of p]
      by (auto simp: insert_node_def Let_def or_default_children_def hm_contains_def sort_snoc_sorted_list_of_set)
  qed
  show ?thesis unfolding exp_inv_def using ok children by blast
qed

lemma store_inv_put:
  "store_inv s \<Longrightarrow> ss_logical_clock s \<le> c \<Longrightarrow> exp_inv c x \<Longrightarrow>
     store_inv (s\<lparr>ss_logical_clock := c, ss_experiments := hm_insert (ss_experiments s) e x\<rparr>)"
  by (auto simp: store_inv_def intro: exp_inv_mono)

lemma store_tick_inv:
  assumes "store_inv s" "store_tick s = (res, s')"
  shows "store_inv s'" "ss_experiments s' = ss_experiments s" "ss_logical_clock s \<le> ss_logical_clock s'"
    "res = Ok t \<Longrightarrow> t = ss_logical_clock s' \<and> ss_logical_clock s < t"
proof -
  have le: "x < x + 1 \<and> x \<le> x + 1" if "unat x + unat (1 :: u64) < 2 ^ LENGTH(64)" for x :: u64
    using unat_add_no_overflow[OF that] by (simp add: word_less_nat_alt word_le_nat_alt)
  show "store_inv s'" "ss_experiments s' = ss_experiments s" "ss_logical_clock s \<le> ss_logical_clock s'"
    "res = Ok t \<Longrightarrow> t = ss_logical_clock s' \<and> ss_logical_clock s < t"
    using assms le exp_inv_mono[of "ss_logical_clock s" _ "ss_logical_clock s + 1"]
    by (auto simp: store_tick_def store_inv_def checked_add_def split: if_splits)
qed

lemma create_fresh_inv:
  assumes inv: "store_inv s" and new: "Option.bind (hm_get (ss_experiments s) (cn_experiment_id r)) (\<lambda>x. hm_get (xs_nodes x) (cn_node_id r)) = None"
    and val: "create_node_validate r = Ok ()" and create: "create_fresh s r log_id = (res, s')"
  shows "store_inv s'"
proof -
  consider (fail) "s' = s" | (tick) t where "store_tick s = (t, s')"
    | (ok) t s1 depth where "check_parent s r = Ok ()" "store_tick s = (Ok t, s1)" "new_depth s1 r = Ok depth"
        "s' = s1\<lparr>ss_experiments := hm_insert (ss_experiments s1) (cn_experiment_id r)
           (insert_node (experiment_or_default s1 (cn_experiment_id r))
             \<lparr>sn_meta = node_of_request r log_id depth t, sn_input_log_container = cn_input_log_container r\<rparr>)\<rparr>"
    using create by (auto simp: create_fresh_def bind_st_eq Let_def)
  then show ?thesis
  proof cases
    case fail then show ?thesis using inv by simp
  next
    case tick then show ?thesis by (rule store_tick_inv(1)[OF inv])
  next
    case ok
    note t = store_tick_inv[OF inv ok(2)]
    let ?x = "experiment_or_default s (cn_experiment_id r)"
    have x: "exp_inv (ss_logical_clock s) ?x" "hm_get (xs_nodes ?x) (cn_node_id r) = None"
      using inv new by (auto simp: experiment_or_default_def store_inv_def exp_inv_def split: option.splits)
    have par: "case cn_parent_node_id r of None \<Rightarrow> cn_node_id r = ROOT \<and> depth = 0
      | Some p \<Rightarrow> cn_node_id r \<noteq> ROOT \<and> (\<exists>pn. hm_get (xs_nodes ?x) p = Some pn \<and> nm_created_at (sn_meta pn) < t
             \<and> unat depth = Suc (unat (nm_depth (sn_meta pn))))"
    proof (cases "cn_node_id r = ROOT")
      case True
      then show ?thesis using val ok(3) by (auto simp: create_node_validate_def new_depth_def is_root_iff res_simps split: if_splits option.splits)
    next
      case False
      then obtain p x pn where p: "cn_parent_node_id r = Some p" "hm_get (ss_experiments s) (cn_experiment_id r) = Some x"
        "hm_get (xs_nodes x) p = Some pn"
        using ok(1) by (auto simp: check_parent_def is_root_iff res_simps split: option.splits if_splits)
      moreover have "nm_created_at (sn_meta pn) < t"
      proof -
        have "node_ok (ss_logical_clock s) (xs_nodes x) p pn"
          using p inv by (intro exp_invD(1)) (auto simp: store_inv_def)
        then show ?thesis using t(4)[OF refl] by (auto simp: node_ok_def)
      qed
      moreover have "unat depth = Suc (unat (nm_depth (sn_meta pn)))"
        using ok(3) p t(2) False by (auto simp: new_depth_def is_root_iff res_simps checked_simps unat_add_no_overflow)
      ultimately show ?thesis using False by (simp add: experiment_or_default_def)
    qed
    have "exp_inv (ss_logical_clock s1) (insert_node ?x \<lparr>sn_meta = node_of_request r log_id depth t, sn_input_log_container = cn_input_log_container r\<rparr>)"
      using par t(3,4) x by (intro insert_node_inv[OF x(1) t(3) x(2)]) (auto simp: node_of_request_def split: option.splits)
    then show ?thesis
      using t(1,2) ok(4) by (auto simp: store_inv_def experiment_or_default_def)
  qed
qed

text \<open>One request, with whatever outcome; the partial operations contribute the requests that return.\<close>

inductive store_step :: "store_env \<Rightarrow> snapshot_store \<Rightarrow> snapshot_store \<Rightarrow> bool" for E where
  step_create: "create_node E r s = (res, s') \<Longrightarrow> store_step E s s'"
| step_update: "update_nodes E u s = (res, s') \<Longrightarrow> store_step E s s'"
| step_get_node: "get_node E e i s = (res, s') \<Longrightarrow> store_step E s s'"
| step_get_children: "get_children E e i s = (res, s') \<Longrightarrow> store_step E s s'"
| step_get_path: "get_path E e i b s = Some (res, s') \<Longrightarrow> store_step E s s'"
| step_query: "query_nodes E q s = (res, s') \<Longrightarrow> store_step E s s'"
| step_put: "put_metadata E p s = (res, s') \<Longrightarrow> store_step E s s'"
| step_get: "get_metadata E k s = (res, s') \<Longrightarrow> store_step E s s'"
| step_delete: "delete_metadata E d s = (res, s') \<Longrightarrow> store_step E s s'"
| step_prune: "prune_subtree E e i b s = Some (res, s') \<Longrightarrow> store_step E s s'"

inductive store_reachable :: "store_env \<Rightarrow> snapshot_store \<Rightarrow> bool" for E where
  reach_new: "store_reachable E (store_with_fault_plan plan)"
| reach_step: "store_reachable E s \<Longrightarrow> store_step E s s' \<Longrightarrow> store_reachable E s'"

lemma create_node_inv:
  assumes "store_inv s" "create_node E r s = (res, s')"
  shows "store_inv s'"
proof -
  obtain d s1 where d: "decide_fault E s ''create_node'' (RqCreateNode r) 0 = (d, s1)" by fastforce
  have inv: "store_inv s1" using assms(1) store_inv_data[OF decide_fault_data[OF d]] by simp
  from assms(2) consider "s' = s1" | log_id where "create_node_validate r = Ok ()"
    "Option.bind (hm_get (ss_experiments s1) (cn_experiment_id r)) (\<lambda>x. hm_get (xs_nodes x) (cn_node_id r)) = None"
    "create_fresh s1 r log_id = (res, s')"
    by (auto simp: create_node_def d bind_st_eq split: option.splits if_splits)
  then show ?thesis
  proof cases
    case 2 then show ?thesis by (intro create_fresh_inv[OF inv])
  qed (use inv in simp)
qed

lemma update_nodes_inv:
  assumes "store_inv s" "update_nodes E u s = (res, s')"
  shows "store_inv s'"
proof -
  obtain d s1 where d: "decide_fault E s ''update_nodes'' (RqUpdateNodes u) 0 = (d, s1)" by fastforce
  have inv: "store_inv s1" using assms(1) store_inv_data[OF decide_fault_data[OF d]] by simp
  from assms(2) consider "s' = s1" | x t stg where "hm_get (ss_experiments s1) (un_experiment_id u) = Some x"
    "checked_add (ss_logical_clock s1) 1 = Some t" "stage_updates x t [] (un_updates u) = Ok stg"
    "s' = s1\<lparr>ss_logical_clock := t, ss_experiments := hm_insert (ss_experiments s1) (un_experiment_id u)
       (x\<lparr>xs_nodes := fold (\<lambda>(k, n) m. hm_insert m k n) (hm_sorted stg) (xs_nodes x)\<rparr>)\<rparr>"
    by (auto simp: update_nodes_def d bind_st_eq Let_def res_simps split: if_splits)
  then show ?thesis
  proof cases
    case (2 x t stg)
    have x: "exp_inv (ss_logical_clock s1) x" using inv 2(1) by (simp add: store_inv_def)
    have le: "ss_logical_clock s1 \<le> t"
      using 2(2) by (auto simp: checked_simps word_le_nat_alt unat_add_no_overflow)
    have "reshaped (xs_nodes x) (fold (\<lambda>(k, n) m. hm_insert m k n) (hm_sorted stg) (xs_nodes x))"
    proof (rule reshaped_fold)
      fix i n' assume "(i, n') \<in> set (hm_sorted stg)"
      moreover have "hm_ok stg" using stage_updates_ok[OF 2(3)] by simp
      ultimately have "hm_get stg i = Some n'" by (simp add: hm_sorted_props(3) map_of_is_SomeI)
      then show "\<exists>n. hm_get (xs_nodes x) i = Some n \<and> same_shape n n'"
        by (rule stage_updates_shape[OF x 2(3), rotated]) simp
    qed simp
    then show ?thesis
      unfolding 2(4) by (intro store_inv_put[OF inv le] exp_inv_mono[OF exp_inv_reshaped[OF x] le])
  qed (use inv in simp)
qed

lemma data_ops:
  "get_node E e i s = (r1, s') \<Longrightarrow> same_data s s'"
  "get_children E e i s = (r2, s') \<Longrightarrow> same_data s s'"
  "get_path E e i b s = Some (r3, s') \<Longrightarrow> same_data s s'"
  "query_nodes E q s = (r2, s') \<Longrightarrow> same_data s s'"
  "get_metadata E k s = (r4, s') \<Longrightarrow> same_data s s'"
  by (auto simp: get_node_def get_children_def get_path_def query_nodes_def get_metadata_def bind_st_eq Let_def
      split: res.splits dest: decide_fault_data)

lemma graph_ops:
  "put_metadata E p s = (r1, s') \<Longrightarrow> ss_experiments s' = ss_experiments s \<and> ss_logical_clock s' = ss_logical_clock s"
  "delete_metadata E d s = (r2, s') \<Longrightarrow> ss_experiments s' = ss_experiments s \<and> ss_logical_clock s' = ss_logical_clock s"
  by (auto simp: put_metadata_def delete_metadata_def bind_st_eq Let_def same_data_def dest!: decide_fault_data)

lemma prune_subtree_cases:
  assumes "prune_subtree E e i b s = Some (res, s')"
  obtains (refused) "same_data s s'" "\<forall>n. res \<noteq> Ok n"
  | (ticked) s1 t where "same_data s s1" "store_tick s1 = (t, s')" "\<forall>n. res \<noteq> Ok n"
  | (pruned) s1 x ids t s2 nodes where "same_data s s1" "hm_get (ss_experiments s1) e = Some x" "hm_get (xs_nodes x) i \<noteq> None"
      "subtree_ids x i = Some ids" "store_tick s1 = (Ok t, s2)" "mark_subtree t (xs_nodes x) ids = Ok nodes"
      "res = Ok (word_of_nat (length ids))"
      "s' = s2\<lparr>ss_experiments := hm_insert (ss_experiments s2) e (x\<lparr>xs_nodes := nodes\<rparr>)\<rparr>"
proof -
  obtain d s1 where d: "decide_fault E s ''prune_subtree'' (RqPruneSubtree e i b) 0 = (d, s1)" by fastforce
  note sd = decide_fault_data[OF d]
  show ?thesis
  proof (cases "\<exists>x. d = Ok x \<and> \<not> (node_id_is_root i \<and> \<not> b)")
    case False
    then show ?thesis using assms sd refused unfolding prune_subtree_def d
      by (cases d) (auto split: if_splits)
  next
    case True
    then obtain d' where d': "d = Ok d'" "\<not> (node_id_is_root i \<and> \<not> b)" by blast
    show ?thesis
    proof (cases "\<exists>x. hm_get (ss_experiments s1) e = Some x \<and> hm_get (xs_nodes x) i \<noteq> None")
      case False
      then show ?thesis using assms sd refused d' unfolding prune_subtree_def d
        by (auto simp: find_experiment_def hm_contains_def ok_or_def split: option.splits if_splits)
    next
      case True
      then obtain x where x: "hm_get (ss_experiments s1) e = Some x" "hm_get (xs_nodes x) i \<noteq> None" by blast
      then obtain ids where ids: "subtree_ids x i = Some ids" and
        r: "bind_st (store_tick s1) (\<lambda>updated_at s.
            bind_st (mark_subtree updated_at (xs_nodes x) ids, s) (\<lambda>nodes s.
              (Ok (word_of_nat (length ids)),
               s\<lparr>ss_experiments := hm_insert (ss_experiments s) e (x\<lparr>xs_nodes := nodes\<rparr>)\<rparr>))) = (res, s')"
        using assms d' unfolding prune_subtree_def d by (auto simp: find_experiment_def hm_contains_def)
      from r show ?thesis
        unfolding bind_st_eq using ticked[OF sd] pruned[OF sd x ids] by auto
    qed
  qed
qed

lemma prune_subtree_inv:
  assumes "store_inv s" "prune_subtree E e i b s = Some (res, s')"
  shows "store_inv s'"
  using assms(2)
proof (cases rule: prune_subtree_cases)
  case refused
  then show ?thesis using assms(1) store_inv_data by blast
next
  case (ticked s1 t)
  then show ?thesis using assms(1) store_inv_data store_tick_inv(1) by blast
next
  case (pruned s1 x ids t s2 nodes)
  have inv: "store_inv s1" using assms(1) pruned(1) store_inv_data by blast
  then have x: "exp_inv (ss_logical_clock s1) x" using pruned(2) by (simp add: store_inv_def)
  note t = store_tick_inv[OF inv pruned(5)]
  have "exp_inv (ss_logical_clock s2) (x\<lparr>xs_nodes := nodes\<rparr>)"
    by (intro exp_inv_mono[OF exp_inv_reshaped[OF x mark_subtree_shape[OF pruned(6)]] t(3)]) simp
  then show ?thesis using t(1) pruned(8) by (auto simp: store_inv_def)
qed

lemma store_reachable_inv_lemma:
  assumes "store_reachable E s"
  shows "store_inv s"
  using assms
proof induction
  case (reach_step s s')
  from reach_step(2) reach_step.IH show ?case
  proof cases
    case step_put then show ?thesis using graph_ops(1) reach_step.IH by (simp add: store_inv_def)
  next
    case step_delete then show ?thesis using graph_ops(2) reach_step.IH by (simp add: store_inv_def)
  qed (auto dest: data_ops store_inv_data create_node_inv update_nodes_inv prune_subtree_inv)
qed (rule store_inv_new)

text \<open>C10: The node graph stays a forest. In every store that requests can reach, each node is filed under its id, a
  node other than the root has an earlier parent one level above it, and the child lists hold exactly the
  children in order, whatever requests failed or were hit by faults.\<close>

theorem store_reachable_inv:
  assumes "store_reachable E s"
  shows "store_inv s"
  by (rule store_reachable_inv_lemma[OF assms])

subsection \<open>Conditional puts\<close>

text \<open>A run of requests during which a metadata key is never absent.\<close>

inductive key_run :: "store_env \<Rightarrow> metadata_key \<Rightarrow> snapshot_store \<Rightarrow> snapshot_store \<Rightarrow> bool" for E k s where
  key_run_refl: "key_run E k s s"
| key_run_step: "key_run E k s s1 \<Longrightarrow> store_step E s1 s2 \<Longrightarrow> hm_get (ss_metadata s2) k \<noteq> None \<Longrightarrow> key_run E k s s2"

lemma tick_metadata: "ss_metadata (snd (store_tick s)) = ss_metadata s"
  by (simp add: store_tick_def split: option.split)

lemma create_node_metadata:
  assumes "create_node E r s = (res, s')"
  shows "ss_metadata s' = ss_metadata s"
proof -
  have t: "store_tick y = (z, s2) \<Longrightarrow> ss_metadata s2 = ss_metadata y" for y z s2 using tick_metadata[of y] by simp
  have fresh: "create_fresh s1 r log_id = (res, s') \<Longrightarrow> ss_metadata s' = ss_metadata s1" for s1 log_id
    by (auto simp: create_fresh_def bind_st_eq Let_def dest: t)
  obtain d s1 where d: "decide_fault E s ''create_node'' (RqCreateNode r) 0 = (d, s1)" by fastforce
  from assms consider "s' = s1" | log_id where "create_fresh s1 r log_id = (res, s')"
    by (auto simp: create_node_def d bind_st_eq split: option.splits if_splits)
  then have "ss_metadata s' = ss_metadata s1" by cases (auto dest: fresh)
  then show ?thesis using decide_fault_data[OF d] by (simp add: same_data_def)
qed

lemma update_nodes_metadata:
  assumes "update_nodes E u s = (res, s')"
  shows "ss_metadata s' = ss_metadata s"
proof -
  obtain d s1 where d: "decide_fault E s ''update_nodes'' (RqUpdateNodes u) 0 = (d, s1)" by fastforce
  have "ss_metadata s' = ss_metadata s1"
    using assms by (auto simp: update_nodes_def d bind_st_eq Let_def res_simps split: if_splits)
  then show ?thesis using decide_fault_data[OF d] by (simp add: same_data_def)
qed

lemma prune_subtree_metadata:
  assumes "prune_subtree E e i b s = Some (res, s')"
  shows "ss_metadata s' = ss_metadata s"
  using assms
proof (cases rule: prune_subtree_cases)
  case (ticked s1 t)
  then show ?thesis using tick_metadata[of s1] by (simp add: same_data_def)
next
  case (pruned s1 x ids t s2 nodes)
  then show ?thesis using tick_metadata[of s1] by (simp add: same_data_def)
qed (simp add: same_data_def)

lemma store_step_metadata:
  assumes "store_step E s s'"
  obtains (same) "ss_metadata s' = ss_metadata s"
  | (put) r res where "put_metadata E r s = (res, s')"
  | (delete) d res where "delete_metadata E d s = (res, s')"
  using assms
proof cases
  case (step_get_node e i res)
  from data_ops(1)[OF step_get_node] show ?thesis by (intro same) (simp add: same_data_def)
next
  case (step_get_children e i res)
  from data_ops(2)[OF step_get_children] show ?thesis by (intro same) (simp add: same_data_def)
next
  case (step_get_path e i b res)
  from data_ops(3)[OF step_get_path] show ?thesis by (intro same) (simp add: same_data_def)
next
  case (step_query q res)
  from data_ops(4)[OF step_query] show ?thesis by (intro same) (simp add: same_data_def)
next
  case (step_get k res)
  from data_ops(5)[OF step_get] show ?thesis by (intro same) (simp add: same_data_def)
next
  case (step_create r res)
  show ?thesis by (rule same[OF create_node_metadata[OF step_create]])
next
  case (step_update u res)
  show ?thesis by (rule same[OF update_nodes_metadata[OF step_update]])
next
  case (step_prune e i b res)
  show ?thesis by (rule same[OF prune_subtree_metadata[OF step_prune]])
next
  case (step_put r res)
  then show ?thesis by (rule put)
next
  case (step_delete d res)
  then show ?thesis by (rule delete)
qed

lemma delete_metadata_effect:
  assumes "delete_metadata E d s = (res, s')"
  shows "ss_metadata s' = ss_metadata s \<or> ss_metadata s' = hm_remove (ss_metadata s) (dm_key d)"
  using assms by (auto simp: delete_metadata_def bind_st_eq Let_def same_data_def dest!: decide_fault_data)

text \<open>As long as a key is present its generation never goes down.\<close>

lemma step_generation:
  assumes "store_step E s s'" "hm_get (ss_metadata s) k = Some e" "hm_get (ss_metadata s') k = Some e'"
  shows "generation_get (me_generation e) \<le> generation_get (me_generation e')"
  using assms(1)
proof (cases rule: store_step_metadata)
  case (put r res)
  have next_le: "unat w < 2 ^ 64 - 1 \<Longrightarrow> w \<le> w + 1" for w :: u64 by (simp add: word_le_nat_alt unat_add_no_overflow)
  show ?thesis
  proof (cases "pm_key r = k")
    case True
    then show ?thesis using put_metadata_effect[OF put] assms(2,3) next_le by auto
  next
    case False
    then have "e' = e" using put_metadata_effect[OF put] assms(2,3) by auto
    then show ?thesis by simp
  qed
next
  case (delete d res)
  then have "e' = e" using delete_metadata_effect[OF delete] assms(2,3) by (auto split: if_splits)
  then show ?thesis by simp
qed (use assms(2,3) in simp)

lemma key_run_generation:
  assumes "key_run E k s s'" "hm_get (ss_metadata s) k = Some e"
  shows "\<exists>e'. hm_get (ss_metadata s') k = Some e' \<and> generation_get (me_generation e) \<le> generation_get (me_generation e')"
  using assms(1)
proof induction
  case (key_run_step s1 s2)
  then show ?case using step_generation[OF key_run_step(2)] by (metis not_None_eq order_trans)
qed (use assms(2) in blast)

text \<open>A key that was absent starts again at generation one, so deleting a key ends what is shown next.\<close>

lemma fresh_generation:
  assumes "put_metadata E r s = (Ok g, s')" "hm_get (ss_metadata s) (pm_key r) = None"
  shows "g = MetadataGeneration 1"
  using put_metadata_effect[OF assms(1)] assms(2) by auto

text \<open>C12: A conditional put has one winner as long as the key is not deleted. When a put that expects a generation (or
  expects the key to be absent) succeeds, then after any run of further requests, of any kind and with any
  injected faults, during which the key is never absent, a second put with the same expectation on the same
  key does not succeed and changes no metadata. (Once a key is deleted its generations start again at one,
  and the statement does not cover what follows.)\<close>

theorem cas_single_writer:
  assumes "put_metadata E r1 s = (Ok g, s1)" "key_run E (pm_key r1) s1 s2" "pm_key r2 = pm_key r1"
    "pm_expected_generation r2 = pm_expected_generation r1" "pm_expected_generation r1 \<noteq> Unconditional"
    "put_metadata E r2 s2 = (res, s3)"
  shows "(\<forall>g'. res \<noteq> Ok g') \<and> ss_metadata s3 = ss_metadata s2"
proof -
  have g: "hm_get (ss_metadata s1) (pm_key r1) = Some \<lparr>me_value = pm_value r1, me_generation = g\<rparr>"
    using put_metadata_effect[OF assms(1)] by auto
  obtain e where e: "hm_get (ss_metadata s2) (pm_key r1) = Some e" "generation_get g \<le> generation_get (me_generation e)"
    using key_run_generation[OF assms(2) g] by auto
  have less: "unat w < 2 ^ 64 - 1 \<Longrightarrow> w < w + 1" for w :: u64 by (simp add: word_less_nat_alt unat_add_no_overflow)
  have "pm_expected_generation r1 = CreateOnly \<or> (\<exists>w. pm_expected_generation r1 = Generation w \<and> generation_get w < generation_get g)"
    using put_metadata_effect[OF assms(1)] assms(5) by (auto simp: less split: option.splits)
  then have "pm_expected_generation r2 \<noteq> Generation (me_generation e)" "pm_expected_generation r2 \<noteq> Unconditional"
    using assms(4,5) e(2) by auto
  then show ?thesis using put_metadata_effect[OF assms(6)] e(1) assms(3) by auto
qed

theorem cas_single_writer_witness:
  "\<exists>g s1 res2 s2. put_metadata example_env example_put store_new = (Ok g, s1)
     \<and> get_metadata example_env (pm_key example_put) s1 = (res2, s2)
     \<and> (\<forall>g'. fst (put_metadata example_env example_put s2) \<noteq> Ok g')"
proof -
  obtain s' where d: "decide_fault example_env store_new ''put_metadata'' (RqPutMetadata example_put) 0 = (Ok no_fault, s')"
    "same_data store_new s'" by (rule quiet_decide[OF quiet_new[of 1, unfolded One_nat_def]]) auto
  then have "ss_metadata s' = []" by (simp add: same_data_def store_new_def store_with_fault_plan_def)
  then obtain g s1 where p: "put_metadata example_env example_put store_new = (Ok g, s1)"
    by (simp add: put_metadata_def d(1) check_metadata_expectation_def)
      (simp add: example_put_def Let_def)
  obtain res2 s2 where g: "get_metadata example_env (pm_key example_put) s1 = (res2, s2)" by fastforce
  have "hm_get (ss_metadata s1) (pm_key example_put) \<noteq> None" using put_metadata_effect[OF p] by auto
  then have "key_run example_env (pm_key example_put) s1 s2"
    using key_run_step[OF key_run_refl step_get[OF g]] data_ops(5)[OF g] by (simp add: same_data_def)
  from cas_single_writer[OF p this refl refl _ prod.collapse[symmetric]] p g show ?thesis by (auto simp: example_put_def)
qed

subsection \<open>Creating a node again\<close>

text \<open>C30: Creating a node is idempotent: a request that succeeded, issued again, returns the same row and changes
  neither nodes nor metadata nor the clock; at most the fault injector answers instead of the store.\<close>

theorem create_node_idempotent:
  assumes "create_node E r s = (Ok n, s1)"
  shows "create_node E r s1 = bind_st (decide_fault E s1 ''create_node'' (RqCreateNode r) 0) (\<lambda>_ s2. (Ok n, s2))"
proof -
  obtain d s0 log_id where d: "decide_fault E s ''create_node'' (RqCreateNode r) 0 = (Ok d, s0)"
    "create_node_validate r = Ok ()" "resolved_input_log_id E r = Ok log_id"
    using assms by (auto simp: create_node_def bind_st_Ok)
  have "\<exists>x m. hm_get (ss_experiments s1) (cn_experiment_id r) = Some x \<and> hm_get (xs_nodes x) (cn_node_id r) = Some m
      \<and> same_immutable_create_identity m r log_id \<and> sn_meta m = n"
    using assms
    by (auto simp: create_node_def d create_fresh_def bind_st_Ok Let_def insert_node_def node_of_request_def
        same_immutable_create_identity_def split: option.splits if_splits bind_splits)
  then obtain x m where x: "hm_get (ss_experiments s1) (cn_experiment_id r) = Some x" "hm_get (xs_nodes x) (cn_node_id r) = Some m"
    "same_immutable_create_identity m r log_id" "sn_meta m = n" by blast
  obtain d2 s2 where d2: "decide_fault E s1 ''create_node'' (RqCreateNode r) 0 = (d2, s2)" by fastforce
  then have "ss_experiments s2 = ss_experiments s1" using decide_fault_data by (auto simp: same_data_def)
  then show ?thesis using x d(2,3) by (cases d2) (simp_all add: create_node_def d2)
qed

definition example_create :: create_node_request where
  "example_create = \<lparr>cn_experiment_id = ''e'', cn_node_id = ROOT, cn_parent_node_id = None, cn_snapshot_ref = SnapshotRef [],
     cn_input_log_id = None, cn_status = Frontier, cn_progress_score = Score (FiniteF64 f_zero),
     cn_novelty_score = Novelty (FiniteF64 f_zero), cn_attrs = NodeAttrs [], cn_input_log_container = None\<rparr>"

lemma example_create_Ok: "\<exists>n s1. create_node example_env example_create store_new = (Ok n, s1)
    \<and> quiet 1 s1 \<and> unat (ss_logical_clock s1) + 1 < 2 ^ 64"
proof -
  obtain s' where d: "decide_fault example_env store_new ''create_node'' (RqCreateNode example_create) 0 = (Ok no_fault, s')"
    "same_data store_new s'" "quiet 1 s'" by (rule quiet_decide[OF quiet_new[of "Suc 1"]]) auto
  have v: "create_node_validate example_create = Ok ()" "resolved_input_log_id example_env example_create = Ok None"
    "check_parent s' example_create = Ok ()" "new_depth x example_create = Ok 0" "cn_experiment_id example_create = ''e''" for x
    by (simp_all add: create_node_validate_def example_create_def is_root_iff node_attrs_validate_def
        resolved_input_log_id_def check_parent_def new_depth_def Let_def)
  have "ss_experiments s' = []" "ss_logical_clock s' = 0"
    using d(2) by (simp_all add: same_data_def store_new_def store_with_fault_plan_def)
  then show ?thesis using d(3)
    by (simp add: create_node_def d(1) v create_fresh_def store_tick_def checked_add_def Let_def quiet_def)
qed

theorem create_node_idempotent_witness:
  "\<exists>n s1. create_node example_env example_create store_new = (Ok n, s1)
     \<and> (\<exists>s2. create_node example_env example_create s1 = (Ok n, s2))"
proof -
  obtain n s1 where c: "create_node example_env example_create store_new = (Ok n, s1)" "quiet 1 s1"
    using example_create_Ok by blast
  obtain s2 where "decide_fault example_env s1 ''create_node'' (RqCreateNode example_create) 0 = (Ok no_fault, s2)"
    using quiet_decide[of 0 s1] c(2) by (metis One_nat_def)
  then show ?thesis using c(1) create_node_idempotent[OF c(1)] by auto
qed

subsection \<open>Walking the graph\<close>

text \<open>The chain of parents from a node up to a node without a parent.\<close>

fun up_chain :: "(node_id, stored_node) hash_map \<Rightarrow> node_id list \<Rightarrow> bool" where
  "up_chain nodes [] \<longleftrightarrow> False"
| "up_chain nodes [i] \<longleftrightarrow> (\<exists>n. hm_get nodes i = Some n \<and> nm_parent_node_id (sn_meta n) = None)"
| "up_chain nodes (i # j # is) \<longleftrightarrow>
     (\<exists>n. hm_get nodes i = Some n \<and> nm_parent_node_id (sn_meta n) = Some j) \<and> up_chain nodes (j # is)"

lemma path_loop_chain:
  assumes "exp_inv c x" "hm_get (xs_nodes x) i = Some n"
  shows "\<exists>ids. store_path_loop (xs_nodes x) i acc = Some (Ok (acc @ i # ids)) \<and> up_chain (xs_nodes x) (i # ids)
    \<and> length ids = unat (nm_depth (sn_meta n))"
  using assms(2)
proof (induction "unat (nm_created_at (sn_meta n))" arbitrary: i n acc rule: less_induct)
  case less
  note ok = exp_invD(1)[OF assms(1) less.prems]
  show ?case
  proof (cases "nm_parent_node_id (sn_meta n)")
    case None
    then show ?thesis using ok less.prems by (subst store_path_loop.simps) (auto simp: node_ok_def)
  next
    case (Some p)
    then obtain pn where pn: "hm_get (xs_nodes x) p = Some pn" "nm_created_at (sn_meta pn) < nm_created_at (sn_meta n)"
      "unat (nm_depth (sn_meta n)) = Suc (unat (nm_depth (sn_meta pn)))" using ok by (auto simp: node_ok_def)
    from less.hyps[OF pn(2)[unfolded word_less_nat_alt] pn(1), of "acc @ [i]"] obtain ids where
      "store_path_loop (xs_nodes x) p (acc @ [i]) = Some (Ok ((acc @ [i]) @ p # ids))" "up_chain (xs_nodes x) (p # ids)"
      "length ids = unat (nm_depth (sn_meta pn))" by blast
    then show ?thesis using pn(3) Some less.prems by (intro exI[of _ "p # ids"]) (subst store_path_loop.simps, simp)
  qed
qed

lemma up_chain_nodes: "up_chain m ids \<Longrightarrow> k \<in> set ids \<Longrightarrow> hm_get m k \<noteq> None"
  by (induction m ids rule: up_chain.induct) auto

lemma up_chain_last: "exp_inv c x \<Longrightarrow> up_chain (xs_nodes x) ids \<Longrightarrow> last ids = ROOT"
  by (induction "xs_nodes x" ids rule: up_chain.induct) (auto simp: node_ok_def dest!: exp_invD(1))

text \<open>C29: Walking to the root ends and finds the path. On a reachable store without faults, the path of an existing
  node lists its ancestors from the root down to the node itself, one per level.\<close>

theorem get_path_root_to_node:
  assumes "store_reachable E s" "quiet 1 s" "hm_get (ss_experiments s) e = Some x" "hm_get (xs_nodes x) i = Some n"
  shows "\<exists>ids s'. get_path E e i False s
      = Some (Ok \<lparr>gp_nodes = map (\<lambda>k. sn_meta (the (hm_get (xs_nodes x) k))) (rev ids), gp_input_log_containers = []\<rparr>, s')
    \<and> up_chain (xs_nodes x) ids \<and> hd ids = i \<and> last ids = ROOT \<and> length ids = Suc (unat (nm_depth (sn_meta n)))"
proof -
  have inv: "exp_inv (ss_logical_clock s) x" using store_reachable_inv_lemma[OF assms(1)] assms(3) by (simp add: store_inv_def)
  obtain ids where p: "store_path_loop (xs_nodes x) i [] = Some (Ok (i # ids))" "up_chain (xs_nodes x) (i # ids)"
    "length ids = unat (nm_depth (sn_meta n))" using path_loop_chain[OF inv assms(4), of "[]"] by auto
  obtain s' where d: "decide_fault E s ''get_path'' (RqGetPath e i False) (word_of_nat (length (rev (i # ids)))) = (Ok no_fault, s')"
    using quiet_decide[of 0 s] assms(2) by (metis One_nat_def)
  have nodes: "collect_res (\<lambda>k. expect (hm_get (xs_nodes x) k) ''path id exists'') (rev (i # ids))
      = (Ok (map (\<lambda>k. the (hm_get (xs_nodes x) k)) (rev (i # ids))) :: (client_error, stored_node list) res)"
    by (rule collect_res_map) (use up_chain_nodes[OF p(2)] in force)
  have "get_path E e i False s = Some (Ok \<lparr>gp_nodes = map (\<lambda>k. sn_meta (the (hm_get (xs_nodes x) k))) (rev (i # ids)),
      gp_input_log_containers = []\<rparr>, s')"
    using d nodes by (simp add: get_path_def find_experiment_def assms(3) p(1) Let_def decision_truncate_len_def no_fault_def comp_def)
  moreover have "last (i # ids) = ROOT" by (rule up_chain_last[OF inv p(2)])
  ultimately show ?thesis using p(2,3) by (intro exI[of _ "i # ids"] exI[of _ s']) simp
qed

lemma example_create_row:
  assumes "create_node example_env example_create store_new = (Ok n, s1)"
  shows "\<exists>x m. hm_get (ss_experiments s1) ''e'' = Some x \<and> hm_get (xs_nodes x) ROOT = Some m \<and> sn_meta m = n \<and> nm_depth n = 0"
proof -
  obtain d s' where d: "decide_fault example_env store_new ''create_node'' (RqCreateNode example_create) 0 = (d, s')" by fastforce
  have e: "ss_experiments s' = []"
    using decide_fault_data[OF d] by (simp add: same_data_def store_new_def store_with_fault_plan_def)
  have v: "cn_experiment_id example_create = ''e''" "cn_node_id example_create = ROOT" "cn_parent_node_id example_create = None"
    "\<And>s. new_depth s example_create = Ok 0" by (simp_all add: example_create_def new_depth_def is_root_iff)
  show ?thesis using assms
    by (auto simp: create_node_def d bind_st_Ok e v create_fresh_def Let_def insert_node_def node_of_request_def)
qed

theorem store_reachable_inv_witness:
  "\<exists>n s1 x. create_node example_env example_create store_new = (Ok n, s1) \<and> store_inv s1
     \<and> hm_get (ss_experiments s1) ''e'' = Some x \<and> hm_get (xs_nodes x) ROOT \<noteq> None"
proof -
  obtain n s1 where c: "create_node example_env example_create store_new = (Ok n, s1)" using example_create_Ok by blast
  have "store_reachable example_env s1"
    using step_create[OF c] unfolding store_new_def by (rule reach_step[OF reach_new])
  from store_reachable_inv[OF this] c example_create_row[OF c] show ?thesis by blast
qed

theorem get_path_root_to_node_witness:
  "\<exists>n s1 s2. create_node example_env example_create store_new = (Ok n, s1)
     \<and> get_path example_env ''e'' ROOT False s1 = Some (Ok \<lparr>gp_nodes = [n], gp_input_log_containers = []\<rparr>, s2)"
proof -
  obtain n s1 where c: "create_node example_env example_create store_new = (Ok n, s1)" "quiet 1 s1"
    using example_create_Ok by blast
  have reach: "store_reachable example_env s1"
    using step_create[OF c(1)] unfolding store_new_def by (rule reach_step[OF reach_new])
  obtain x m where x: "hm_get (ss_experiments s1) ''e'' = Some x" "hm_get (xs_nodes x) ROOT = Some m" "sn_meta m = n"
    "nm_depth n = 0" using example_create_row[OF c(1)] by blast
  from get_path_root_to_node[OF reach c(2) x(1,2)] obtain ids s' where
    p: "get_path example_env ''e'' ROOT False s1
      = Some (Ok \<lparr>gp_nodes = map (\<lambda>k. sn_meta (the (hm_get (xs_nodes x) k))) (rev ids), gp_input_log_containers = []\<rparr>, s')"
    "hd ids = ROOT" "length ids = 1" using x(3,4) by auto
  then have "ids = [ROOT]" by (cases ids) auto
  then show ?thesis using c(1) p(1) x by auto
qed

subsection \<open>Pruning a subtree\<close>

definition descendants :: "(node_id, stored_node) hash_map \<Rightarrow> node_id \<Rightarrow> node_id set" where
  "descendants nodes i = {j. (i, j) \<in> {(a, b). b \<in> kids nodes a}\<^sup>*}"

lemma descendants_step: "descendants m i = insert i (\<Union>j \<in> kids m i. descendants m j)"
  unfolding descendants_def by (auto intro: converse_rtrancl_into_rtrancl elim: converse_rtranclE)

text \<open>Ancestors form a chain, and a child is newer than its parent; so siblings have disjoint subtrees.\<close>

lemma descendants_linear:
  assumes "x \<in> descendants m a" "x \<in> descendants m b"
  shows "a \<in> descendants m b \<or> b \<in> descendants m a"
proof -
  let ?R = "{(a, b). b \<in> kids m a}"
  have "single_valued (?R\<inverse>)" by (auto simp: single_valued_def kids_def)
  moreover have "(x, a) \<in> (?R\<inverse>)\<^sup>*" "(x, b) \<in> (?R\<inverse>)\<^sup>*" using assms by (simp_all add: descendants_def rtrancl_converse)
  ultimately have "(a, b) \<in> (?R\<inverse>)\<^sup>* \<or> (b, a) \<in> (?R\<inverse>)\<^sup>*" by (rule single_valued_confluent)
  then show ?thesis by (auto simp: descendants_def rtrancl_converse)
qed

abbreviation created :: "(node_id, stored_node) hash_map \<Rightarrow> node_id \<Rightarrow> nat" where
  "created m i \<equiv> unat (nm_created_at (sn_meta (the (hm_get m i))))"

lemma kid_newer:
  assumes "exp_inv c x" "j \<in> kids (xs_nodes x) i"
  shows "hm_get (xs_nodes x) j \<noteq> None" "created (xs_nodes x) i < created (xs_nodes x) j" "created (xs_nodes x) j \<le> unat c"
proof -
  obtain n where n: "hm_get (xs_nodes x) j = Some n" "nm_parent_node_id (sn_meta n) = Some i" using assms(2) by (auto simp: kids_def)
  then obtain pn where "hm_get (xs_nodes x) i = Some pn" "nm_created_at (sn_meta pn) < nm_created_at (sn_meta n)"
    "nm_created_at (sn_meta n) \<le> c" using exp_invD(1)[OF assms(1) n(1)] by (auto simp: node_ok_def)
  then show "hm_get (xs_nodes x) j \<noteq> None" "created (xs_nodes x) i < created (xs_nodes x) j" "created (xs_nodes x) j \<le> unat c"
    using n(1) by (simp_all add: word_less_nat_alt word_le_nat_alt)
qed

lemma descendant_newer:
  assumes "exp_inv c x" "j \<in> descendants (xs_nodes x) i"
  shows "j = i \<or> created (xs_nodes x) i < created (xs_nodes x) j"
  using assms(2) unfolding descendants_def mem_Collect_eq
  by (induction rule: rtrancl_induct) (use kid_newer(2)[OF assms(1)] in \<open>force+\<close>)

lemma sibling_not_below:
  assumes inv: "exp_inv c x" and j: "j \<in> kids (xs_nodes x) i" "k \<in> kids (xs_nodes x) i" "j \<noteq> k"
  shows "j \<notin> descendants (xs_nodes x) k"
proof
  assume "j \<in> descendants (xs_nodes x) k"
  then obtain p where "p \<in> descendants (xs_nodes x) k" "j \<in> kids (xs_nodes x) p"
    using j(3) unfolding descendants_def by (auto elim: rtranclE)
  moreover from this(2) j(1) have "p = i" by (auto simp: kids_def)
  ultimately show False using descendant_newer[OF inv, of i k] kid_newer(2)[OF inv j(2)] by auto
qed

definition apart :: "(node_id, stored_node) hash_map \<Rightarrow> node_id list \<Rightarrow> bool" where
  "apart m st \<longleftrightarrow> distinct st \<and> (\<forall>i \<in> set st. \<forall>j \<in> set st. i \<noteq> j \<longrightarrow> descendants m i \<inter> descendants m j = {})"

lemma apart_expand:
  assumes inv: "exp_inv c x" and a: "apart (xs_nodes x) (i # rest)" and cs: "set cs = kids (xs_nodes x) i" "distinct cs"
  shows "apart (xs_nodes x) (cs @ rest)" "i \<notin> (\<Union>j \<in> set (cs @ rest). descendants (xs_nodes x) j)"
proof -
  let ?D = "descendants (xs_nodes x)"
  have self: "k \<in> ?D k" for k by (simp add: descendants_def)
  have sub: "?D j \<subseteq> ?D i" if "j \<in> set cs" for j using that cs(1) descendants_step[of "xs_nodes x" i] by blast
  have far: "?D i \<inter> ?D r = {}" if "r \<in> set rest" for r using a that by (auto simp: apart_def)
  have near: "?D j \<inter> ?D k = {}" if "j \<in> set cs" "k \<in> set cs" "j \<noteq> k" for j k
    using that descendants_linear[of _ "xs_nodes x" j k] sibling_not_below[OF inv, of j i k] sibling_not_below[OF inv, of k i j]
    by (auto simp: cs(1))
  have "set cs \<inter> set rest = {}" using sub far self by blast
  then show "apart (xs_nodes x) (cs @ rest)"
    using a cs(2) near far sub unfolding apart_def by (auto; blast)
  have "i \<notin> ?D j" if "j \<in> set cs" for j
    using that descendant_newer[OF inv, of i j] kid_newer(2)[OF inv, of j i] by (auto simp: cs(1))
  then show "i \<notin> (\<Union>j \<in> set (cs @ rest). ?D j)" using far self by auto
qed

lemma subtree_loop_spec:
  assumes inv: "exp_inv c x" and "\<forall>i \<in> set stack. hm_get (xs_nodes x) i \<noteq> None" "apart (xs_nodes x) stack"
  shows "\<exists>ids. subtree_loop (xs_children x) stack out = Some (out @ ids) \<and> distinct ids
    \<and> set ids = (\<Union>i \<in> set stack. descendants (xs_nodes x) i)"
  using assms(2,3)
proof (induction "mset (map (\<lambda>i. unat c - created (xs_nodes x) i) stack)"
    arbitrary: stack out rule: wf_induct_rule[OF wf_mult[OF wf_less_than]])
  case (1 stack out)
  let ?rank = "\<lambda>i. unat c - created (xs_nodes x) i"
  show ?case
  proof (cases stack)
    case Nil
    then show ?thesis by (subst subtree_loop.simps) simp
  next
    case (Cons i rest)
    let ?cs = "sorted_list_of_set (kids (xs_nodes x) i)"
    have cs: "hm_get (xs_children x) i = Some ?cs" using exp_invD(2)[OF inv, of i] 1(2) Cons by simp
    have kid: "hm_get (xs_nodes x) j \<noteq> None \<and> ?rank j < ?rank i" if j: "j \<in> kids (xs_nodes x) i" for j
      using kid_newer[OF inv j] by linarith
    have fin: "set ?cs = kids (xs_nodes x) i" using finite_kids by simp
    note ap = apart_expand[OF inv 1(3)[unfolded Cons] fin distinct_sorted_list_of_set]
    have "(mset (map ?rank rest) + mset (map ?rank ?cs), mset (map ?rank rest) + {#?rank i#}) \<in> mult less_than"
      by (rule one_step_implies_mult) (use kid in auto)
    then have dec: "(mset (map ?rank (?cs @ rest)), mset (map ?rank stack)) \<in> mult less_than" by (simp add: Cons add.commute)
    have known: "\<forall>j \<in> set (?cs @ rest). hm_get (xs_nodes x) j \<noteq> None" using 1(2) kid Cons by auto
    obtain ids where ids: "subtree_loop (xs_children x) (?cs @ rest) (out @ [i]) = Some ((out @ [i]) @ ids)" "distinct ids"
      "set ids = (\<Union>j \<in> set (?cs @ rest). descendants (xs_nodes x) j)" using 1(1)[OF dec known ap(1), of "out @ [i]"] by blast
    have "subtree_loop (xs_children x) stack out = Some (out @ i # ids)"
      using cs ids(1) Cons by (subst subtree_loop.simps) simp
    moreover have "distinct (i # ids)" using ids(2,3) ap(2) by simp
    moreover have "set (i # ids) = (\<Union>i \<in> set stack. descendants (xs_nodes x) i)"
      using ids(3) fin Cons descendants_step[of "xs_nodes x" i] by auto
    ultimately show ?thesis by blast
  qed
qed

lemma mark_subtree_get:
  assumes "\<forall>i \<in> set ids. hm_get m i \<noteq> None"
  shows "\<exists>m'. mark_subtree t m ids = Ok m' \<and> (\<forall>i. hm_get m' i = (if i \<in> set ids
    then map_option (\<lambda>n. n\<lparr>sn_meta := (sn_meta n)\<lparr>nm_status := Pruned, nm_updated_at := t\<rparr>\<rparr>) (hm_get m i) else hm_get m i))"
  using assms
proof (induction ids arbitrary: m)
  case (Cons i ids)
  then obtain n where n: "hm_get m i = Some n" by auto
  let ?m = "hm_insert m i (n\<lparr>sn_meta := (sn_meta n)\<lparr>nm_status := Pruned, nm_updated_at := t\<rparr>\<rparr>)"
  have "\<forall>j \<in> set ids. hm_get ?m j \<noteq> None" using Cons.prems by auto
  from Cons.IH[OF this] obtain m' where "mark_subtree t ?m ids = Ok m'" and
    "\<And>j. hm_get m' j = (if j \<in> set ids
      then map_option (\<lambda>n. n\<lparr>sn_meta := (sn_meta n)\<lparr>nm_status := Pruned, nm_updated_at := t\<rparr>\<rparr>) (hm_get ?m j) else hm_get ?m j)" by blast
  then show ?case using n by (intro exI[of _ m']) auto
qed simp

lemma descendants_nodes:
  assumes "hm_get m i \<noteq> None" "j \<in> descendants m i"
  shows "hm_get m j \<noteq> None"
  using assms(2) unfolding descendants_def mem_Collect_eq
  by (induction rule: rtrancl_induct) (use assms(1) in \<open>auto simp: kids_def\<close>)

text \<open>C11: Pruning a subtree ends, prunes exactly the subtree and reports its size. On a reachable store without faults,
  below a node that may be pruned, the result is the number of descendants (the node included); each of them
  becomes \<open>PRUNED\<close> with the new time stamp and keeps the rest of its row; and every other node of the
  experiment, every other experiment and all metadata stay as they were.\<close>

theorem prune_subtree_exact:
  assumes "store_reachable E s" "quiet 1 s" "hm_get (ss_experiments s) e = Some x" "hm_get (xs_nodes x) i \<noteq> None"
    "i \<noteq> ROOT \<or> b" "unat (ss_logical_clock s) + 1 < 2 ^ 64"
  shows "\<exists>s' x'. prune_subtree E e i b s = Some (Ok (word_of_nat (card (descendants (xs_nodes x) i))), s')
    \<and> finite (descendants (xs_nodes x) i) \<and> ss_logical_clock s' = ss_logical_clock s + 1
    \<and> ss_metadata s' = ss_metadata s \<and> hm_get (ss_experiments s') = (hm_get (ss_experiments s))(e \<mapsto> x')
    \<and> (\<forall>j. hm_get (xs_nodes x') j = (if j \<in> descendants (xs_nodes x) i
         then map_option (\<lambda>n. n\<lparr>sn_meta := (sn_meta n)\<lparr>nm_status := Pruned, nm_updated_at := ss_logical_clock s'\<rparr>\<rparr>)
                (hm_get (xs_nodes x) j)
         else hm_get (xs_nodes x) j))"
proof -
  have inv: "exp_inv (ss_logical_clock s) x" using store_reachable_inv_lemma[OF assms(1)] assms(3) by (simp add: store_inv_def)
  obtain s1 where d: "decide_fault E s ''prune_subtree'' (RqPruneSubtree e i b) 0 = (Ok no_fault, s1)"
    using quiet_decide[of 0 s] assms(2) by (metis One_nat_def)
  then have s1: "ss_experiments s1 = ss_experiments s" "ss_logical_clock s1 = ss_logical_clock s" "ss_metadata s1 = ss_metadata s"
    using decide_fault_data by (auto simp: same_data_def)
  obtain ids where ids: "subtree_ids x i = Some ids" "set ids = descendants (xs_nodes x) i" "distinct ids"
    using subtree_loop_spec[OF inv, of "[i]" "[]"] assms(4) by (auto simp: subtree_ids_def apart_def)
  have "\<forall>j \<in> set ids. hm_get (xs_nodes x) j \<noteq> None" using descendants_nodes[OF assms(4)] ids(2) by blast
  from mark_subtree_get[OF this, of "ss_logical_clock s + 1"] obtain m where m: "mark_subtree (ss_logical_clock s + 1) (xs_nodes x) ids = Ok m"
    "\<And>j. hm_get m j = (if j \<in> descendants (xs_nodes x) i
      then map_option (\<lambda>n. n\<lparr>sn_meta := (sn_meta n)\<lparr>nm_status := Pruned, nm_updated_at := ss_logical_clock s + 1\<rparr>\<rparr>) (hm_get (xs_nodes x) j)
      else hm_get (xs_nodes x) j)" by (auto simp: ids(2))
  have tick: "store_tick s1 = (Ok (ss_logical_clock s + 1), s1\<lparr>ss_logical_clock := ss_logical_clock s + 1\<rparr>)"
    using assms(6) by (simp add: store_tick_def checked_add_def s1)
  let ?s = "s1\<lparr>ss_logical_clock := ss_logical_clock s + 1, ss_experiments := hm_insert (ss_experiments s1) e (x\<lparr>xs_nodes := m\<rparr>)\<rparr>"
  have "prune_subtree E e i b s = Some (Ok (word_of_nat (length ids)), ?s)"
    using assms(3-5) tick m(1) ids(1) s1(1)
    by (simp add: prune_subtree_def d is_root_iff find_experiment_def hm_contains_def)
  moreover have "length ids = card (descendants (xs_nodes x) i)" "finite (descendants (xs_nodes x) i)"
    using ids(2) distinct_card[OF ids(3)] by (simp_all flip: ids(2))
  ultimately show ?thesis by (intro exI[of _ ?s] exI[of _ "x\<lparr>xs_nodes := m\<rparr>"]) (simp add: m(2) s1)
qed

theorem prune_subtree_exact_witness:
  "\<exists>n s1 x count s2. create_node example_env example_create store_new = (Ok n, s1)
     \<and> hm_get (ss_experiments s1) ''e'' = Some x \<and> count = word_of_nat (card (descendants (xs_nodes x) ROOT))
     \<and> prune_subtree example_env ''e'' ROOT True s1 = Some (Ok count, s2)"
proof -
  obtain n s1 where c: "create_node example_env example_create store_new = (Ok n, s1)" "quiet 1 s1" "unat (ss_logical_clock s1) + 1 < 2 ^ 64"
    using example_create_Ok by blast
  have reach: "store_reachable example_env s1"
    using step_create[OF c(1)] unfolding store_new_def by (rule reach_step[OF reach_new])
  obtain x m where x: "hm_get (ss_experiments s1) ''e'' = Some x" "hm_get (xs_nodes x) ROOT = Some m"
    using example_create_row[OF c(1)] by blast
  from prune_subtree_exact[OF reach c(2) x(1) _ _ c(3), of ROOT True] x c(1) show ?thesis by blast
qed

end
