(* ===== verification/Events.thy ===== *)
theory Events
  imports Fault "HOL-Library.Sublist"
begin

text \<open>
  The observatory boundary: event envelopes and payload values (\<open>crates/orch-clients/src/observatory.rs\<close>),
  the recording sink (\<open>crates/orch-fakes/src/observatory.rs\<close>), and the bounded drop-oldest emitter with
  its payload builders (\<open>crates/orch-server/src/events.rs\<close>). A sink is a function on its own state; the
  emitter keeps that state in a field. The locale \<open>recording_sink\<close> is what the emitter relies on, and the
  recording sink provides it under every fault plan.
\<close>

section \<open>Envelopes\<close>

text \<open>A \<open>BTreeMap\<close> is an association list with distinct keys; \<open>i64\<close> is the signed reading of a word.\<close>

datatype payload_value =
    PNull
  | PBool bool
  | PU64 u64
  | PI64 u64
  | PF64 finite_f64
  | PText string
  | PBytes "u8 list"
  | PList "payload_value list"
  | PMap "(string \<times> payload_value) list"

type_synonym event_payload = "(string, payload_value) hash_map"

record event_envelope =
  ev_run_id :: string
  ev_source_service :: string
  ev_producer_id :: string
  ev_seq :: u64
  ev_ts_logical :: u64
  ev_event_type :: string
  ev_payload :: event_payload

section \<open>The recording sink\<close>

record fake_observatory =
  fo_events :: "event_envelope list"
  fo_acked_seq :: u64
  fo_fault_injector :: fault_injector
  fo_last_fault :: "fault_decision option"

definition observatory_with_fault_plan :: "fault_plan \<Rightarrow> fake_observatory" where
  "observatory_with_fault_plan plan =
     \<lparr>fo_events = [], fo_acked_seq = 0, fo_fault_injector = injector_new plan, fo_last_fault = None\<rparr>"

definition observatory_new :: fake_observatory where
  "observatory_new = observatory_with_fault_plan (plan_disabled 0)"

definition events_of_type :: "fake_observatory \<Rightarrow> string \<Rightarrow> event_envelope list" where
  "events_of_type s event_type = filter (\<lambda>e. ev_event_type e = event_type) (fo_events s)"

definition clear_events :: "fake_observatory \<Rightarrow> nat \<times> fake_observatory" where
  "clear_events s = (length (fo_events s), s\<lparr>fo_events := []\<rparr>)"

text \<open>The decision of the injector, recorded before it is acted on.\<close>

definition observatory_fault ::
  "(u8 list \<Rightarrow> u8 list) \<Rightarrow> string \<Rightarrow> u8 list \<Rightarrow> (fake_observatory, unit) rpc" where
  "observatory_fault blake3 operation identity s =
     (case injector_decide blake3 (fo_fault_injector s)
        \<lparr>fq_target = TgtObservatory, fq_operation = operation, fq_request_identity = identity\<rparr> 0 of
        Ok (decision, fi) \<Rightarrow>
          let s = s\<lparr>fo_fault_injector := fi, fo_last_fault := Some decision\<rparr>
          in (case decision_client_error decision of Some e \<Rightarrow> (Err e, s) | None \<Rightarrow> (Ok (), s))
      | Err e \<Rightarrow> (Err e, s)
      | Panic m \<Rightarrow> (Panic m, s))"

definition observatory_emit :: "(u8 list \<Rightarrow> u8 list) \<Rightarrow> event_envelope \<Rightarrow> (fake_observatory, unit) rpc" where
  "observatory_emit blake3 e s =
     bind_st (observatory_fault blake3 ''emit'' (ascii (ev_event_type e)) s) (\<lambda>_ s.
       (Ok (), s\<lparr>fo_acked_seq := max (fo_acked_seq s) (ev_seq e), fo_events := fo_events s @ [e]\<rparr>))"

definition observatory_acked_seq :: "(u8 list \<Rightarrow> u8 list) \<Rightarrow> (fake_observatory, u64) rpc" where
  "observatory_acked_seq blake3 s =
     bind_st (observatory_fault blake3 ''acked_seq'' [] s) (\<lambda>_ s. (Ok (fo_acked_seq s), s))"

section \<open>The emitter\<close>

definition SOURCE_SERVICE :: string where "SOURCE_SERVICE = ''EXPLORATION_ORCHESTRATOR''"
definition DEFAULT_RING_CAPACITY :: nat where "DEFAULT_RING_CAPACITY = 1024"

datatype prune_reason = PruneDuplicate | PruneRegression | PruneExhausted | PruneFrontierEvict | PruneStageGate

fun prune_reason_as_str :: "prune_reason \<Rightarrow> string" where
  "prune_reason_as_str PruneDuplicate = ''duplicate''"
| "prune_reason_as_str PruneRegression = ''regression''"
| "prune_reason_as_str PruneExhausted = ''exhausted''"
| "prune_reason_as_str PruneFrontierEvict = ''frontier-evict''"
| "prune_reason_as_str PruneStageGate = ''stage-gate''"

text \<open>Of an attached metrics registry only the dropped-events gauge is written.\<close>

record 's event_emitter =
  ee_sink :: 's
  ee_run_id :: string
  ee_producer_id :: string
  ee_next_seq :: u64
  ee_ring :: "event_envelope list"
  ee_capacity :: nat
  ee_dropped_total :: u64
  ee_dropped_gauge :: "u64 option"

definition emitter_new :: "'s \<Rightarrow> string \<Rightarrow> string \<Rightarrow> 's event_emitter" where
  "emitter_new s run_id producer_id =
     \<lparr>ee_sink = s, ee_run_id = run_id, ee_producer_id = producer_id, ee_next_seq = 1, ee_ring = [],
      ee_capacity = DEFAULT_RING_CAPACITY, ee_dropped_total = 0, ee_dropped_gauge = None\<rparr>"

definition emitter_with_capacity :: "'s event_emitter \<Rightarrow> nat \<Rightarrow> 's event_emitter" where
  "emitter_with_capacity em capacity = em\<lparr>ee_capacity := max capacity 1\<rparr>"

definition emitter_with_metrics :: "'s event_emitter \<Rightarrow> u64 \<Rightarrow> 's event_emitter" where
  "emitter_with_metrics em gauge = em\<lparr>ee_dropped_gauge := Some gauge\<rparr>"

definition emitter_pending :: "'s event_emitter \<Rightarrow> nat" where
  "emitter_pending em = length (ee_ring em)"

text \<open>\<open>flush\<close>: an envelope leaves the ring only after the sink took it; an error ends the loop quietly.\<close>

fun flush_loop ::
  "(event_envelope \<Rightarrow> ('s, unit) rpc) \<Rightarrow> event_envelope list \<Rightarrow> 's
    \<Rightarrow> (client_error, unit) res \<times> event_envelope list \<times> 's" where
  "flush_loop emit [] s = (Ok (), [], s)"
| "flush_loop emit (e # ring) s =
     (case emit e s of
        (Ok _, s) \<Rightarrow> flush_loop emit ring s
      | (Err _, s) \<Rightarrow> (Ok (), e # ring, s)
      | (Panic m, s) \<Rightarrow> (Panic m, e # ring, s))"

definition emitter_flush :: "(event_envelope \<Rightarrow> ('s, unit) rpc) \<Rightarrow> ('s event_emitter, unit) rpc" where
  "emitter_flush emit em =
     (let (r, ring, s) = flush_loop emit (ee_ring em) (ee_sink em) in (r, em\<lparr>ee_ring := ring, ee_sink := s\<rparr>))"

definition drop_oldest :: "('s event_emitter, unit) rpc" where
  "drop_oldest em =
     (let em = em\<lparr>ee_ring := tl (ee_ring em)\<rparr>
      in bind_st (add_or_panic (ee_dropped_total em) 1, em) (\<lambda>n em.
           (Ok (), em\<lparr>ee_dropped_total := n, ee_dropped_gauge := map_option (\<lambda>_. n) (ee_dropped_gauge em)\<rparr>)))"

definition envelope_of :: "'s event_emitter \<Rightarrow> u64 \<Rightarrow> string \<Rightarrow> event_payload \<Rightarrow> event_envelope" where
  "envelope_of em ts_logical event_type pl =
     \<lparr>ev_run_id = ee_run_id em, ev_source_service = SOURCE_SERVICE, ev_producer_id = ee_producer_id em,
      ev_seq = ee_next_seq em, ev_ts_logical = ts_logical, ev_event_type = event_type, ev_payload = pl\<rparr>"

definition emitter_emit ::
  "(event_envelope \<Rightarrow> ('s, unit) rpc) \<Rightarrow> u64 \<Rightarrow> string \<Rightarrow> event_payload \<Rightarrow> ('s event_emitter, unit) rpc" where
  "emitter_emit emit ts_logical event_type pl em =
     (let e = envelope_of em ts_logical event_type pl in
      bind_st (add_or_panic (ee_next_seq em) 1, em) (\<lambda>n em.
      let em = em\<lparr>ee_next_seq := n\<rparr> in
      bind_st (emitter_flush emit em) (\<lambda>_ em.
      bind_st (if length (ee_ring em) = ee_capacity em then drop_oldest em else (Ok (), em)) (\<lambda>_ em.
      let em = em\<lparr>ee_ring := ee_ring em @ [e]\<rparr> in emitter_flush emit em))))"

section \<open>Payload builders\<close>

definition node_id_value :: "node_id \<Rightarrow> payload_value" where
  "node_id_value n = PText (show_nat (unat (node_id_get n)))"

definition finite_value :: "f64 \<Rightarrow> payload_value" where
  "finite_value v = (case finite_new v of Ok x \<Rightarrow> PF64 x | _ \<Rightarrow> PNull)"

fun payload_of :: "(string \<times> payload_value) list \<Rightarrow> event_payload \<Rightarrow> event_payload" where
  "payload_of [] p = p"
| "payload_of ((k, v) # kvs) p = payload_of kvs (hm_insert p k v)"

text \<open>Only the finite features are reported.\<close>

fun feature_entries :: "(string \<times> f64) list \<Rightarrow> event_payload \<Rightarrow> event_payload" where
  "feature_entries [] m = m"
| "feature_entries ((name, value) # fs) m =
     feature_entries fs (case finite_new value of Ok x \<Rightarrow> hm_insert m name (PF64 x) | _ \<Rightarrow> m)"

definition node_added_payload ::
  "node_id \<Rightarrow> node_id \<Rightarrow> f64 \<Rightarrow> f64 \<Rightarrow> u64 \<Rightarrow> u32 \<Rightarrow> (string \<times> f64) list \<Rightarrow> event_payload" where
  "node_added_payload node parent sc nv cell_key_value stage_value features =
     payload_of [(''node_id'', node_id_value node), (''parent_node_id'', node_id_value parent),
       (''score'', finite_value sc), (''novelty'', finite_value nv), (''cell_key'', PU64 cell_key_value),
       (''stage'', PU64 (ucast stage_value)), (''features'', PMap (feature_entries features []))] []"

definition node_pruned_payload :: "node_id \<Rightarrow> prune_reason \<Rightarrow> node_id option \<Rightarrow> event_payload" where
  "node_pruned_payload parent reason node =
     payload_of ([(''parent_node_id'', node_id_value parent), (''reason'', PText (prune_reason_as_str reason))]
       @ (case node of None \<Rightarrow> [] | Some n \<Rightarrow> [(''node_id'', node_id_value n)])) []"

definition best_score_improved_payload :: "node_id \<Rightarrow> f64 \<Rightarrow> f64 \<Rightarrow> event_payload" where
  "best_score_improved_payload node best previous =
     payload_of [(''node_id'', node_id_value node), (''best_score'', finite_value best),
       (''previous_best_score'', finite_value previous)] []"

definition stall_detected_payload :: "u64 \<Rightarrow> u32 \<Rightarrow> event_payload" where
  "stall_detected_payload since window =
     payload_of [(''expansions_since_improvement'', PU64 since), (''window'', PU64 (ucast window))] []"

definition escalation_changed_payload :: "u32 \<Rightarrow> u32 \<Rightarrow> event_payload" where
  "escalation_changed_payload level previous_level =
     payload_of [(''level'', PU64 (ucast level)), (''previous_level'', PU64 (ucast previous_level))] []"

definition goal_reached_payload :: "node_id \<Rightarrow> f64 \<Rightarrow> event_payload" where
  "goal_reached_payload node sc = payload_of [(''node_id'', node_id_value node), (''score'', finite_value sc)] []"

definition batch_completed_payload :: "u64 \<Rightarrow> node_id \<Rightarrow> u64 \<Rightarrow> u64 \<Rightarrow> event_payload" where
  "batch_completed_payload sq parent committed discarded =
     payload_of [(''batch_seq'', PU64 sq), (''parent_node_id'', node_id_value parent),
       (''committed'', PU64 committed), (''discarded'', PU64 discarded)] []"

definition checkpoint_payload :: "u64 \<Rightarrow> u64 \<Rightarrow> u64 \<Rightarrow> event_payload" where
  "checkpoint_payload batch_seq expansions archive_seq =
     payload_of [(''batch_seq'', PU64 batch_seq), (''expansions'', PU64 expansions),
       (''archive_seq'', PU64 archive_seq)] []"

definition sdk_event_payload :: "node_id \<Rightarrow> u32 \<Rightarrow> u8 list \<Rightarrow> event_payload" where
  "sdk_event_payload node stream payload_bytes =
     payload_of [(''node_id'', node_id_value node), (''stream'', PU64 (ucast stream)),
       (''payload'', PBytes payload_bytes)] []"

section \<open>Facts on the emitter\<close>

text \<open>A run of emits, and the envelopes it makes.\<close>

fun emit_all ::
  "(event_envelope \<Rightarrow> ('s, unit) rpc) \<Rightarrow> (u64 \<times> string \<times> event_payload) list \<Rightarrow> ('s event_emitter, unit) rpc" where
  "emit_all emit [] em = (Ok (), em)"
| "emit_all emit ((ts, ty, pl) # es) em = bind_st (emitter_emit emit ts ty pl em) (\<lambda>_ em. emit_all emit es em)"

fun envelopes :: "'s event_emitter \<Rightarrow> (u64 \<times> string \<times> event_payload) list \<Rightarrow> event_envelope list" where
  "envelopes em [] = []"
| "envelopes em ((ts, ty, pl) # es) = envelope_of em ts ty pl # envelopes (em\<lparr>ee_next_seq := ee_next_seq em + 1\<rparr>) es"

lemma envelope_of_cong:
  "ee_run_id em' = ee_run_id em \<Longrightarrow> ee_producer_id em' = ee_producer_id em \<Longrightarrow> ee_next_seq em' = ee_next_seq em
    \<Longrightarrow> envelope_of em' ts ty pl = envelope_of em ts ty pl"
  by (simp add: envelope_of_def)

lemma envelopes_cong:
  "ee_run_id em' = ee_run_id em \<Longrightarrow> ee_producer_id em' = ee_producer_id em \<Longrightarrow> ee_next_seq em' = ee_next_seq em
    \<Longrightarrow> envelopes em' es = envelopes em es"
proof (induction em es arbitrary: em' rule: envelopes.induct)
  case (2 em ts ty pl es)
  then show ?case using envelope_of_cong[of em' em] by simp
qed simp

text \<open>
  The books of the emitter after the envelopes \<open>sent\<close>, on a log that held \<open>base\<close>: every envelope was
  delivered, is pending or was dropped; delivered and pending ones are in the order of emission; the
  pending ones are the most recent.
\<close>

definition accounts :: "('s \<Rightarrow> event_envelope list) \<Rightarrow> event_envelope list \<Rightarrow> event_envelope list \<Rightarrow> 's event_emitter \<Rightarrow> bool" where
  "accounts logged base sent em \<longleftrightarrow> (\<exists>d. logged (ee_sink em) = base @ d \<and> subseq (d @ ee_ring em) sent \<and> suffix (ee_ring em) sent
     \<and> length sent = length d + length (ee_ring em) + unat (ee_dropped_total em))
     \<and> length (ee_ring em) \<le> ee_capacity em \<and> 0 < ee_capacity em"

locale recording_sink =
  fixes emit :: "event_envelope \<Rightarrow> ('s, unit) rpc"
    and logged :: "'s \<Rightarrow> event_envelope list"
  assumes accepted: "emit e s = (Ok u, s') \<Longrightarrow> logged s' = logged s @ [e]"
    and refused: "emit e s = (r, s') \<Longrightarrow> r \<noteq> Ok () \<Longrightarrow> logged s' = logged s"
begin

text \<open>What reached the log is a prefix of the ring; the rest stays, in order.\<close>

lemma flush_loop_moves:
  "flush_loop emit ring s = (r, ring', s') \<Longrightarrow> \<exists>d. ring = d @ ring' \<and> logged s' = logged s @ d"
proof (induction ring arbitrary: s)
  case (Cons e ring)
  obtain r1 s1 where e: "emit e s = (r1, s1)" by fastforce
  show ?case
  proof (cases r1)
    case (Ok u)
    then obtain d where "ring = d @ ring'" "logged s' = logged s1 @ d" using Cons e by fastforce
    then show ?thesis using accepted e Ok by (intro exI[of _ "e # d"]) simp
  qed (use Cons.prems e refused[OF e] in auto)
qed simp

lemma flush_moves:
  assumes "emitter_flush emit em = (r, em')"
  obtains d where "ee_ring em = d @ ee_ring em'" "logged (ee_sink em') = logged (ee_sink em) @ d"
    "ee_run_id em' = ee_run_id em" "ee_producer_id em' = ee_producer_id em" "ee_next_seq em' = ee_next_seq em"
    "ee_capacity em' = ee_capacity em" "ee_dropped_total em' = ee_dropped_total em"
proof -
  obtain r' ring s where f: "flush_loop emit (ee_ring em) (ee_sink em) = (r', ring, s)" by (metis prod_cases3)
  then have "em' = em\<lparr>ee_ring := ring, ee_sink := s\<rparr>" using assms by (simp add: emitter_flush_def)
  then show ?thesis using flush_loop_moves[OF f] that by auto
qed

lemma accounts_flush:
  assumes "emitter_flush emit em = (r, em')" "accounts logged base sent em"
  shows "accounts logged base sent em'"
proof -
  obtain d where d: "ee_ring em = d @ ee_ring em'" "logged (ee_sink em') = logged (ee_sink em) @ d"
    "ee_capacity em' = ee_capacity em" "ee_dropped_total em' = ee_dropped_total em"
    using flush_moves[OF assms(1)] by metis
  obtain d0 where "logged (ee_sink em) = base @ d0" "subseq (d0 @ ee_ring em) sent" "suffix (ee_ring em) sent"
    "length sent = length d0 + length (ee_ring em) + unat (ee_dropped_total em)"
    using assms(2) by (auto simp: accounts_def)
  then show ?thesis
    using assms(2) d by (auto simp: accounts_def intro!: exI[of _ "d0 @ d"] dest: suffix_appendD)
qed

lemma accounts_drop:
  assumes "drop_oldest em = (Ok (), em')" "accounts logged base sent em" "length (ee_ring em) = ee_capacity em"
  shows "accounts logged base sent em' \<and> length (ee_ring em') < ee_capacity em' \<and> ee_run_id em' = ee_run_id em
    \<and> ee_producer_id em' = ee_producer_id em \<and> ee_next_seq em' = ee_next_seq em \<and> ee_capacity em' = ee_capacity em"
proof -
  obtain x ring where r: "ee_ring em = x # ring" using assms(2,3) by (cases "ee_ring em") (auto simp: accounts_def)
  obtain d0 where d0: "logged (ee_sink em) = base @ d0" "subseq (d0 @ ee_ring em) sent" "suffix (ee_ring em) sent"
    "length sent = length d0 + length (ee_ring em) + unat (ee_dropped_total em)"
    using assms(2) by (auto simp: accounts_def)
  have "subseq (d0 @ ring) (d0 @ ee_ring em)" unfolding r by (intro list_emb_append_mono) auto
  then have "subseq (d0 @ ring) sent" using d0(2) by (rule subseq_order.order_trans)
  then show ?thesis
    using assms d0 r by (auto simp: drop_oldest_def accounts_def bind_st_Ok Let_def res_simps unat_add_no_overflow
        intro!: exI[of _ d0] dest: suffix_ConsD)
qed

lemma accounts_push:
  assumes "accounts logged base sent em" "length (ee_ring em) < ee_capacity em"
  shows "accounts logged base (sent @ [e]) (em\<lparr>ee_ring := ee_ring em @ [e]\<rparr>)"
proof -
  obtain d where d: "logged (ee_sink em) = base @ d" "subseq (d @ ee_ring em) sent" "suffix (ee_ring em) sent"
    "length sent = length d + length (ee_ring em) + unat (ee_dropped_total em)"
    using assms(1) by (auto simp: accounts_def)
  have "subseq ((d @ ee_ring em) @ [e]) (sent @ [e])" using d(2) by (rule list_emb_append_mono) simp
  then show ?thesis
    using assms d by (auto simp: accounts_def suffix_def intro!: exI[of _ d])
qed

lemma accounts_emit:
  assumes "emitter_emit emit ts ty pl em = (Ok (), em')" "accounts logged base sent em"
  shows "accounts logged base (sent @ [envelope_of em ts ty pl]) em' \<and> ee_run_id em' = ee_run_id em
    \<and> ee_producer_id em' = ee_producer_id em \<and> ee_next_seq em' = ee_next_seq em + 1 \<and> ee_capacity em' = ee_capacity em"
proof -
  let ?e = "envelope_of em ts ty pl" and ?em = "em\<lparr>ee_next_seq := ee_next_seq em + 1\<rparr>"
  obtain u1 em1 u2 em2 where f: "emitter_flush emit ?em = (Ok u1, em1)"
    and d: "(if length (ee_ring em1) = ee_capacity em1 then drop_oldest em1 else (Ok (), em1)) = (Ok u2, em2)"
    and g: "emitter_flush emit (em2\<lparr>ee_ring := ee_ring em2 @ [?e]\<rparr>) = (Ok (), em')"
    using assms(1) by (auto simp: emitter_emit_def bind_st_Ok Let_def res_simps)
  have "accounts logged base sent ?em" using assms(2) by (simp add: accounts_def)
  then have a1: "accounts logged base sent em1" by (rule accounts_flush[OF f])
  have a2: "accounts logged base sent em2 \<and> length (ee_ring em2) < ee_capacity em2 \<and> ee_run_id em2 = ee_run_id em1
      \<and> ee_producer_id em2 = ee_producer_id em1 \<and> ee_next_seq em2 = ee_next_seq em1 \<and> ee_capacity em2 = ee_capacity em1"
    using d a1 accounts_drop[of em1 em2 base sent] by (auto simp: accounts_def split: if_splits)
  then have "accounts logged base (sent @ [?e]) em'" using accounts_flush[OF g] accounts_push by blast
  moreover obtain d1 where "ee_run_id em1 = ee_run_id ?em" "ee_producer_id em1 = ee_producer_id ?em"
    "ee_next_seq em1 = ee_next_seq ?em" "ee_capacity em1 = ee_capacity ?em" by (rule flush_moves[OF f])
  moreover obtain d2 where "ee_run_id em' = ee_run_id em2" "ee_producer_id em' = ee_producer_id em2"
    "ee_next_seq em' = ee_next_seq em2" "ee_capacity em' = ee_capacity em2" by (rule flush_moves[OF g]) simp
  ultimately show ?thesis using a2 by simp
qed

lemma accounts_emit_all:
  assumes "emit_all emit es em = (Ok (), em')" "accounts logged base sent em"
  shows "accounts logged base (sent @ envelopes em es) em' \<and> ee_capacity em' = ee_capacity em"
  using assms
proof (induction es arbitrary: em sent)
  case (Cons x es)
  obtain ts ty pl where x: "x = (ts, ty, pl)" by (cases x)
  obtain u em1 where e: "emitter_emit emit ts ty pl em = (Ok u, em1)" and rest: "emit_all emit es em1 = (Ok (), em')"
    using Cons.prems(1) by (auto simp: x bind_st_Ok)
  have a: "accounts logged base (sent @ [envelope_of em ts ty pl]) em1" "ee_run_id em1 = ee_run_id em"
    "ee_producer_id em1 = ee_producer_id em" "ee_next_seq em1 = ee_next_seq em + 1" "ee_capacity em1 = ee_capacity em"
    using accounts_emit[OF _ Cons.prems(2)] e by auto
  have "envelopes em1 es = envelopes (em\<lparr>ee_next_seq := ee_next_seq em + 1\<rparr>) es" by (rule envelopes_cong) (simp_all add: a)
  then show ?case using Cons.IH[OF rest a(1)] a(5) by (simp add: x)
qed simp

text \<open>A sink that refuses nothing leaves nothing pending.\<close>

lemma flush_empties:
  assumes "\<And>e s r s'. I s \<Longrightarrow> emit e s = (r, s') \<Longrightarrow> I s' \<and> (\<forall>x. r \<noteq> Err x)"
    and "I s" "flush_loop emit ring s = (Ok (), ring', s')"
  shows "ring' = [] \<and> I s'"
  using assms(2,3)
proof (induction ring arbitrary: s)
  case (Cons e ring)
  obtain r1 s1 where e: "emit e s = (r1, s1)" by fastforce
  then show ?case using Cons.IH[of s1] Cons.prems assms(1)[OF Cons.prems(1) e] by (cases r1) auto
qed simp

lemma emit_all_empties:
  assumes "\<And>e s r s'. I s \<Longrightarrow> emit e s = (r, s') \<Longrightarrow> I s' \<and> (\<forall>x. r \<noteq> Err x)"
    and "I (ee_sink em)" "ee_ring em = []" "0 < ee_capacity em" "emit_all emit es em = (Ok (), em')"
  shows "ee_ring em' = [] \<and> ee_dropped_total em' = ee_dropped_total em"
  using assms(2-)
proof (induction es arbitrary: em)
  case (Cons x es)
  obtain ts ty pl where x: "x = (ts, ty, pl)" by (cases x)
  obtain u em1 where e: "emitter_emit emit ts ty pl em = (Ok u, em1)" and rest: "emit_all emit es em1 = (Ok (), em')"
    using Cons.prems(4) by (auto simp: x bind_st_Ok)
  let ?e = "envelope_of em ts ty pl"
  have "emitter_flush emit (em\<lparr>ee_next_seq := ee_next_seq em + 1, ee_ring := [?e]\<rparr>) = (Ok u, em1)"
    using e Cons.prems(2,3) by (auto simp: emitter_emit_def bind_st_Ok Let_def res_simps emitter_flush_def)
  then obtain ring s where f: "flush_loop emit [?e] (ee_sink em) = (Ok u, ring, s)"
    and em1: "em1 = em\<lparr>ee_next_seq := ee_next_seq em + 1, ee_ring := ring, ee_sink := s\<rparr>"
    by (auto simp: emitter_flush_def Let_def split: prod.splits)
  have "ring = [] \<and> I s" by (rule flush_empties[where I = I, OF assms(1) Cons.prems(1)]) (use f in \<open>auto simp del: flush_loop.simps\<close>)
  then show ?case using Cons.IH[OF _ _ _ rest] Cons.prems(3) by (simp add: em1)
qed simp

end

interpretation observatory: recording_sink "observatory_emit blake3" fo_events for blake3
  by unfold_locales
    (auto simp: observatory_emit_def observatory_fault_def bind_st_eq Let_def split: res.splits prod.splits option.splits)

lemma envelopes_seq:
  "unat (ee_next_seq em) + length es < 2 ^ 64 \<Longrightarrow> k < length es
    \<Longrightarrow> length (envelopes em es) = length es \<and> unat (ev_seq (envelopes em es ! k)) = unat (ee_next_seq em) + k"
proof (induction em es arbitrary: k rule: envelopes.induct)
  case (2 em ts ty pl es)
  have n: "unat (ee_next_seq em + 1) = unat (ee_next_seq em) + 1"
    using 2(2) unat_add_no_overflow[of "ee_next_seq em" 1] by simp
  show ?case
  proof (cases k)
    case 0
    then show ?thesis using 2(1)[of 0] 2(2) n by (cases es) (auto simp: envelope_of_def)
  next
    case (Suc k')
    then show ?thesis using 2(1)[of k'] 2(2,3) n by simp
  qed
qed simp

lemma quiet_observatory:
  assumes "inj_plan (fo_fault_injector s) = plan_disabled sd" "observatory_emit blake3 e s = (r, s')"
  shows "inj_plan (fo_fault_injector s') = plan_disabled sd \<and> (\<forall>x. r \<noteq> Err x)"
proof -
  let ?q = "\<lparr>fq_target = TgtObservatory, fq_operation = ''emit'', fq_request_identity = ascii (ev_event_type e)\<rparr>"
  have n: "decision_client_error no_fault = None" by (simp add: decision_client_error_def no_fault_def)
  have "injector_decide blake3 (fo_fault_injector s) ?q 0 = Ok (d, fi) \<Longrightarrow> d = no_fault \<and> inj_plan fi = plan_disabled sd" for d fi
    using assms(1) by (auto simp: injector_decide_Ok injector_peek_def decide_disabled)
  moreover have "injector_decide blake3 (fo_fault_injector s) ?q 0 \<noteq> Err x" for x
    using assms(1) by (auto simp: injector_decide_def decide_disabled Let_def res_simps add_or_panic_def split: if_splits)
  ultimately show ?thesis
    using assms n by (cases "injector_decide blake3 (fo_fault_injector s) ?q 0")
      (auto simp: observatory_emit_def observatory_fault_def Let_def)
qed

text \<open>C25: The books of the event emitter balance. After any run of emits, over a sink that fails as its fault plan
  says, every envelope was delivered, is pending or was dropped, and the counter of drops is exact; delivered
  and pending envelopes are in the order of emission, numbered from one; the ring never exceeds its capacity
  and holds the most recent envelopes. When the sink injects no fault everything is delivered.\<close>

theorem emitter_accounting:
  fixes s run_id producer_id capacity
  defines "em0 \<equiv> emitter_with_capacity (emitter_new s run_id producer_id) capacity"
  assumes run: "emit_all (observatory_emit blake3) es em0 = (Ok (), em)" and n: "length es < 2 ^ 64 - 1"
  shows "\<exists>d. fo_events (ee_sink em) = fo_events s @ d
      \<and> subseq (d @ ee_ring em) (envelopes em0 es) \<and> suffix (ee_ring em) (envelopes em0 es)
      \<and> length es = length d + length (ee_ring em) + unat (ee_dropped_total em)
      \<and> length (ee_ring em) \<le> max capacity 1
      \<and> (\<forall>k < length es. unat (ev_seq (envelopes em0 es ! k)) = Suc k)
      \<and> (\<forall>sd. inj_plan (fo_fault_injector s) = plan_disabled sd \<longrightarrow> d = envelopes em0 es)"
proof -
  have e0: "ee_sink em0 = s" "ee_ring em0 = []" "ee_dropped_total em0 = 0" "ee_capacity em0 = max capacity 1"
    "ee_next_seq em0 = 1" by (simp_all add: em0_def emitter_with_capacity_def emitter_new_def)
  have "accounts fo_events (fo_events s) [] em0" by (simp add: accounts_def e0)
  from observatory.accounts_emit_all[OF run this] obtain d where
    d: "fo_events (ee_sink em) = fo_events s @ d" "subseq (d @ ee_ring em) (envelopes em0 es)"
      "suffix (ee_ring em) (envelopes em0 es)"
      "length (envelopes em0 es) = length d + length (ee_ring em) + unat (ee_dropped_total em)"
      "length (ee_ring em) \<le> max capacity 1"
    by (auto simp: accounts_def e0)
  have seqs: "length (envelopes em0 es) = length es \<and> unat (ev_seq (envelopes em0 es ! k)) = Suc k" if "k < length es" for k
    using envelopes_seq[of em0 es k] that n by (simp add: e0)
  have len: "length (envelopes em0 es) = length es" using seqs[of 0] by (cases es) auto
  have "d = envelopes em0 es" if sd: "inj_plan (fo_fault_injector s) = plan_disabled sd" for sd
  proof -
    let ?I = "\<lambda>s. inj_plan (fo_fault_injector s) = plan_disabled sd"
    have keep: "?I s' \<Longrightarrow> observatory_emit blake3 e s' = (r, s'') \<Longrightarrow> ?I s'' \<and> (\<forall>x. r \<noteq> Err x)" for e s' r s''
      by (rule quiet_observatory)
    have "?I (ee_sink em0)" "0 < ee_capacity em0" by (simp_all add: e0 sd)
    from observatory.emit_all_empties[where I = ?I, OF keep this(1) e0(2) this(2) run]
    have "ee_ring em = [] \<and> ee_dropped_total em = ee_dropped_total em0" .
    then show ?thesis using d(2,4) subseq_same_length[of d "envelopes em0 es"] by (simp add: e0)
  qed
  moreover have "length es = length d + length (ee_ring em) + unat (ee_dropped_total em)" using d(4) len by (rule trans[OF sym, rotated])
  moreover have "\<forall>k < length es. unat (ev_seq (envelopes em0 es ! k)) = Suc k" using seqs by blast
  ultimately show ?thesis using d(1-3,5) by (intro exI[of _ d] conjI) blast+
qed

definition example_event :: "u64 \<times> string \<times> event_payload" where
  "example_event = (7, ''checkpoint'', checkpoint_payload 1 7 2)"

lemma example_emit:
  "\<exists>em. emit_all (observatory_emit (\<lambda>_. [])) [example_event]
     (emitter_with_capacity (emitter_new observatory_new ''r'' ''p'') 4) = (Ok (), em)"
  by (simp add: example_event_def emitter_emit_def emitter_with_capacity_def emitter_new_def emitter_flush_def
      observatory_emit_def observatory_fault_def observatory_new_def observatory_with_fault_plan_def injector_new_def
      injector_decide_def attempt_of_def decide_disabled add_or_panic_def decision_client_error_def no_fault_def Let_def)

theorem emitter_accounting_witness:
  "\<exists>em. emit_all (observatory_emit (\<lambda>_. [])) [example_event]
      (emitter_with_capacity (emitter_new observatory_new ''r'' ''p'') 4) = (Ok (), em)
    \<and> length (fo_events (ee_sink em)) = 1"
proof -
  obtain em where em: "emit_all (observatory_emit (\<lambda>_. [])) [example_event]
      (emitter_with_capacity (emitter_new observatory_new ''r'' ''p'') 4) = (Ok (), em)" using example_emit by blast
  have "inj_plan (fo_fault_injector observatory_new) = plan_disabled 0"
    by (simp add: observatory_new_def observatory_with_fault_plan_def injector_new_def)
  with emitter_accounting[OF em] have "\<exists>d. fo_events (ee_sink em) = fo_events observatory_new @ d \<and> length d = 1"
    by (auto simp: example_event_def)
  then show ?thesis using em by (auto simp: observatory_new_def observatory_with_fault_plan_def)
qed

end
