(* ===== verification/Worker_Api.thy ===== *)
theory Worker_Api
  imports Store_Api
begin

text \<open>
  The worker boundary (\<open>crates/orch-clients/src/hypervisor.rs\<close>): requests, responses and slot data of the
  hypervisor worker. Unit requests and single-field requests are passed as their fields; fixed-length byte
  arrays are byte lists.
\<close>

section \<open>Slots, leases and machines\<close>

datatype slot_id = SlotId (slot_id_get: u64)
datatype lease_token = LeaseToken (lease_token_bytes: "u8 list")
datatype entropy_seed = EntropySeed (entropy_seed_bytes: "u8 list")
datatype digest32 = Digest32 (digest32_bytes: "u8 list")

definition LEASE_TOKEN_LEN :: nat where "LEASE_TOKEN_LEN = 16"
definition ENTROPY_SEED_LEN :: nat where "ENTROPY_SEED_LEN = 32"

instantiation slot_id :: linorder
begin
definition less_eq_slot_id :: "slot_id \<Rightarrow> slot_id \<Rightarrow> bool" where
  "less_eq_slot_id a b \<longleftrightarrow> slot_id_get a \<le> slot_id_get b"
definition less_slot_id :: "slot_id \<Rightarrow> slot_id \<Rightarrow> bool" where
  "less_slot_id a b \<longleftrightarrow> slot_id_get a < slot_id_get b"
instance
  by standard (auto simp: less_eq_slot_id_def less_slot_id_def slot_id.expand)
end

instantiation snapshot_ref :: linorder
begin
definition less_eq_snapshot_ref :: "snapshot_ref \<Rightarrow> snapshot_ref \<Rightarrow> bool" where
  "less_eq_snapshot_ref a b \<longleftrightarrow> snapshot_bytes a \<le> snapshot_bytes b"
definition less_snapshot_ref :: "snapshot_ref \<Rightarrow> snapshot_ref \<Rightarrow> bool" where
  "less_snapshot_ref a b \<longleftrightarrow> snapshot_bytes a < snapshot_bytes b"
instance
  by standard (auto simp: less_eq_snapshot_ref_def less_snapshot_ref_def snapshot_ref.expand)
end

record lease =
  le_slot_id :: slot_id
  le_token :: lease_token

datatype hash_epochs = HashEpochsUnspecified | EpochsOn | FinalOnly

record elf_boot =
  eb_kernel_hash :: digest32
  eb_cmdline :: "u8 list"

record bz_image_boot =
  bz_kernel_hash :: digest32
  bz_initramfs_hash :: digest32
  bz_cmdline :: "u8 list"

datatype boot_spec = BootElf elf_boot | BootBzImage bz_image_boot

record machine_config =
  mc_version :: u32
  mc_mem_bytes :: u64
  mc_vcpus :: u32
  mc_clock_num :: u32
  mc_clock_den :: u32
  mc_base_image_hash :: digest32
  mc_boot :: boot_spec
  mc_epoch_len :: guest_instructions
  mc_hash_epochs :: hash_epochs
  mc_skid_margin :: u32

record determinism_class =
  dc_cpu_model :: string
  dc_microcode :: string
  dc_host_kernel :: string
  dc_vmm_version :: string

datatype slot_state = SlotUnspecified | SlotEmpty | SlotPaused | SlotRunning | SlotFrozen | SlotFaulted

record slot_info =
  si_slot_id :: slot_id
  si_state :: slot_state
  si_icount :: guest_instructions
  si_base :: "snapshot_ref option"
  si_live_children :: u32

section \<open>Inputs, captures and runs\<close>

record pad_set =
  ps_port :: u32
  ps_buttons :: u32

record device_event =
  de_device_id :: u32
  de_event_type :: u32
  de_payload :: "u8 list"

datatype input_event = PadSet pad_set | DeviceEvent device_event | NetRx "u8 list"

datatype schedule_at = AtIcount guest_instructions | AtVns u64 | AtFrame frame_count

record scheduled_event =
  sv_at :: schedule_at
  sv_event :: input_event

record capture_range =
  xr_region :: string
  xr_layout_version :: u32
  xr_offset :: u64
  xr_len :: u32

record capture_spec =
  cs_ranges :: "capture_range list"
  cs_framebuffer :: bool

datatype pixel_format = PixelUnspecified | Xrgb8888 | Rgb565

record fb_info =
  fb_width :: u32
  fb_height :: u32
  fb_stride :: u32
  fb_format :: pixel_format
  fb_frame_counter :: frame_count

datatype mem_predicate_op = OpUnspecified | OpEq | OpNe | OpGe | OpLe

record mem_predicate =
  mp_gpa :: u64
  mp_width :: u32
  mp_mask :: u64
  mp_op :: mem_predicate_op
  mp_value :: u64

record goal_condition =
  gc_all_of :: "mem_predicate list"
  gc_poll_period :: "guest_instructions option"

datatype run_until =
    IcountBudget guest_instructions
  | VnsBudget u64
  | FrameBudget frame_count
  | UntilNextSdkEvent "u32 option"
  | UntilGoal goal_condition

datatype stop_reason =
    StopUnspecified
  | BudgetReached
  | GoalSatisfied
  | NextSdkEvent
  | HardCap
  | StopPaused
  | GuestHalted
  | StopFaulted

record guest_event =
  gv_stream :: u32
  gv_icount :: guest_instructions
  gv_vns :: u64
  gv_payload :: "u8 list"

section \<open>Requests and responses\<close>

record create_vm_request =
  cv_config :: machine_config
  cv_entropy_seed :: entropy_seed

record create_vm_response =
  cvr_lease :: lease
  cvr_icount :: guest_instructions

record restore_snapshot_request =
  rs_snapshot :: snapshot_ref
  rs_entropy_seed :: "entropy_seed option"

record restore_snapshot_response =
  rsr_lease :: lease
  rsr_config :: machine_config
  rsr_state_hash :: state_hash
  rsr_frame_counter :: frame_count

record fork_request =
  fk_parent :: lease
  fk_count :: u32
  fk_entropy_seeds :: "entropy_seed list"

definition fork_validate :: "fork_request \<Rightarrow> (client_error, unit) res" where
  "fork_validate r =
     (if fk_count r = 0 then Err (ClientError InvalidRequest ''fork count must be nonzero'')
      else if length (fk_entropy_seeds r) \<noteq> unat (fk_count r)
      then Err (ClientError InvalidRequest ''fork entropy seed count must match fork count'')
      else Ok ())"

definition fork_request_new :: "lease \<Rightarrow> entropy_seed list \<Rightarrow> (client_error, fork_request) res" where
  "fork_request_new parent seeds =
     (if 2 ^ 32 \<le> length seeds then Err (ClientError InvalidRequest ''fork entropy seed count exceeds u32'')
      else let r = \<lparr>fk_parent = parent, fk_count = word_of_nat (length seeds), fk_entropy_seeds = seeds\<rparr>
           in bind_res (fork_validate r) (\<lambda>_. Ok r))"

record inject_inputs_request =
  ii_lease :: lease
  ii_events :: "scheduled_event list"

record run_request =
  rr_lease :: lease
  rr_until :: run_until
  rr_hard_icount_cap :: "guest_instructions option"
  rr_capture :: "capture_spec option"

record run_response =
  rrr_reason :: stop_reason
  rrr_icount :: guest_instructions
  rrr_vns :: u64
  rrr_state_hash :: state_hash
  rrr_frames_elapsed :: u64
  rrr_sdk_event :: "guest_event option"
  rrr_feature_bytes :: "u8 list option"
  rrr_fb_lz4 :: "u8 list option"
  rrr_fb_info :: "fb_info option"

record take_snapshot_request =
  ts_lease :: lease
  ts_seal_input_log :: bool
  ts_capture :: "capture_spec option"

record take_snapshot_response =
  tsr_snapshot :: snapshot_ref
  tsr_input_log_id :: "input_log_id option"
  tsr_icount :: guest_instructions
  tsr_vns :: u64
  tsr_state_hash :: state_hash
  tsr_dirty_pages :: u32
  tsr_machine_config_hash :: digest32
  tsr_determinism_class :: determinism_class
  tsr_feature_bytes :: "u8 list option"
  tsr_fb_lz4 :: "u8 list option"
  tsr_fb_info :: "fb_info option"
  tsr_frame_counter :: frame_count

record worker_info_response =
  wi_worker_id :: string
  wi_slots_total :: u32
  wi_slots_free :: u32
  wi_class :: determinism_class
  wi_version :: string

end
