(* ===== verification/Grid.thy ===== *)
theory Grid
  imports Client Rng
begin

text \<open>
  The deterministic grid world behind the fake worker and the fake scorer (\<open>crates/orch-fakes/src/grid.rs\<close>):
  rooms, walls, doors, a key, a boss and a goal, with the step function and the values the scorer derives
  from a state. The facts show that a step never leaves the grid, that locked doors guard what is behind
  them, and that both fixtures can be solved.
\<close>

unbundle bit_operations_syntax

section \<open>States and worlds\<close>

definition GRID_WIDTH :: u8 where "GRID_WIDTH = 5"
definition GRID_HEIGHT :: u8 where "GRID_HEIGHT = 5"
definition BOSS_MAX_HP :: u8 where "BOSS_MAX_HP = 3"
definition KEY_BOSS_DOOR :: u8 where "KEY_BOSS_DOOR = 1"

datatype room = RoomStart | RoomKeyVault | RoomBoss

fun room_id :: "room \<Rightarrow> u8" where
  "room_id RoomStart = 0"
| "room_id RoomKeyVault = 1"
| "room_id RoomBoss = 2"

datatype grid_action = Wait | Up | Down | Left | Right | Attack

fun action_tag :: "grid_action \<Rightarrow> u8" where
  "action_tag Wait = 0"
| "action_tag Up = 1"
| "action_tag Down = 2"
| "action_tag Left = 3"
| "action_tag Right = 4"
| "action_tag Attack = 5"

datatype step_outcome =
    Moved
  | BlockedByWall
  | BlockedByDoor
  | PickedKey
  | HitBoss
  | BossDefeated
  | StepGoalReached
  | Noop

record grid_state =
  gs_x :: u8
  gs_y :: u8
  gs_room :: room
  gs_keys :: u8
  gs_boss_hp :: u8

definition grid_state_new :: grid_state where
  "grid_state_new = \<lparr>gs_x = 0, gs_y = 2, gs_room = RoomStart, gs_keys = 0, gs_boss_hp = BOSS_MAX_HP\<rparr>"

definition has_key :: "grid_state \<Rightarrow> bool" where
  "has_key s \<longleftrightarrow> gs_keys s AND KEY_BOSS_DOOR \<noteq> 0"

definition default_goal_reached :: "grid_state \<Rightarrow> bool" where
  "default_goal_reached s \<longleftrightarrow> gs_room s = RoomBoss \<and> gs_boss_hp s = 0 \<and> gs_x s = 4 \<and> gs_y s = 0"

definition grid_state_hash :: "(u8 list \<Rightarrow> u8 list) \<Rightarrow> grid_state \<Rightarrow> state_hash" where
  "grid_state_hash blake3 s =
     StateHash (blake3 (ascii ''orch-fakes/grid-state/v1'' @ [room_id (gs_room s), gs_x s, gs_y s, gs_keys s, gs_boss_hp s]))"

definition grid_cell_key :: "grid_state \<Rightarrow> cell_key" where
  "grid_cell_key s =
     (let room = ucast (room_id (gs_room s)) :: u64; x = ucast (gs_x s); y = ucast (gs_y s);
          keys = ucast (gs_keys s); boss_hp = ucast (gs_boss_hp s)
      in CellKey (push_bit 48 boss_hp OR push_bit 40 keys OR push_bit 32 room OR push_bit 16 x OR y))"

record grid_pos =
  gp_room :: room
  gp_x :: u8
  gp_y :: u8

definition grid_pos_new :: "room \<Rightarrow> u8 \<Rightarrow> u8 \<Rightarrow> grid_pos" where
  "grid_pos_new r x y = \<lparr>gp_room = r, gp_x = x, gp_y = y\<rparr>"

definition pos_matches :: "grid_pos \<Rightarrow> grid_state \<Rightarrow> bool" where
  "pos_matches p s \<longleftrightarrow> room_id (gs_room s) = room_id (gp_room p) \<and> gs_x s = gp_x p \<and> gs_y s = gp_y p"

record grid_door =
  gd_at :: grid_pos
  gd_action :: grid_action
  gd_to :: grid_pos
  gd_requires_key :: bool

text \<open>The three per-room arrays are lists of length three.\<close>

record grid_world =
  gw_name :: string
  gw_start :: grid_pos
  gw_walls :: "grid_pos list"
  gw_doors :: "grid_door list"
  gw_key :: "grid_pos option"
  gw_boss :: "grid_pos option"
  gw_goal :: grid_pos
  gw_room_base_score :: "f64 list"
  gw_room_x_weight :: "f64 list"
  gw_room_y_weight :: "f64 list"
  gw_prune_cell :: "grid_pos option"

definition three_room :: grid_world where
  "three_room =
     (let walls = map (\<lambda>y. grid_pos_new RoomStart 1 (word_of_nat y)) (filter (\<lambda>y. y \<noteq> 2) [0..<unat GRID_HEIGHT])
            @ [grid_pos_new RoomKeyVault 3 1] @ map (\<lambda>x. grid_pos_new RoomBoss x 3) [1, 3]
      in \<lparr>gw_name = ''three-room'', gw_start = grid_pos_new RoomStart 0 2, gw_walls = walls,
          gw_doors =
            [\<lparr>gd_at = grid_pos_new RoomStart 4 2, gd_action = Right, gd_to = grid_pos_new RoomKeyVault 0 2, gd_requires_key = False\<rparr>,
             \<lparr>gd_at = grid_pos_new RoomKeyVault 0 2, gd_action = Left, gd_to = grid_pos_new RoomStart 4 2, gd_requires_key = False\<rparr>,
             \<lparr>gd_at = grid_pos_new RoomStart 2 0, gd_action = Up, gd_to = grid_pos_new RoomBoss 2 4, gd_requires_key = True\<rparr>],
          gw_key = Some (grid_pos_new RoomKeyVault 2 2), gw_boss = Some (grid_pos_new RoomBoss 2 2),
          gw_goal = grid_pos_new RoomBoss 4 0,
          gw_room_base_score = map f64_of_nat [0, 100, 200], gw_room_x_weight = map f64_of_nat [10, 10, 10],
          gw_room_y_weight = map f64_of_nat [1, 1, 1], gw_prune_cell = Some (grid_pos_new RoomStart 0 0)\<rparr>)"

definition corridor_hidden_key :: grid_world where
  "corridor_hidden_key =
     (let walls = concat (map (\<lambda>x. [grid_pos_new RoomStart (word_of_nat x) 3, grid_pos_new RoomStart (word_of_nat x) 4]
            @ (if x \<noteq> 0 then [grid_pos_new RoomStart (word_of_nat x) 1, grid_pos_new RoomStart (word_of_nat x) 0] else []))
            [0..<unat GRID_WIDTH])
      in \<lparr>gw_name = ''corridor-hidden-key'', gw_start = grid_pos_new RoomStart 0 2, gw_walls = walls,
          gw_doors =
            [\<lparr>gd_at = grid_pos_new RoomStart 0 0, gd_action = Up, gd_to = grid_pos_new RoomKeyVault 0 0, gd_requires_key = False\<rparr>,
             \<lparr>gd_at = grid_pos_new RoomKeyVault 4 0, gd_action = Up, gd_to = grid_pos_new RoomStart 0 2, gd_requires_key = False\<rparr>,
             \<lparr>gd_at = grid_pos_new RoomStart 4 2, gd_action = Right, gd_to = grid_pos_new RoomBoss 0 2, gd_requires_key = True\<rparr>],
          gw_key = Some (grid_pos_new RoomKeyVault 4 0), gw_boss = None, gw_goal = grid_pos_new RoomBoss 4 2,
          gw_room_base_score = map f64_of_nat [0, 0, 200], gw_room_x_weight = map f64_of_nat [10, 0, 10],
          gw_room_y_weight = map f64_of_nat [0, 0, 0], gw_prune_cell = None\<rparr>)"

section \<open>Stepping\<close>

definition boss_hp_max :: "grid_world \<Rightarrow> u8" where
  "boss_hp_max w = (case gw_boss w of None \<Rightarrow> 0 | Some _ \<Rightarrow> BOSS_MAX_HP)"

definition initial_state :: "grid_world \<Rightarrow> grid_state" where
  "initial_state w = \<lparr>gs_x = gp_x (gw_start w), gs_y = gp_y (gw_start w), gs_room = gp_room (gw_start w), gs_keys = 0,
     gs_boss_hp = (case gw_boss w of None \<Rightarrow> 0 | Some _ \<Rightarrow> BOSS_MAX_HP)\<rparr>"

definition goal_reached :: "grid_world \<Rightarrow> grid_state \<Rightarrow> bool" where
  "goal_reached w s \<longleftrightarrow> pos_matches (gw_goal w) s \<and> gs_boss_hp s = 0"

definition is_wall :: "grid_world \<Rightarrow> room \<Rightarrow> u8 \<Rightarrow> u8 \<Rightarrow> bool" where
  "is_wall w r x y \<longleftrightarrow> list_ex (\<lambda>p. gp_room p = r \<and> gp_x p = x \<and> gp_y p = y) (gw_walls w)"

text \<open>\<open>i8\<close> deltas are integers; the byte stays within its range or the result is \<open>None\<close>.\<close>

definition add_delta :: "u8 \<Rightarrow> int \<Rightarrow> u8 option" where
  "add_delta value dl =
     (if dl < 0 then (if nat (- dl) \<le> unat value then Some (value - word_of_int (- dl)) else None)
      else checked_add value (word_of_int dl))"

definition attack :: "grid_world \<Rightarrow> grid_state \<Rightarrow> step_outcome \<times> grid_state" where
  "attack w s = (case gw_boss w of
     None \<Rightarrow> (Noop, s)
   | Some boss \<Rightarrow>
       if \<not> pos_matches boss s \<or> gs_boss_hp s = 0 then (Noop, s)
       else let s = s\<lparr>gs_boss_hp := gs_boss_hp s - 1\<rparr>
            in (if gs_boss_hp s = 0 then BossDefeated else HitBoss, s))"

fun through_doors :: "grid_door list \<Rightarrow> grid_action \<Rightarrow> grid_state \<Rightarrow> (step_outcome \<times> grid_state) option" where
  "through_doors [] a s = None"
| "through_doors (d # ds) a s =
     (if pos_matches (gd_at d) s \<and> gd_action d = a
      then Some (if gd_requires_key d \<and> \<not> has_key s then (BlockedByDoor, s)
                 else (Moved, s\<lparr>gs_room := gp_room (gd_to d), gs_x := gp_x (gd_to d), gs_y := gp_y (gd_to d)\<rparr>))
      else through_doors ds a s)"

fun action_delta :: "grid_action \<Rightarrow> int \<times> int" where
  "action_delta Up = (0, - 1)"
| "action_delta Down = (0, 1)"
| "action_delta Left = (- 1, 0)"
| "action_delta Right = (1, 0)"
| "action_delta Wait = (0, 0)"
| "action_delta Attack = (0, 0)"

definition move_dir :: "grid_world \<Rightarrow> grid_state \<Rightarrow> grid_action \<Rightarrow> step_outcome \<times> grid_state" where
  "move_dir w s a =
     (case through_doors (gw_doors w) a s of
        Some r \<Rightarrow> r
      | None \<Rightarrow>
          let (dx, dy) = action_delta a in
          (case add_delta (gs_x s) dx of None \<Rightarrow> (BlockedByWall, s) | Some next_x \<Rightarrow>
          (case add_delta (gs_y s) dy of None \<Rightarrow> (BlockedByWall, s) | Some next_y \<Rightarrow>
             if GRID_WIDTH \<le> next_x \<or> GRID_HEIGHT \<le> next_y \<or> is_wall w (gs_room s) next_x next_y
             then (BlockedByWall, s)
             else (Moved, s\<lparr>gs_x := next_x, gs_y := next_y\<rparr>))))"

definition grid_step :: "grid_world \<Rightarrow> grid_state \<Rightarrow> grid_action \<Rightarrow> grid_state \<times> step_outcome" where
  "grid_step w s a =
     (let (outcome, s) = (case a of Wait \<Rightarrow> (Noop, s) | Attack \<Rightarrow> attack w s | _ \<Rightarrow> move_dir w s a)
      in case gw_key w of
           Some key \<Rightarrow>
             if pos_matches key s \<and> \<not> has_key s then (s\<lparr>gs_keys := gs_keys s OR KEY_BOSS_DOOR\<rparr>, PickedKey)
             else if goal_reached w s then (s, StepGoalReached) else (s, outcome)
         | None \<Rightarrow> if goal_reached w s then (s, StepGoalReached) else (s, outcome))"

definition apply_actions :: "grid_world \<Rightarrow> grid_state \<Rightarrow> grid_action list \<Rightarrow> grid_state" where
  "apply_actions w s actions = foldl (\<lambda>s a. fst (grid_step w s a)) s actions"

section \<open>Values for the scorer\<close>

definition room_index :: "f64 list \<Rightarrow> room \<Rightarrow> (client_error, f64) res" where
  "room_index xs r = index_vec xs (unat (room_id r))"

definition progress_score_value :: "grid_world \<Rightarrow> grid_state \<Rightarrow> (client_error, f64) res" where
  "progress_score_value w s =
     bind_res (room_index (gw_room_base_score w) (gs_room s)) (\<lambda>base.
     bind_res (room_index (gw_room_x_weight w) (gs_room s)) (\<lambda>xw.
     bind_res (room_index (gw_room_y_weight w) (gs_room s)) (\<lambda>yw.
       let v = f_add base (f_mul (f64_of_nat (unat (gs_x s))) xw);
           v = f_add v (f_mul (f64_of_nat (unat (saturating_sub (GRID_HEIGHT - 1) (gs_y s)))) yw);
           v = f_add v (if has_key s then f64_of_nat 25 else f64_of_nat 0);
           v = f_add v (f_mul (f64_of_nat (unat (saturating_sub (boss_hp_max w) (gs_boss_hp s)))) (f64_of_nat 40))
       in Ok (f_add v (if goal_reached w s then f64_of_nat 1000 else f64_of_nat 0)))))"

definition stage_value :: "grid_world \<Rightarrow> grid_state \<Rightarrow> u32" where
  "stage_value w s =
     (if goal_reached w s then 4
      else if gs_room s = RoomBoss then 3
      else if has_key s then 2
      else if gs_room s = RoomStart then 1
      else 0)"

definition prune_state :: "grid_world \<Rightarrow> grid_state \<Rightarrow> bool" where
  "prune_state w s \<longleftrightarrow> (case gw_prune_cell w of None \<Rightarrow> False | Some c \<Rightarrow> pos_matches c s)"

section \<open>A step stays in the world\<close>

definition pos_in_grid :: "grid_world \<Rightarrow> grid_pos \<Rightarrow> bool" where
  "pos_in_grid w p \<longleftrightarrow> gp_x p < GRID_WIDTH \<and> gp_y p < GRID_HEIGHT \<and> \<not> is_wall w (gp_room p) (gp_x p) (gp_y p)"

text \<open>A world whose start and door targets are free cells of the grid.\<close>

definition world_ok :: "grid_world \<Rightarrow> bool" where
  "world_ok w \<longleftrightarrow> pos_in_grid w (gw_start w) \<and> list_all (\<lambda>d. pos_in_grid w (gd_to d)) (gw_doors w)"

definition state_ok :: "grid_world \<Rightarrow> grid_state \<Rightarrow> bool" where
  "state_ok w s \<longleftrightarrow> gs_x s < GRID_WIDTH \<and> gs_y s < GRID_HEIGHT \<and> \<not> is_wall w (gs_room s) (gs_x s) (gs_y s)
     \<and> gs_keys s \<in> {0, KEY_BOSS_DOOR} \<and> gs_boss_hp s \<le> boss_hp_max w"

lemma initial_state_ok: "world_ok w \<Longrightarrow> state_ok w (initial_state w)"
  by (auto simp: world_ok_def pos_in_grid_def state_ok_def initial_state_def boss_hp_max_def split: option.splits)

lemma through_doors_cases:
  assumes "through_doors ds a s = Some (out, s')"
  shows "s' = s \<or> (\<exists>d \<in> set ds. pos_matches (gd_at d) s \<and> gd_action d = a \<and> (gd_requires_key d \<longrightarrow> has_key s)
     \<and> s' = s\<lparr>gs_room := gp_room (gd_to d), gs_x := gp_x (gd_to d), gs_y := gp_y (gd_to d)\<rparr>)"
  using assms by (induction ds) (auto split: if_splits)

text \<open>A move stays put, goes through a door, or goes to a free neighbour in the same room.\<close>

lemma move_dir_cases:
  assumes "move_dir w s a = (out, s')"
  obtains (stay) "s' = s"
  | (door) d where "d \<in> set (gw_doors w)" "gd_requires_key d \<Longrightarrow> has_key s" "pos_matches (gd_at d) s"
      "s' = s\<lparr>gs_room := gp_room (gd_to d), gs_x := gp_x (gd_to d), gs_y := gp_y (gd_to d)\<rparr>"
  | (walk) x y where "x < GRID_WIDTH" "y < GRID_HEIGHT" "\<not> is_wall w (gs_room s) x y" "s' = s\<lparr>gs_x := x, gs_y := y\<rparr>"
proof (cases "through_doors (gw_doors w) a s")
  case (Some r)
  then have "r = (out, s')" using assms by (simp add: move_dir_def)
  then show ?thesis using through_doors_cases[of "gw_doors w" a s out s'] Some stay door by blast
next
  case None
  obtain dx dy where d: "action_delta a = (dx, dy)" by fastforce
  have "s' = s \<or> (\<exists>x y. x < GRID_WIDTH \<and> y < GRID_HEIGHT \<and> \<not> is_wall w (gs_room s) x y \<and> s' = s\<lparr>gs_x := x, gs_y := y\<rparr>)"
    using assms None d by (cases "add_delta (gs_x s) dx"; cases "add_delta (gs_y s) dy")
      (auto simp: move_dir_def not_le split: if_splits)
  then show ?thesis using stay walk by blast
qed

lemma attack_cases:
  "snd (attack w s) = s \<or> gs_boss_hp s \<noteq> 0 \<and> snd (attack w s) = s\<lparr>gs_boss_hp := gs_boss_hp s - 1\<rparr>"
  by (auto simp: attack_def Let_def split: option.splits)

text \<open>The part of a step before key and goal are looked at.\<close>

definition base_step :: "grid_world \<Rightarrow> grid_state \<Rightarrow> grid_action \<Rightarrow> step_outcome \<times> grid_state" where
  "base_step w s a = (case a of Wait \<Rightarrow> (Noop, s) | Attack \<Rightarrow> attack w s | _ \<Rightarrow> move_dir w s a)"

lemma grid_step_eq:
  "fst (grid_step w s a) = (let s' = snd (base_step w s a) in
     if (\<exists>key. gw_key w = Some key \<and> pos_matches key s') \<and> \<not> has_key s' then s'\<lparr>gs_keys := gs_keys s' OR KEY_BOSS_DOOR\<rparr> else s')"
  by (auto simp: grid_step_def base_step_def Let_def split: option.splits prod.splits)

lemma base_step_cases:
  fixes w s a
  defines "s' \<equiv> snd (base_step w s a)"
  obtains (stay) "s' = s"
  | (hit) "gs_boss_hp s \<noteq> 0" "s' = s\<lparr>gs_boss_hp := gs_boss_hp s - 1\<rparr>"
  | (door) d where "d \<in> set (gw_doors w)" "gd_requires_key d \<Longrightarrow> has_key s" "pos_matches (gd_at d) s"
      "s' = s\<lparr>gs_room := gp_room (gd_to d), gs_x := gp_x (gd_to d), gs_y := gp_y (gd_to d)\<rparr>"
  | (walk) x y where "x < GRID_WIDTH" "y < GRID_HEIGHT" "\<not> is_wall w (gs_room s) x y" "s' = s\<lparr>gs_x := x, gs_y := y\<rparr>"
proof (cases "a = Wait \<or> a = Attack")
  case True
  then show ?thesis using stay hit attack_cases[of w s] unfolding s'_def by (auto simp: base_step_def)
next
  case False
  then have "move_dir w s a = (fst (move_dir w s a), s')" unfolding s'_def by (cases a) (auto simp: base_step_def)
  then show ?thesis by (cases rule: move_dir_cases) (auto intro: stay door walk)
qed

lemma key_cases: "gs_keys s \<in> {0, KEY_BOSS_DOOR} \<Longrightarrow> has_key s \<longleftrightarrow> gs_keys s = KEY_BOSS_DOOR"
  by (auto simp: has_key_def KEY_BOSS_DOOR_def)

lemma has_key_or [simp]: "has_key (s\<lparr>gs_keys := k OR KEY_BOSS_DOOR\<rparr>)"
  by (simp add: has_key_def KEY_BOSS_DOOR_def and_one_eq mod2_eq_if even_or_iff)

lemma less_word_pred: "(x :: 'a::len word) \<noteq> 0 \<Longrightarrow> x - 1 \<le> x"
  by (simp add: word_le_nat_alt unat_minus_one)

lemma base_step_ok:
  assumes "world_ok w" "state_ok w s"
  shows "state_ok w (snd (base_step w s a)) \<and> gs_boss_hp (snd (base_step w s a)) \<le> gs_boss_hp s
    \<and> gs_keys (snd (base_step w s a)) = gs_keys s"
proof (cases rule: base_step_cases[of w s a])
  case hit
  then show ?thesis using assms(2) less_word_pred[of "gs_boss_hp s"] by (auto simp: state_ok_def)
next
  case (door d)
  then have "pos_in_grid w (gd_to d)" using assms(1) by (simp add: world_ok_def list_all_iff)
  then show ?thesis using door assms(2) by (simp add: state_ok_def pos_in_grid_def)
qed (use assms(2) in \<open>simp_all add: state_ok_def\<close>)

lemma grid_step_ok:
  assumes "world_ok w" "state_ok w s"
  shows "state_ok w (fst (grid_step w s a)) \<and> gs_boss_hp (fst (grid_step w s a)) \<le> gs_boss_hp s
    \<and> (has_key s \<longrightarrow> has_key (fst (grid_step w s a)))"
proof -
  let ?s = "snd (base_step w s a)"
  have ok: "state_ok w ?s" "gs_boss_hp ?s \<le> gs_boss_hp s" "gs_keys ?s = gs_keys s" using base_step_ok[OF assms] by auto
  then have "has_key ?s \<longleftrightarrow> has_key s" by (simp add: has_key_def)
  moreover have "state_ok w (?s\<lparr>gs_keys := gs_keys ?s OR KEY_BOSS_DOOR\<rparr>)"
    using ok(1) by (auto simp: state_ok_def KEY_BOSS_DOOR_def)
  ultimately show ?thesis using ok by (auto simp: grid_step_eq Let_def)
qed

lemma apply_actions_snoc: "apply_actions w s (as @ [a]) = fst (grid_step w (apply_actions w s as) a)"
  by (simp add: apply_actions_def)

lemma apply_actions_ok:
  assumes "world_ok w" "state_ok w s"
  shows "state_ok w (apply_actions w s as)"
proof (induction as rule: rev_induct)
  case Nil
  show ?case using assms by (simp add: apply_actions_def)
next
  case (snoc a as)
  then show ?case using grid_step_ok[OF assms(1) snoc] by (simp add: apply_actions_snoc)
qed

section \<open>Locked doors\<close>

text \<open>A room that is entered only through locked doors, and where the search does not start.\<close>

definition guarded :: "grid_world \<Rightarrow> room \<Rightarrow> bool" where
  "guarded w r \<longleftrightarrow> gp_room (gw_start w) \<noteq> r
     \<and> list_all (\<lambda>d. gp_room (gd_to d) = r \<longrightarrow> gd_requires_key d \<or> gp_room (gd_at d) = r) (gw_doors w)"

lemma room_id_inject [simp]: "room_id a = room_id b \<longleftrightarrow> a = b"
  by (cases a; cases b) simp_all

lemma guarded_needs_key:
  assumes "guarded w r" "gs_room (apply_actions w (initial_state w) as) = r"
  shows "has_key (apply_actions w (initial_state w) as)"
  using assms(2)
proof (induction as rule: rev_induct)
  case Nil
  then show ?case using assms(1) by (simp add: apply_actions_def initial_state_def guarded_def)
next
  case (snoc a as)
  let ?s = "apply_actions w (initial_state w) as"
  let ?t = "snd (base_step w ?s a)"
  have room: "gs_room (fst (grid_step w ?s a)) = gs_room ?t" by (simp add: grid_step_eq Let_def)
  have "has_key ?t"
  proof (cases rule: base_step_cases[of w ?s a])
    case (door d)
    then have "gd_requires_key d \<or> gp_room (gd_at d) = r"
      using assms(1) snoc.prems room by (auto simp: guarded_def list_all_iff apply_actions_snoc)
    then have "has_key ?s" using door snoc.IH by (auto simp: pos_matches_def)
    then show ?thesis using door(4) by (simp add: has_key_def)
  qed (use snoc room in \<open>auto simp: apply_actions_snoc has_key_def\<close>)
  then show ?case by (auto simp: apply_actions_snoc grid_step_eq Let_def split: if_splits)
qed

section \<open>Cells\<close>

text \<open>The fields of a state, read back from its cell key.\<close>

lemma cell_key_fields:
  fixes s :: grid_state
  defines "k \<equiv> cell_key_get (grid_cell_key s)"
  shows "gs_y s = ucast k" "gs_x s = ucast (drop_bit 16 k)" "room_id (gs_room s) = ucast (drop_bit 32 k)"
    "gs_keys s = ucast (drop_bit 40 k)" "gs_boss_hp s = ucast (drop_bit 48 k)"
  by (rule bit_word_eqI; auto simp: k_def grid_cell_key_def Let_def bit_simps dest: bit_imp_le_length)+

text \<open>States that differ in position or in progress occupy different cells of the archive: the cell key of a grid
  state determines its room, its coordinates, its keys and the health of the boss.\<close>

theorem grid_cell_key_injective:
  "grid_cell_key s = grid_cell_key (t :: grid_state) \<longleftrightarrow> s = t"
proof
  assume eq: "grid_cell_key s = grid_cell_key t"
  have "gs_x s = gs_x t" "gs_y s = gs_y t" "gs_keys s = gs_keys t" "gs_boss_hp s = gs_boss_hp t"
      "room_id (gs_room s) = room_id (gs_room t)"
    unfolding cell_key_fields[of s] cell_key_fields[of t] by (simp_all only: eq)
  then show "s = t" by (intro grid_state.equality) simp_all
qed simp

section \<open>The fixtures\<close>

definition three_room_solution :: "grid_action list" where
  "three_room_solution = [Right, Right, Right, Right, Right, Right, Right, Left, Left, Left, Left, Left,
     Up, Up, Up, Up, Up, Attack, Attack, Attack, Right, Right, Up, Up]"

definition corridor_solution :: "grid_action list" where
  "corridor_solution = [Up, Up, Up, Right, Right, Right, Right, Up,
     Right, Right, Right, Right, Right, Right, Right, Right, Right]"

text \<open>The course of a run does not depend on the scores, which are left open here so that a run can be evaluated.\<close>

definition three_room_with :: "f64 list \<Rightarrow> f64 list \<Rightarrow> f64 list \<Rightarrow> grid_world" where
  "three_room_with a b c = \<lparr>gw_name = ''three-room'', gw_start = grid_pos_new RoomStart 0 2,
     gw_walls = map (\<lambda>y. grid_pos_new RoomStart 1 y) [0, 1, 3, 4]
       @ [grid_pos_new RoomKeyVault 3 1, grid_pos_new RoomBoss 1 3, grid_pos_new RoomBoss 3 3],
     gw_doors =
       [\<lparr>gd_at = grid_pos_new RoomStart 4 2, gd_action = Right, gd_to = grid_pos_new RoomKeyVault 0 2, gd_requires_key = False\<rparr>,
        \<lparr>gd_at = grid_pos_new RoomKeyVault 0 2, gd_action = Left, gd_to = grid_pos_new RoomStart 4 2, gd_requires_key = False\<rparr>,
        \<lparr>gd_at = grid_pos_new RoomStart 2 0, gd_action = Up, gd_to = grid_pos_new RoomBoss 2 4, gd_requires_key = True\<rparr>],
     gw_key = Some (grid_pos_new RoomKeyVault 2 2), gw_boss = Some (grid_pos_new RoomBoss 2 2),
     gw_goal = grid_pos_new RoomBoss 4 0, gw_room_base_score = a, gw_room_x_weight = b, gw_room_y_weight = c,
     gw_prune_cell = Some (grid_pos_new RoomStart 0 0)\<rparr>"

definition corridor_with :: "f64 list \<Rightarrow> f64 list \<Rightarrow> f64 list \<Rightarrow> grid_world" where
  "corridor_with a b c = \<lparr>gw_name = ''corridor-hidden-key'', gw_start = grid_pos_new RoomStart 0 2,
     gw_walls = [grid_pos_new RoomStart 0 3, grid_pos_new RoomStart 0 4] @
       concat (map (\<lambda>x. map (\<lambda>y. grid_pos_new RoomStart x y) [3, 4, 1, 0]) [1, 2, 3, 4]),
     gw_doors =
       [\<lparr>gd_at = grid_pos_new RoomStart 0 0, gd_action = Up, gd_to = grid_pos_new RoomKeyVault 0 0, gd_requires_key = False\<rparr>,
        \<lparr>gd_at = grid_pos_new RoomKeyVault 4 0, gd_action = Up, gd_to = grid_pos_new RoomStart 0 2, gd_requires_key = False\<rparr>,
        \<lparr>gd_at = grid_pos_new RoomStart 4 2, gd_action = Right, gd_to = grid_pos_new RoomBoss 0 2, gd_requires_key = True\<rparr>],
     gw_key = Some (grid_pos_new RoomKeyVault 4 0), gw_boss = None, gw_goal = grid_pos_new RoomBoss 4 2,
     gw_room_base_score = a, gw_room_x_weight = b, gw_room_y_weight = c, gw_prune_cell = None\<rparr>"

lemma three_room_eq: "\<exists>a b c. three_room = three_room_with a b c"
  by (simp add: three_room_def three_room_with_def Let_def GRID_HEIGHT_def upt_rec)

lemma corridor_eq: "\<exists>a b c. corridor_hidden_key = corridor_with a b c"
  by (simp add: corridor_hidden_key_def corridor_with_def Let_def GRID_WIDTH_def upt_rec)

lemma three_room_facts:
  "world_ok three_room" "guarded three_room RoomBoss" "gp_room (gw_goal three_room) = RoomBoss" "gw_boss three_room \<noteq> None"
  "goal_reached three_room (apply_actions three_room (initial_state three_room) three_room_solution)"
proof -
  obtain a b c where w: "three_room = three_room_with a b c" using three_room_eq by blast
  show "world_ok three_room" unfolding w by code_simp
  show "guarded three_room RoomBoss" unfolding w by code_simp
  show "gp_room (gw_goal three_room) = RoomBoss" unfolding w by code_simp
  show "gw_boss three_room \<noteq> None" unfolding w by code_simp
  show "goal_reached three_room (apply_actions three_room (initial_state three_room) three_room_solution)"
    unfolding w by code_simp
qed

lemma corridor_facts:
  "world_ok corridor_hidden_key" "guarded corridor_hidden_key RoomBoss" "gp_room (gw_goal corridor_hidden_key) = RoomBoss"
  "gw_boss corridor_hidden_key = None"
  "goal_reached corridor_hidden_key (apply_actions corridor_hidden_key (initial_state corridor_hidden_key) corridor_solution)"
proof -
  obtain a b c where w: "corridor_hidden_key = corridor_with a b c" using corridor_eq by blast
  show "world_ok corridor_hidden_key" unfolding w by code_simp
  show "guarded corridor_hidden_key RoomBoss" unfolding w by code_simp
  show "gp_room (gw_goal corridor_hidden_key) = RoomBoss" unfolding w by code_simp
  show "gw_boss corridor_hidden_key = None" unfolding w by code_simp
  show "goal_reached corridor_hidden_key (apply_actions corridor_hidden_key (initial_state corridor_hidden_key) corridor_solution)"
    unfolding w by code_simp
qed

text \<open>C37: The two search fixtures are sound. Whatever the inputs, a run stays on free cells of the grid and enters the
  boss room, where the goal is, only with the key; and the goal can be reached, in the corridor world with the
  actions Up, Right and Left alone.\<close>

theorem fixtures_sound:
  fixes w actions
  defines "s \<equiv> apply_actions w (initial_state w) actions"
  assumes "w = three_room \<or> w = corridor_hidden_key"
  shows "state_ok w s \<and> (gs_room s = RoomBoss \<longrightarrow> has_key s) \<and> (goal_reached w s \<longrightarrow> has_key s)
    \<and> (\<exists>solution. goal_reached w (apply_actions w (initial_state w) solution)
        \<and> (w = corridor_hidden_key \<longrightarrow> set solution \<subseteq> {Up, Left, Right}))"
proof -
  have w: "world_ok w" "guarded w RoomBoss" using assms(2) three_room_facts(1,2) corridor_facts(1,2) by auto
  have "state_ok w s" unfolding s_def by (intro apply_actions_ok initial_state_ok w(1))
  moreover have key: "gs_room s = RoomBoss \<Longrightarrow> has_key s" unfolding s_def by (rule guarded_needs_key[OF w(2)])
  moreover have "gp_room (gw_goal w) = RoomBoss"
    using assms(2) three_room_facts(3) corridor_facts(3) by auto
  then have "goal_reached w s \<Longrightarrow> gs_room s = RoomBoss" by (simp only: goal_reached_def pos_matches_def room_id_inject)
  moreover have "set corridor_solution \<subseteq> {Up, Left, Right}" by (auto simp: corridor_solution_def)
  moreover have "three_room \<noteq> corridor_hidden_key" using three_room_facts(4) corridor_facts(4) by metis
  ultimately show ?thesis using assms(2) three_room_facts(5) corridor_facts(5) by blast
qed

theorem fixtures_sound_witness:
  "\<exists>solution. goal_reached corridor_hidden_key
      (apply_actions corridor_hidden_key (initial_state corridor_hidden_key) solution) \<and> set solution \<subseteq> {Up, Left, Right}"
  using fixtures_sound[of corridor_hidden_key "[]"] by blast

end
