(* ===== verification/Fake_Hypervisor.thy ===== *)
theory Fake_Hypervisor
  imports Worker_Api Fault Grid "HOL-Library.Product_Lexorder"
begin

text \<open>
  The fake hypervisor worker over the grid world (\<open>crates/orch-fakes/src/hypervisor.rs\<close>): slots with leases,
  forks, scheduled inputs, bounded runs, snapshots and the slot-watch log. A \<open>BTreeMap\<close> is an association
  list with distinct keys. BLAKE3 and the serializer are parameters, collected in \<open>hv_env\<close>; requests that
  only feed the fault injector are named by a datatype, and the serializer gives each its bytes.
\<close>

unbundle bit_operations_syntax

section \<open>State\<close>

definition DEFAULT_SLOTS_TOTAL :: u32 where "DEFAULT_SLOTS_TOTAL = 8"
definition FAKE_HYPERVISOR_VERSION :: string where "FAKE_HYPERVISOR_VERSION = ''fake-hypervisor/0.1''"
definition ICOUNT_PER_FRAME :: u64 where "ICOUNT_PER_FRAME = 1000"
definition VNS_PER_FRAME :: u64 where "VNS_PER_FRAME = 16666667"
definition READY_PAYLOAD :: "u8 list" where "READY_PAYLOAD = ascii ''Ready''"
definition GRID_REGION :: string where "GRID_REGION = ''grid''"
definition GRID_LAYOUT_VERSION :: u32 where "GRID_LAYOUT_VERSION = 1"

definition BUTTON_ATTACK_A :: u32 where "BUTTON_ATTACK_A = 0x1"
definition BUTTON_ATTACK_B :: u32 where "BUTTON_ATTACK_B = 0x2"
definition BUTTON_ATTACK_Y :: u32 where "BUTTON_ATTACK_Y = 0x8"
definition BUTTON_UP :: u32 where "BUTTON_UP = 0x40"
definition BUTTON_DOWN :: u32 where "BUTTON_DOWN = 0x80"
definition BUTTON_LEFT :: u32 where "BUTTON_LEFT = 0x100"
definition BUTTON_RIGHT :: u32 where "BUTTON_RIGHT = 0x200"

record pending_action =
  pa_at_frame :: frame_count
  pa_order :: u64
  pa_action :: grid_action

record hv_slot =
  sl_lease :: lease
  sl_config :: machine_config
  sl_state :: grid_state
  sl_icount :: guest_instructions
  sl_frame_counter :: frame_count
  sl_vns :: u64
  sl_base :: "snapshot_ref option"
  sl_parent :: "slot_id option"
  sl_pending_actions :: "pending_action list"
  sl_input_log :: "scheduled_event list"
  sl_next_input_order :: u64
  sl_state_kind :: slot_state

record snapshot_record =
  sr_config :: machine_config
  sr_state :: grid_state
  sr_icount :: guest_instructions
  sr_frame_counter :: frame_count
  sr_vns :: u64
  sr_input_log :: "scheduled_event list"
  sr_pending_actions :: "pending_action list"
  sr_next_input_order :: u64
  sr_machine_config_hash :: digest32

record fake_hypervisor =
  hv_worker_id :: string
  hv_world :: grid_world
  hv_slots_total :: u32
  hv_class :: determinism_class
  hv_next_slot_id :: u64
  hv_slots :: "(slot_id, hv_slot) hash_map"
  hv_snapshots :: "(snapshot_ref, snapshot_record) hash_map"
  hv_watch_events :: "slot_info list"
  hv_watch_cursor :: nat
  hv_fault_injector :: fault_injector
  hv_last_fault :: "fault_decision option"

datatype worker_request =
    RqCreateVm create_vm_request
  | RqRestoreSnapshot restore_snapshot_request
  | RqFork fork_request
  | RqInjectInputs inject_inputs_request
  | RqRun run_request
  | RqTakeSnapshot take_snapshot_request
  | RqDestroyVm lease
  | RqListSlots
  | RqWatchSlots
  | RqWorkerInfo

record hv_env =
  he_blake3 :: "u8 list \<Rightarrow> u8 list"
  he_request_identity :: "worker_request \<Rightarrow> u8 list"
  he_config_bytes :: "machine_config \<Rightarrow> u8 list"
  he_input_log_bytes :: "scheduled_event list \<Rightarrow> u8 list"

definition fake_determinism_class :: determinism_class where
  "fake_determinism_class = \<lparr>dc_cpu_model = ''family-6-model-85-stepping-7'', dc_microcode = ''0x5003605'',
     dc_host_kernel = ''6.8.0-kvm'', dc_vmm_version = FAKE_HYPERVISOR_VERSION\<rparr>"

definition with_world_slots_and_fault_plan :: "grid_world \<Rightarrow> u32 \<Rightarrow> fault_plan \<Rightarrow> fake_hypervisor" where
  "with_world_slots_and_fault_plan w slots_total plan =
     \<lparr>hv_worker_id = ''fake-grid-worker-0'', hv_world = w, hv_slots_total = slots_total,
      hv_class = fake_determinism_class, hv_next_slot_id = 1, hv_slots = [], hv_snapshots = [],
      hv_watch_events = [], hv_watch_cursor = 0, hv_fault_injector = injector_new plan, hv_last_fault = None\<rparr>"

definition hypervisor_new :: fake_hypervisor where
  "hypervisor_new = with_world_slots_and_fault_plan three_room DEFAULT_SLOTS_TOTAL (plan_disabled 0)"

definition set_slots_total :: "fake_hypervisor \<Rightarrow> u32 \<Rightarrow> fake_hypervisor" where
  "set_slots_total h n = h\<lparr>hv_slots_total := n\<rparr>"

section \<open>Digests\<close>

definition digest_bytes :: "hv_env \<Rightarrow> u8 list \<Rightarrow> u8 list \<Rightarrow> u8 list" where
  "digest_bytes E domain bytes = he_blake3 E (domain @ to_le_bytes (word_of_nat (length bytes) :: u64) @ bytes)"

definition machine_config_hash :: "hv_env \<Rightarrow> machine_config \<Rightarrow> digest32" where
  "machine_config_hash E c = Digest32 (digest_bytes E (ascii ''orch-fakes/hypervisor/machine-config/v1'') (he_config_bytes E c))"

definition input_log_id_of :: "hv_env \<Rightarrow> scheduled_event list \<Rightarrow> input_log_id" where
  "input_log_id_of E evs = InputLogId (digest_bytes E (ascii ''orch-fakes/hypervisor/input-log/v1'') (he_input_log_bytes E evs))"

definition lease_token_of :: "hv_env \<Rightarrow> slot_id \<Rightarrow> machine_config \<Rightarrow> entropy_seed \<Rightarrow> lease_token" where
  "lease_token_of E i c e = LeaseToken (take LEASE_TOKEN_LEN (he_blake3 E
     (ascii ''orch-fakes/hypervisor/lease-token/v1'' @ to_le_bytes (slot_id_get i)
      @ digest32_bytes (machine_config_hash E c) @ entropy_seed_bytes e)))"

definition snapshot_ref_of ::
  "hv_env \<Rightarrow> machine_config \<Rightarrow> grid_state \<Rightarrow> guest_instructions \<Rightarrow> u64 \<Rightarrow> frame_count \<Rightarrow> scheduled_event list \<Rightarrow> snapshot_ref" where
  "snapshot_ref_of E c st icount vns frame_counter evs = SnapshotRef (he_blake3 E
     (ascii ''orch-fakes/hypervisor/snapshot/v1'' @ digest32_bytes (machine_config_hash E c)
      @ state_hash_bytes (grid_state_hash (he_blake3 E) st) @ to_le_bytes (guest_instructions_get icount)
      @ to_le_bytes vns @ to_le_bytes (frame_count_get frame_counter) @ input_log_bytes (input_log_id_of E evs)))"

definition zero_entropy_seed :: entropy_seed where "zero_entropy_seed = EntropySeed (replicate 32 0)"

section \<open>Slots\<close>

definition slot_new_root :: "lease \<Rightarrow> machine_config \<Rightarrow> grid_state \<Rightarrow> hv_slot" where
  "slot_new_root le c st = \<lparr>sl_lease = le, sl_config = c, sl_state = st, sl_icount = GuestInstructions 0,
     sl_frame_counter = FrameCount 0, sl_vns = 0, sl_base = None, sl_parent = None, sl_pending_actions = [],
     sl_input_log = [], sl_next_input_order = 0, sl_state_kind = SlotPaused\<rparr>"

definition slot_from_snapshot :: "lease \<Rightarrow> snapshot_ref \<Rightarrow> snapshot_record \<Rightarrow> hv_slot" where
  "slot_from_snapshot le sn r = \<lparr>sl_lease = le, sl_config = sr_config r, sl_state = sr_state r, sl_icount = sr_icount r,
     sl_frame_counter = sr_frame_counter r, sl_vns = sr_vns r, sl_base = Some sn, sl_parent = None,
     sl_pending_actions = sr_pending_actions r, sl_input_log = sr_input_log r,
     sl_next_input_order = sr_next_input_order r, sl_state_kind = SlotPaused\<rparr>"

definition clone_as_child :: "hv_slot \<Rightarrow> lease \<Rightarrow> slot_id \<Rightarrow> hv_slot" where
  "clone_as_child s le parent = s\<lparr>sl_lease := le, sl_parent := Some parent, sl_state_kind := SlotPaused\<rparr>"

definition live_children :: "fake_hypervisor \<Rightarrow> slot_id \<Rightarrow> hv_slot list" where
  "live_children h i = filter (\<lambda>s. sl_parent s = Some i) (map snd (hm_sorted (hv_slots h)))"

definition slot_info_of :: "fake_hypervisor \<Rightarrow> hv_slot \<Rightarrow> slot_info" where
  "slot_info_of h s =
     \<lparr>si_slot_id = le_slot_id (sl_lease s), si_state = sl_state_kind s, si_icount = sl_icount s, si_base = sl_base s,
      si_live_children = (let n = length (live_children h (le_slot_id (sl_lease s))) in
        if n < 2 ^ 32 then word_of_nat n else - 1)\<rparr>"

definition empty_slot_info :: "hv_slot \<Rightarrow> slot_info" where
  "empty_slot_info s = \<lparr>si_slot_id = le_slot_id (sl_lease s), si_state = SlotEmpty, si_icount = sl_icount s,
     si_base = sl_base s, si_live_children = 0\<rparr>"

definition push_slot_event :: "fake_hypervisor \<Rightarrow> slot_id \<Rightarrow> fake_hypervisor" where
  "push_slot_event h i = (case hm_get (hv_slots h) i of
     None \<Rightarrow> h
   | Some s \<Rightarrow> h\<lparr>hv_watch_events := hv_watch_events h @ [slot_info_of h s]\<rparr>)"

definition ensure_capacity :: "fake_hypervisor \<Rightarrow> u32 \<Rightarrow> (client_error, unit) res" where
  "ensure_capacity h needed =
     (let n = length (hv_slots h) in
      if 2 ^ 32 \<le> n then Err (ClientError Internal ''active slot count exceeds u32'')
      else if saturating_sub (hv_slots_total h) (word_of_nat n) < needed
      then Err (ClientError ResourceExhausted ''fake hypervisor slot capacity exhausted'')
      else Ok ())"

definition allocate_lease :: "hv_env \<Rightarrow> fake_hypervisor \<Rightarrow> machine_config \<Rightarrow> entropy_seed \<Rightarrow> lease \<times> fake_hypervisor" where
  "allocate_lease E h c e =
     (let i = SlotId (hv_next_slot_id h)
      in (\<lparr>le_slot_id = i, le_token = lease_token_of E i c e\<rparr>, h\<lparr>hv_next_slot_id := saturating_add (hv_next_slot_id h) 1\<rparr>))"

definition find_slot :: "fake_hypervisor \<Rightarrow> lease \<Rightarrow> (client_error, hv_slot) res" where
  "find_slot h le = (case hm_get (hv_slots h) (le_slot_id le) of
     None \<Rightarrow> Err (ClientError NotFound (''unknown slot '' @ show_nat (unat (slot_id_get (le_slot_id le)))))
   | Some s \<Rightarrow> if le_token (sl_lease s) \<noteq> le_token le
       then Err (ClientError FailedPrecondition ''lease token does not match slot'') else Ok s)"

definition put_slot :: "fake_hypervisor \<Rightarrow> slot_id \<Rightarrow> hv_slot \<Rightarrow> fake_hypervisor" where
  "put_slot h i s = h\<lparr>hv_slots := hm_insert (hv_slots h) i s\<rparr>"

definition ensure_paused :: "hv_slot \<Rightarrow> string \<Rightarrow> (client_error, unit) res" where
  "ensure_paused s operation =
     (if sl_state_kind s \<noteq> SlotPaused
      then Err (ClientError FailedPrecondition (operation @ '' requires a paused slot'')) else Ok ())"

definition maybe_unfreeze_parent :: "fake_hypervisor \<Rightarrow> slot_id \<Rightarrow> fake_hypervisor" where
  "maybe_unfreeze_parent h parent_id =
     (if live_children h parent_id = []
      then let h = (case hm_get (hv_slots h) parent_id of
                      Some p \<Rightarrow> if sl_state_kind p = SlotFrozen
                                then put_slot h parent_id (p\<lparr>sl_state_kind := SlotPaused\<rparr>) else h
                    | None \<Rightarrow> h)
           in push_slot_event h parent_id
      else h)"

definition hv_decide_fault :: "hv_env \<Rightarrow> string \<Rightarrow> worker_request \<Rightarrow> u32 \<Rightarrow> (fake_hypervisor, fault_decision) rpc" where
  "hv_decide_fault E operation request response_items h =
     (case injector_decide (he_blake3 E) (hv_fault_injector h)
        \<lparr>fq_target = TgtHypervisor, fq_operation = operation, fq_request_identity = he_request_identity E request\<rparr>
        response_items of
        Ok (decision, fi) \<Rightarrow>
          let h = h\<lparr>hv_fault_injector := fi, hv_last_fault := Some decision\<rparr>
          in (case decision_client_error decision of Some e \<Rightarrow> (Err e, h) | None \<Rightarrow> (Ok decision, h))
      | Err e \<Rightarrow> (Err e, h)
      | Panic m \<Rightarrow> (Panic m, h))"

section \<open>Captures\<close>

definition encode_grid_features :: "grid_state \<Rightarrow> u8 list" where
  "encode_grid_features s = [room_id (gs_room s), gs_x s, gs_y s, gs_keys s, gs_boss_hp s]"

text \<open>\<open>usize\<close> has 64 bits, so the conversion of an offset cannot fail; the end of a range can overflow.\<close>

definition range_end :: "capture_range \<Rightarrow> (client_error, nat) res" where
  "range_end r =
     (let e = unat (xr_offset r) + unat (xr_len r) in
      if e < 2 ^ 64 then Ok e else Err (ClientError InvalidRequest ''capture range end overflow''))"

definition validate_range :: "nat \<Rightarrow> capture_range \<Rightarrow> (client_error, unit) res" where
  "validate_range grid_len r =
     (if xr_region r \<noteq> GRID_REGION
      then Err (ClientError FailedPrecondition (''unknown fake capture region '' @ [CHR 0x27] @ xr_region r @ [CHR 0x27]))
      else if xr_layout_version r \<noteq> GRID_LAYOUT_VERSION
      then Err (ClientError FailedPrecondition (''fake capture layout version must be ''
             @ show_nat (unat GRID_LAYOUT_VERSION) @ '', got '' @ show_nat (unat (xr_layout_version r))))
      else bind_res (range_end r) (\<lambda>e.
        if grid_len < e then Err (ClientError InvalidRequest ''capture range out of fake grid bounds'') else Ok ()))"

definition validate_capture_spec :: "capture_spec option \<Rightarrow> (client_error, unit) res" where
  "validate_capture_spec c = (case c of
     None \<Rightarrow> Ok ()
   | Some c \<Rightarrow> for_res (validate_range (length (encode_grid_features grid_state_new))) (cs_ranges c))"

definition pack_range :: "u8 list \<Rightarrow> capture_range \<Rightarrow> (client_error, u8 list) res" where
  "pack_range grid r =
     bind_res (range_end r) (\<lambda>e.
       if e \<le> length grid then Ok (take (unat (xr_len r)) (drop (unat (xr_offset r)) grid))
       else Err (ClientError InvalidRequest ''capture range out of fake grid bounds''))"

definition pack_capture_ranges :: "grid_state \<Rightarrow> capture_spec \<Rightarrow> (client_error, u8 list) res" where
  "pack_capture_ranges st c =
     bind_res (validate_capture_spec (Some c)) (\<lambda>_.
     bind_res (collect_res (pack_range (encode_grid_features st)) (cs_ranges c)) (\<lambda>parts. Ok (concat parts)))"

definition fake_framebuffer_pixels :: "grid_state \<Rightarrow> frame_count \<Rightarrow> u8 list" where
  "fake_framebuffer_pixels st f = [ucast (frame_count_get f AND 0xFF), room_id (gs_room st), gs_x st, gs_y st]"

fun lz4_extra_len :: "nat \<Rightarrow> u8 list" where
  "lz4_extra_len remaining = (if 255 \<le> remaining then 255 # lz4_extra_len (remaining - 255) else [word_of_nat remaining])"

definition size_prefixed_lz4_literal_block :: "u8 list \<Rightarrow> u8 list" where
  "size_prefixed_lz4_literal_block bytes =
     to_le_bytes (word_of_nat (length bytes) :: u32)
     @ (if length bytes < 15 then [push_bit 4 (word_of_nat (length bytes))]
        else 0xF0 # lz4_extra_len (length bytes - 15))
     @ bytes"

definition inline_framebuffer :: "grid_state \<Rightarrow> frame_count \<Rightarrow> u8 list" where
  "inline_framebuffer st f = size_prefixed_lz4_literal_block (fake_framebuffer_pixels st f)"

record capture_response =
  cp_feature_bytes :: "u8 list option"
  cp_fb_lz4 :: "u8 list option"
  cp_fb_info :: "fb_info option"

definition capture_response_of ::
  "grid_state \<Rightarrow> frame_count \<Rightarrow> capture_spec option \<Rightarrow> (client_error, capture_response) res" where
  "capture_response_of st f c = (case c of
     None \<Rightarrow> Ok \<lparr>cp_feature_bytes = None, cp_fb_lz4 = None, cp_fb_info = None\<rparr>
   | Some c \<Rightarrow> bind_res (pack_capture_ranges st c) (\<lambda>bytes.
       Ok \<lparr>cp_feature_bytes = Some bytes,
           cp_fb_lz4 = (if cs_framebuffer c then Some (inline_framebuffer st f) else None),
           cp_fb_info = (if cs_framebuffer c
             then Some \<lparr>fb_width = 1, fb_height = 1, fb_stride = 4, fb_format = Xrgb8888, fb_frame_counter = f\<rparr> else None)\<rparr>))"

section \<open>Inputs\<close>

definition event_to_action :: "input_event \<Rightarrow> grid_action" where
  "event_to_action e = (case e of
     PadSet p \<Rightarrow>
       let buttons = ps_buttons p in
       if buttons AND BUTTON_RIGHT \<noteq> 0 then Right
       else if buttons AND BUTTON_LEFT \<noteq> 0 then Left
       else if buttons AND BUTTON_UP \<noteq> 0 then Up
       else if buttons AND BUTTON_DOWN \<noteq> 0 then Down
       else if buttons AND (BUTTON_ATTACK_A OR BUTTON_ATTACK_B OR BUTTON_ATTACK_Y) \<noteq> 0 then Attack
       else Wait
   | _ \<Rightarrow> Wait)"

definition min_u32 :: "u64 \<Rightarrow> u32" where
  "min_u32 v = ucast (min v 0xFFFFFFFF)"

definition event_frame :: "scheduled_event \<Rightarrow> frame_count" where
  "event_frame e = (case sv_at e of
     AtFrame f \<Rightarrow> f
   | AtIcount icount \<Rightarrow> FrameCount (min_u32 (guest_instructions_get icount div ICOUNT_PER_FRAME))
   | AtVns vns \<Rightarrow> FrameCount (min_u32 (vns div VNS_PER_FRAME)))"

definition validate_scheduled_event :: "hv_slot \<Rightarrow> scheduled_event \<Rightarrow> (client_error, unit) res" where
  "validate_scheduled_event s e = (case sv_at e of
     AtFrame f \<Rightarrow> if frame_count_get f \<le> frame_count_get (sl_frame_counter s)
       then Err (ClientError InvalidRequest ''input frame is not in the future'') else Ok ()
   | AtIcount icount \<Rightarrow> if guest_instructions_get icount \<le> guest_instructions_get (sl_icount s)
       then Err (ClientError InvalidRequest ''input icount is not in the future'') else Ok ()
   | AtVns vns \<Rightarrow> if vns \<le> sl_vns s
       then Err (ClientError InvalidRequest ''input vns is not in the future'') else Ok ())"

text \<open>The loop over the events; the slot keeps what was scheduled before an overflow of the order counter.\<close>

fun schedule_events :: "hv_slot \<Rightarrow> scheduled_event list \<Rightarrow> (client_error, unit) res \<times> hv_slot" where
  "schedule_events s [] = (Ok (), s)"
| "schedule_events s (e # es) =
     (let p = \<lparr>pa_at_frame = event_frame e, pa_order = sl_next_input_order s, pa_action = event_to_action (sv_event e)\<rparr>
      in case checked_add (sl_next_input_order s) 1 of
           None \<Rightarrow> (Err (ClientError Internal ''input order overflow''), s)
         | Some n \<Rightarrow> schedule_events (s\<lparr>sl_next_input_order := n, sl_input_log := sl_input_log s @ [e],
                        sl_pending_actions := sl_pending_actions s @ [p]\<rparr>) es)"

definition sort_pending :: "pending_action list \<Rightarrow> pending_action list" where
  "sort_pending ps = sort_key (\<lambda>p. (frame_count_get (pa_at_frame p), pa_order p)) ps"

section \<open>Running a slot\<close>

definition saturating_mul :: "'a::len word \<Rightarrow> 'a word \<Rightarrow> 'a word" where
  "saturating_mul x y = (if unat x * unat y < 2 ^ LENGTH('a) then x * y else - 1)"

definition drain_due_actions :: "pending_action list \<Rightarrow> u32 \<Rightarrow> pending_action list \<times> pending_action list" where
  "drain_due_actions ps end_frame =
     (let is_due = (\<lambda>p. frame_count_get (pa_at_frame p) \<le> end_frame)
      in (sort_pending (filter is_due ps), filter (\<lambda>p. \<not> is_due p) ps))"

text \<open>How many frames run, and whether the instruction cap cuts them short.\<close>

definition frames_to_run :: "hv_slot \<Rightarrow> u32 \<Rightarrow> guest_instructions option \<Rightarrow> u32 \<times> stop_reason" where
  "frames_to_run s requested cap = (case cap of
     None \<Rightarrow> (requested, BudgetReached)
   | Some c \<Rightarrow>
       let current = guest_instructions_get (sl_icount s) in
       if guest_instructions_get c \<le> current then (0, HardCap)
       else let remaining = guest_instructions_get c - current in
            if remaining < saturating_mul (ucast requested) ICOUNT_PER_FRAME
            then (min_u32 (remaining div ICOUNT_PER_FRAME), HardCap) else (requested, BudgetReached))"

definition advance_frames ::
  "grid_world \<Rightarrow> u32 \<Rightarrow> guest_instructions option \<Rightarrow> hv_slot \<Rightarrow> (client_error, u32 \<times> stop_reason) res \<times> hv_slot" where
  "advance_frames w requested cap s =
     (let (frames, reason) = frames_to_run s requested cap in
      bind_st (ok_or (checked_add (frame_count_get (sl_frame_counter s)) frames) (ClientError Internal ''frame counter overflow''), s)
        (\<lambda>end_frame s.
      let (due, rest) = drain_due_actions (sl_pending_actions s) end_frame;
          s = s\<lparr>sl_pending_actions := rest,
                sl_state := foldl (\<lambda>st p. fst (grid_step w st (pa_action p))) (sl_state s) due,
                sl_frame_counter := FrameCount end_frame\<rparr>
      in bind_st (ok_or (checked_add (guest_instructions_get (sl_icount s)) (saturating_mul (ucast frames) ICOUNT_PER_FRAME))
             (ClientError Internal ''icount overflow''), s) (\<lambda>icount s.
         let s = s\<lparr>sl_icount := GuestInstructions icount\<rparr> in
         bind_st (ok_or (checked_add (sl_vns s) (saturating_mul (ucast frames) VNS_PER_FRAME))
             (ClientError Internal ''vns overflow''), s) (\<lambda>vns s.
           (Ok (frames, reason), s\<lparr>sl_vns := vns\<rparr>)))))"

definition advance_icount_budget ::
  "guest_instructions \<Rightarrow> guest_instructions option \<Rightarrow> hv_slot \<Rightarrow> (client_error, stop_reason) res \<times> hv_slot" where
  "advance_icount_budget budget cap s =
     (let (amount, reason) = (case cap of
            None \<Rightarrow> (guest_instructions_get budget, BudgetReached)
          | Some c \<Rightarrow>
              let current = guest_instructions_get (sl_icount s) in
              if guest_instructions_get c \<le> current then (0, HardCap)
              else let remaining = guest_instructions_get c - current in
                   if remaining < guest_instructions_get budget then (remaining, HardCap)
                   else (guest_instructions_get budget, BudgetReached))
      in bind_st (ok_or (checked_add (guest_instructions_get (sl_icount s)) amount) (ClientError Internal ''icount overflow''), s)
           (\<lambda>icount s.
         let s = s\<lparr>sl_icount := GuestInstructions icount\<rparr> in
         bind_st (ok_or (checked_add (sl_vns s) amount) (ClientError Internal ''vns overflow''), s) (\<lambda>vns s.
           (Ok reason, s\<lparr>sl_vns := vns\<rparr>))))"

definition advance_vns_budget :: "u64 \<Rightarrow> hv_slot \<Rightarrow> (client_error, stop_reason) res \<times> hv_slot" where
  "advance_vns_budget budget s =
     bind_st (ok_or (checked_add (sl_vns s) budget) (ClientError Internal ''vns overflow''), s) (\<lambda>vns s.
       (Ok BudgetReached, s\<lparr>sl_vns := vns\<rparr>))"

definition run_slot ::
  "grid_world \<Rightarrow> run_until \<Rightarrow> guest_instructions option \<Rightarrow> hv_slot
    \<Rightarrow> (client_error, stop_reason \<times> u64 \<times> guest_event option) res \<times> hv_slot" where
  "run_slot w until cap s = (case until of
     UntilNextSdkEvent stream \<Rightarrow>
       (Ok (NextSdkEvent, 0, Some \<lparr>gv_stream = case_option 0 id stream, gv_icount = sl_icount s, gv_vns = sl_vns s,
          gv_payload = READY_PAYLOAD\<rparr>), s)
   | FrameBudget frames \<Rightarrow>
       bind_st (advance_frames w (frame_count_get frames) cap s) (\<lambda>(elapsed, reason) s. (Ok (reason, ucast elapsed, None), s))
   | IcountBudget budget \<Rightarrow> bind_st (advance_icount_budget budget cap s) (\<lambda>reason s. (Ok (reason, 0, None), s))
   | VnsBudget budget \<Rightarrow> bind_st (advance_vns_budget budget s) (\<lambda>reason s. (Ok (reason, 0, None), s))
   | UntilGoal _ \<Rightarrow>
       if goal_reached w (sl_state s) then (Ok (GoalSatisfied, 0, None), s)
       else bind_st (advance_frames w 1 cap s) (\<lambda>(elapsed, reason) s.
              (Ok (if goal_reached w (sl_state s) then GoalSatisfied else reason, ucast elapsed, None), s)))"

section \<open>Requests\<close>

definition create_vm :: "hv_env \<Rightarrow> create_vm_request \<Rightarrow> (fake_hypervisor, create_vm_response) rpc" where
  "create_vm E r h =
     bind_st (hv_decide_fault E ''create_vm'' (RqCreateVm r) 0 h) (\<lambda>_ h.
     bind_st (ensure_capacity h 1, h) (\<lambda>_ h.
       let (le, h) = allocate_lease E h (cv_config r) (cv_entropy_seed r);
           h = put_slot h (le_slot_id le) (slot_new_root le (cv_config r) (initial_state (hv_world h)));
           h = push_slot_event h (le_slot_id le)
       in (Ok \<lparr>cvr_lease = le, cvr_icount = GuestInstructions 0\<rparr>, h)))"

definition restore_snapshot :: "hv_env \<Rightarrow> restore_snapshot_request \<Rightarrow> (fake_hypervisor, restore_snapshot_response) rpc" where
  "restore_snapshot E r h =
     bind_st (hv_decide_fault E ''restore_snapshot'' (RqRestoreSnapshot r) 0 h) (\<lambda>_ h.
     bind_st (ensure_capacity h 1, h) (\<lambda>_ h.
     bind_st (ok_or (hm_get (hv_snapshots h) (rs_snapshot r)) (ClientError NotFound ''snapshot not found''), h) (\<lambda>rec h.
       let (le, h) = allocate_lease E h (sr_config rec) (case_option zero_entropy_seed id (rs_entropy_seed r));
           h = put_slot h (le_slot_id le) (slot_from_snapshot le (rs_snapshot r) rec);
           h = push_slot_event h (le_slot_id le)
       in (Ok \<lparr>rsr_lease = le, rsr_config = sr_config rec, rsr_state_hash = grid_state_hash (he_blake3 E) (sr_state rec),
               rsr_frame_counter = sr_frame_counter rec\<rparr>, h))))"

fun fork_children ::
  "hv_env \<Rightarrow> hv_slot \<Rightarrow> slot_id \<Rightarrow> entropy_seed list \<Rightarrow> fake_hypervisor \<Rightarrow> lease list \<Rightarrow> lease list \<times> fake_hypervisor" where
  "fork_children E p i [] h children = (children, h)"
| "fork_children E p i (e # es) h children =
     (let (le, h) = allocate_lease E h (sl_config p) e;
          h = put_slot h (le_slot_id le) (clone_as_child p le i)
      in fork_children E p i es h (children @ [le]))"

definition fork :: "hv_env \<Rightarrow> fork_request \<Rightarrow> (fake_hypervisor, lease list) rpc" where
  "fork E r h =
     bind_st (fork_validate r, h) (\<lambda>_ h.
     bind_st (hv_decide_fault E ''fork'' (RqFork r) (fk_count r) h) (\<lambda>_ h.
     bind_st (ensure_capacity h (fk_count r), h) (\<lambda>_ h.
     bind_st (find_slot h (fk_parent r), h) (\<lambda>parent h.
     bind_st (ensure_paused parent ''fork'', h) (\<lambda>_ h.
       let i = le_slot_id (fk_parent r);
           (children, h) = fork_children E parent i (fk_entropy_seeds r) h []
       in bind_st (expect (hm_get (hv_slots h) i) ''parent slot was validated'', h) (\<lambda>p h.
            let h = put_slot h i (p\<lparr>sl_state_kind := SlotFrozen\<rparr>);
                h = push_slot_event h i;
                h = foldl (\<lambda>h le. push_slot_event h (le_slot_id le)) h children
            in (Ok children, h)))))))"

definition inject_inputs :: "hv_env \<Rightarrow> inject_inputs_request \<Rightarrow> (fake_hypervisor, u32) rpc" where
  "inject_inputs E r h =
     bind_st (hv_decide_fault E ''inject_inputs'' (RqInjectInputs r) (word_of_nat (length (ii_events r))) h) (\<lambda>_ h.
     bind_st (if length (ii_events r) < 2 ^ 32 then Ok (word_of_nat (length (ii_events r)))
              else Err (ClientError InvalidRequest ''too many scheduled events''), h) (\<lambda>scheduled h.
     bind_st (find_slot h (ii_lease r), h) (\<lambda>s h.
     bind_st (ensure_paused s ''inject inputs'', h) (\<lambda>_ h.
     bind_st (for_res (validate_scheduled_event s) (ii_events r), h) (\<lambda>_ h.
       let i = le_slot_id (ii_lease r);
           (res, s) = schedule_events s (ii_events r)
       in bind_st (res, put_slot h i s) (\<lambda>_ h.
            (Ok scheduled, put_slot h i (s\<lparr>sl_pending_actions := sort_pending (sl_pending_actions s)\<rparr>))))))))"

definition hv_run :: "hv_env \<Rightarrow> run_request \<Rightarrow> (fake_hypervisor, run_response) rpc" where
  "hv_run E r h =
     bind_st (hv_decide_fault E ''run'' (RqRun r) 0 h) (\<lambda>_ h.
     bind_st (validate_capture_spec (rr_capture r), h) (\<lambda>_ h.
     bind_st (find_slot h (rr_lease r), h) (\<lambda>s h.
     bind_st (ensure_paused s ''run'', h) (\<lambda>_ h.
       let i = le_slot_id (rr_lease r);
           s = s\<lparr>sl_state_kind := SlotRunning\<rparr>;
           h = push_slot_event (put_slot h i s) i;
           (res, s) = run_slot (hv_world h) (rr_until r) (rr_hard_icount_cap r) s;
           s = s\<lparr>sl_state_kind := SlotPaused\<rparr>;
           h = push_slot_event (put_slot h i s) i
       in bind_st (res, h) (\<lambda>(reason, frames_elapsed, sdk_event) h.
          bind_st (capture_response_of (sl_state s) (sl_frame_counter s) (rr_capture r), h) (\<lambda>c h.
            (Ok \<lparr>rrr_reason = reason, rrr_icount = sl_icount s, rrr_vns = sl_vns s,
                 rrr_state_hash = grid_state_hash (he_blake3 E) (sl_state s), rrr_frames_elapsed = frames_elapsed,
                 rrr_sdk_event = sdk_event, rrr_feature_bytes = cp_feature_bytes c, rrr_fb_lz4 = cp_fb_lz4 c,
                 rrr_fb_info = cp_fb_info c\<rparr>, h)))))))"

definition snapshot_record_of :: "hv_env \<Rightarrow> hv_slot \<Rightarrow> snapshot_record" where
  "snapshot_record_of E s = \<lparr>sr_config = sl_config s, sr_state = sl_state s, sr_icount = sl_icount s,
     sr_frame_counter = sl_frame_counter s, sr_vns = sl_vns s, sr_input_log = sl_input_log s,
     sr_pending_actions = sl_pending_actions s, sr_next_input_order = sl_next_input_order s,
     sr_machine_config_hash = machine_config_hash E (sl_config s)\<rparr>"

definition take_snapshot :: "hv_env \<Rightarrow> take_snapshot_request \<Rightarrow> (fake_hypervisor, take_snapshot_response) rpc" where
  "take_snapshot E r h =
     bind_st (hv_decide_fault E ''take_snapshot'' (RqTakeSnapshot r) 0 h) (\<lambda>_ h.
     bind_st (find_slot h (ts_lease r), h) (\<lambda>s h.
     bind_st (ensure_paused s ''take snapshot'', h) (\<lambda>_ h.
       let sn = snapshot_ref_of E (sl_config s) (sl_state s) (sl_icount s) (sl_vns s) (sl_frame_counter s) (sl_input_log s) in
       bind_st (capture_response_of (sl_state s) (sl_frame_counter s) (ts_capture r), h) (\<lambda>c h.
       let n = length (sl_input_log s);
           dirty_pages = saturating_add 1 (if n < 2 ^ 32 then word_of_nat n else - 1 - 1);
           h = h\<lparr>hv_snapshots := hm_insert (hv_snapshots h) sn (snapshot_record_of E s)\<rparr>
       in (Ok \<lparr>tsr_snapshot = sn,
               tsr_input_log_id = (if ts_seal_input_log r then Some (input_log_id_of E (sl_input_log s)) else None),
               tsr_icount = sl_icount s, tsr_vns = sl_vns s, tsr_state_hash = grid_state_hash (he_blake3 E) (sl_state s),
               tsr_dirty_pages = dirty_pages, tsr_machine_config_hash = machine_config_hash E (sl_config s),
               tsr_determinism_class = hv_class h, tsr_feature_bytes = cp_feature_bytes c, tsr_fb_lz4 = cp_fb_lz4 c,
               tsr_fb_info = cp_fb_info c, tsr_frame_counter = sl_frame_counter s\<rparr>, h)))))"

definition destroy_vm :: "hv_env \<Rightarrow> lease \<Rightarrow> (fake_hypervisor, unit) rpc" where
  "destroy_vm E le h =
     bind_st (hv_decide_fault E ''destroy_vm'' (RqDestroyVm le) 0 h) (\<lambda>_ h.
     bind_st (find_slot h le, h) (\<lambda>s h.
       if sl_state_kind s = SlotRunning then (Err (ClientError FailedPrecondition ''cannot destroy a running slot''), h)
       else if live_children h (le_slot_id le) \<noteq> []
       then (Err (ClientError FailedPrecondition ''cannot destroy a slot with live children''), h)
       else let h = h\<lparr>hv_slots := hm_remove (hv_slots h) (le_slot_id le),
                      hv_watch_events := hv_watch_events h @ [empty_slot_info s]\<rparr>
            in (Ok (), case sl_parent s of None \<Rightarrow> h | Some p \<Rightarrow> maybe_unfreeze_parent h p)))"

definition list_slots :: "hv_env \<Rightarrow> (fake_hypervisor, slot_info list) rpc" where
  "list_slots E h =
     (let slots = map (slot_info_of h \<circ> snd) (hm_sorted (hv_slots h)) in
      bind_st (hv_decide_fault E ''list_slots'' RqListSlots (word_of_nat (length slots)) h) (\<lambda>d h.
        (Ok (take (decision_truncate_len d (length slots)) slots), h)))"

definition watch_slots :: "hv_env \<Rightarrow> (fake_hypervisor, slot_info list) rpc" where
  "watch_slots E h =
     (let start = min (hv_watch_cursor h) (length (hv_watch_events h));
          available = length (hv_watch_events h) - start
      in bind_st (hv_decide_fault E ''watch_slots'' RqWatchSlots (word_of_nat available) h) (\<lambda>d h.
           let keep = decision_truncate_len d available;
               end' = start + keep
           in (Ok (take keep (drop start (hv_watch_events h))), h\<lparr>hv_watch_cursor := end'\<rparr>)))"

definition worker_info :: "hv_env \<Rightarrow> (fake_hypervisor, worker_info_response) rpc" where
  "worker_info E h =
     bind_st (hv_decide_fault E ''worker_info'' RqWorkerInfo 0 h) (\<lambda>_ h.
       let n = length (hv_slots h); used = (if n < 2 ^ 32 then word_of_nat n else - 1)
       in (Ok \<lparr>wi_worker_id = hv_worker_id h, wi_slots_total = hv_slots_total h,
               wi_slots_free = saturating_sub (hv_slots_total h) used, wi_class = hv_class h,
               wi_version = FAKE_HYPERVISOR_VERSION\<rparr>, h))"

section \<open>Maintenance\<close>

definition live_snapshot_refs :: "fake_hypervisor \<Rightarrow> snapshot_ref set" where
  "live_snapshot_refs h = fst ` set (hv_snapshots h)"

definition retain_live_snapshots :: "fake_hypervisor \<Rightarrow> snapshot_ref set \<Rightarrow> snapshot_ref set \<times> fake_hypervisor" where
  "retain_live_snapshots h committed =
     (let before = live_snapshot_refs h
      in ({sn \<in> before. sn \<notin> committed}, h\<lparr>hv_snapshots := filter (\<lambda>(sn, _). sn \<in> committed) (hv_snapshots h)\<rparr>))"

definition compact_consumed_watch_events :: "fake_hypervisor \<Rightarrow> nat \<times> fake_hypervisor" where
  "compact_consumed_watch_events h =
     (let consumed = min (hv_watch_cursor h) (length (hv_watch_events h))
      in (consumed, if 0 < consumed then h\<lparr>hv_watch_events := drop consumed (hv_watch_events h), hv_watch_cursor := 0\<rparr> else h))"

text \<open>
  One pass of \<open>reclaim_session\<close> over the leaves, and the loop of passes. The debug assertion that a pass finds a leaf
  is not part of the model; \<open>reclaim_leaves_spec\<close> in \<open>Hypervisor_Facts\<close> shows that it holds.
\<close>

definition reclaim_leaves :: "fake_hypervisor \<Rightarrow> slot_id list" where
  "reclaim_leaves h = map (le_slot_id \<circ> sl_lease)
     (filter (\<lambda>s. live_children h (le_slot_id (sl_lease s)) = []) (map snd (hm_sorted (hv_slots h))))"

definition reclaim_slot :: "fake_hypervisor \<Rightarrow> slot_id \<Rightarrow> fake_hypervisor" where
  "reclaim_slot h i = (case hm_get (hv_slots h) i of
     None \<Rightarrow> h
   | Some s \<Rightarrow> h\<lparr>hv_slots := hm_remove (hv_slots h) i,
       hv_watch_events := hv_watch_events h @ [(empty_slot_info s)\<lparr>si_slot_id := i\<rparr>]\<rparr>)"

partial_function (option) reclaim_session :: "fake_hypervisor \<Rightarrow> fake_hypervisor option" where
  "reclaim_session h =
     (if hv_slots h = [] then Some h else reclaim_session (foldl reclaim_slot h (reclaim_leaves h)))"

end
