(* ===== verification/Hypervisor_Facts.thy ===== *)
theory Hypervisor_Facts
  imports Fake_Hypervisor
begin

text \<open>
  What the fake worker guarantees: the slot table stays consistent under every request and every injected
  fault, a snapshot restores what was saved, a run respects its instruction cap, and reclaiming a session
  ends with an empty table.
\<close>

section \<open>The slot table\<close>

definition slots_of :: "fake_hypervisor \<Rightarrow> slot_id \<Rightarrow> hv_slot option" where
  "slots_of h = hm_get (hv_slots h)"

definition kids_of :: "fake_hypervisor \<Rightarrow> slot_id \<Rightarrow> slot_id set" where
  "kids_of h i = {j. \<exists>s. slots_of h j = Some s \<and> sl_parent s = Some i}"

text \<open>
  A slot is filed under the id of its lease, which was handed out before the next one; its parent is live and
  older. Between requests a slot is frozen exactly while it has live children, and paused otherwise; while a
  request is under way the slots in \<open>X\<close> are exempt from that.
\<close>

definition slot_shape :: "fake_hypervisor \<Rightarrow> slot_id \<Rightarrow> hv_slot \<Rightarrow> bool" where
  "slot_shape h i s \<longleftrightarrow> le_slot_id (sl_lease s) = i \<and> slot_id_get i < hv_next_slot_id h
     \<and> (case sl_parent s of None \<Rightarrow> True | Some p \<Rightarrow> p < i \<and> slots_of h p \<noteq> None)"

definition slot_kind :: "fake_hypervisor \<Rightarrow> slot_id \<Rightarrow> slot_state" where
  "slot_kind h i = (if kids_of h i = {} then SlotPaused else SlotFrozen)"

definition hv_inv_except :: "slot_id set \<Rightarrow> fake_hypervisor \<Rightarrow> bool" where
  "hv_inv_except X h \<longleftrightarrow> hm_ok (hv_slots h) \<and> (\<forall>i s. slots_of h i = Some s \<longrightarrow>
     slot_shape h i s \<and> (i \<notin> X \<longrightarrow> sl_state_kind s = slot_kind h i))"

abbreviation hv_inv :: "fake_hypervisor \<Rightarrow> bool" where
  "hv_inv h \<equiv> hv_inv_except {} h"

lemma hv_invD:
  assumes "hv_inv_except X h"
  shows "hm_ok (hv_slots h)" "slots_of h i = Some s \<Longrightarrow> slot_shape h i s"
    "slots_of h i = Some s \<Longrightarrow> i \<notin> X \<Longrightarrow> sl_state_kind s = slot_kind h i"
  using assms by (auto simp: hv_inv_except_def)

lemma live_children_empty:
  assumes "hm_ok (hv_slots h)"
  shows "live_children h i = [] \<longleftrightarrow> kids_of h i = {}"
proof -
  have "set (hm_sorted (hv_slots h)) = set (hv_slots h)" using hm_sorted_props(3)[OF assms] .
  then have "live_children h i = [] \<longleftrightarrow> (\<forall>(j, s) \<in> set (hv_slots h). sl_parent s \<noteq> Some i)"
    by (auto simp: live_children_def filter_empty_conv)
  also have "\<dots> \<longleftrightarrow> kids_of h i = {}"
    using assms by (auto simp: kids_of_def slots_of_def dest: map_of_SomeD)
  finally show ?thesis .
qed

text \<open>Requests that leave the slot table alone.\<close>

definition same_slots :: "fake_hypervisor \<Rightarrow> fake_hypervisor \<Rightarrow> bool" where
  "same_slots h h' \<longleftrightarrow> hv_slots h' = hv_slots h \<and> hv_next_slot_id h' = hv_next_slot_id h
     \<and> hv_slots_total h' = hv_slots_total h"

lemma same_slots_refl [simp]: "same_slots h h"
  by (simp add: same_slots_def)

lemma same_slots_trans: "same_slots h1 h2 \<Longrightarrow> same_slots h2 h3 \<Longrightarrow> same_slots h1 h3"
  by (simp add: same_slots_def)

lemma same_slots_inv:
  assumes "same_slots h h'"
  shows "hv_inv_except X h' \<longleftrightarrow> hv_inv_except X h"
proof -
  have "slots_of h' = slots_of h" "kids_of h' = kids_of h"
    using assms by (simp_all add: same_slots_def slots_of_def kids_of_def fun_eq_iff)
  then show ?thesis
    using assms by (simp add: same_slots_def hv_inv_except_def slot_shape_def slot_kind_def cong: option.case_cong)
qed

lemma push_slot_event_same [simp]: "same_slots h (push_slot_event h i)"
  by (simp add: push_slot_event_def same_slots_def split: option.split)

lemma decide_fault_same: "hv_decide_fault E op r n h = (res, h') \<Longrightarrow> same_slots h h'"
  by (auto simp: hv_decide_fault_def same_slots_def Let_def split: res.splits prod.splits option.splits)

lemma foldl_push_same: "same_slots h (foldl (\<lambda>h le. push_slot_event h (f le)) h ls)"
proof (induction ls arbitrary: h)
  case (Cons le ls)
  then show ?case using same_slots_trans[OF push_slot_event_same Cons] by simp
qed simp

section \<open>Single changes of the table\<close>

lemma slots_of_put [simp]: "slots_of (put_slot h i s) = (slots_of h)(i \<mapsto> s)"
  by (simp add: put_slot_def slots_of_def)

lemma put_slot_fields [simp]: "hv_next_slot_id (put_slot h i s) = hv_next_slot_id h"
  "hv_slots_total (put_slot h i s) = hv_slots_total h" "hv_world (put_slot h i s) = hv_world h"
  by (simp_all add: put_slot_def)

lemma hm_ok_put [simp]: "hm_ok (hv_slots h) \<Longrightarrow> hm_ok (hv_slots (put_slot h i s))"
  by (simp add: put_slot_def)

lemma put_slot_put [simp]: "put_slot (put_slot h i s) i s' = put_slot h i s'"
  by (simp add: put_slot_def hm_insert_def)

text \<open>A slot that keeps its lease and its parent may be updated; its kind is free when it is exempt.\<close>

lemma kids_of_put:
  assumes "slots_of h i = Some s" "sl_parent s' = sl_parent s"
  shows "kids_of (put_slot h i s') = kids_of h"
  using assms by (auto simp: kids_of_def fun_eq_iff)

lemma put_slot_inv:
  assumes "hv_inv_except X h" "slots_of h i = Some s" "sl_lease s' = sl_lease s" "sl_parent s' = sl_parent s"
    "i \<notin> Y \<longrightarrow> sl_state_kind s' = slot_kind h i" "X \<subseteq> insert i Y"
  shows "hv_inv_except Y (put_slot h i s')"
proof -
  have k: "slot_kind (put_slot h i s') = slot_kind h"
    using kids_of_put[OF assms(2,4)] by (simp add: slot_kind_def fun_eq_iff)
  have "slot_shape (put_slot h i s') j t \<and> (j \<notin> Y \<longrightarrow> sl_state_kind t = slot_kind h j)"
    if t: "slots_of (put_slot h i s') j = Some t" for j t
  proof (cases "j = i")
    case True
    then have "t = s'" using t by simp
    then show ?thesis
      using hv_invD(2)[OF assms(1,2)] assms(3-5) True by (auto simp: slot_shape_def split: option.splits)
  next
    case False
    then have o: "slots_of h j = Some t" using t by simp
    then show ?thesis
      using hv_invD(2)[OF assms(1) o] hv_invD(3)[OF assms(1) o] assms(6) False by (auto simp: slot_shape_def split: option.splits)
  qed
  then show ?thesis using hv_invD(1)[OF assms(1)] unfolding hv_inv_except_def k by simp
qed

text \<open>A fresh slot, below no other slot or below an exempt one.\<close>

lemma next_slot_Suc: "x \<noteq> (- 1 :: u64) \<Longrightarrow> x < saturating_add x 1"
proof -
  assume "x \<noteq> - 1"
  then have "x < - 1" using word_order.not_eq_extremum by blast
  then have "unat x + 1 < 2 ^ 64" by (simp add: word_less_nat_alt unsigned_minus_1_eq_mask mask_eq_exp_minus_1)
  then show ?thesis by (simp add: saturating_add_def word_less_nat_alt unat_add_no_overflow)
qed

lemma fresh_id:
  assumes "hv_inv_except X h" "slots_of h i = Some s"
  shows "i < SlotId (hv_next_slot_id h)"
  using hv_invD(2)[OF assms] by (simp add: slot_shape_def less_slot_id_def)

lemma add_slot_inv:
  assumes inv: "hv_inv_except X h" and alloc: "allocate_lease E h c e = (le, h1)"
    and lease: "sl_lease s = le" and kind: "sl_state_kind s = SlotPaused"
    and parent: "sl_parent s = None \<or> (\<exists>p \<in> X. sl_parent s = Some p \<and> slots_of h p \<noteq> None)"
    and fresh: "hv_next_slot_id h \<noteq> - 1" and X: "\<forall>p \<in> X. slots_of h p \<noteq> None"
  shows "hv_inv_except X (put_slot h1 (le_slot_id le) s)" "slots_of h (le_slot_id le) = None"
    "slots_of (put_slot h1 (le_slot_id le) s) = (slots_of h)(le_slot_id le \<mapsto> s)"
    "length (hv_slots (put_slot h1 (le_slot_id le) s)) = Suc (length (hv_slots h))"
    "hv_slots_total h1 = hv_slots_total h" "hv_world h1 = hv_world h"
    "hv_next_slot_id h1 = saturating_add (hv_next_slot_id h) 1"
proof -
  let ?i = "le_slot_id le" and ?h = "put_slot h1 (le_slot_id le) s"
  have h1: "h1 = h\<lparr>hv_next_slot_id := saturating_add (hv_next_slot_id h) 1\<rparr>" and i: "?i = SlotId (hv_next_slot_id h)"
    using alloc by (auto simp: allocate_lease_def Let_def)
  show none: "slots_of h ?i = None"
  proof (rule ccontr)
    assume "slots_of h ?i \<noteq> None"
    then obtain t where "slots_of h ?i = Some t" by blast
    then show False using fresh_id[OF inv] i by fastforce
  qed
  have s1: "slots_of h1 = slots_of h" by (simp add: h1 slots_of_def)
  then show "slots_of ?h = (slots_of h)(?i \<mapsto> s)" by simp
  have ok: "hm_ok (hv_slots h)" by (rule hv_invD(1)[OF inv])
  show "length (hv_slots ?h) = Suc (length (hv_slots h))"
    using none ok by (simp add: put_slot_def h1 slots_of_def hm_length_insert)
  show "hv_slots_total h1 = hv_slots_total h" "hv_world h1 = hv_world h"
    "hv_next_slot_id h1 = saturating_add (hv_next_slot_id h) 1" by (simp_all add: h1)
  have kids: "kids_of ?h j = kids_of h j \<union> (if sl_parent s = Some j then {?i} else {})" for j
    using none by (auto simp: kids_of_def s1)
  have older: "j < ?i" if "slots_of h j \<noteq> None" for j using that fresh_id[OF inv] i by auto
  have no_kids: "kids_of h ?i = {}"
  proof (rule ccontr)
    assume "kids_of h ?i \<noteq> {}"
    then obtain j t where t: "slots_of h j = Some t" "sl_parent t = Some ?i" by (auto simp: kids_of_def)
    then show False using hv_invD(2)[OF inv t(1)] none by (simp add: slot_shape_def)
  qed
  have "slot_shape ?h j t \<and> (j \<notin> X \<longrightarrow> sl_state_kind t = slot_kind ?h j)" if t: "slots_of ?h j = Some t" for j t
  proof (cases "j = ?i")
    case True
    have "slot_id_get ?i < hv_next_slot_id ?h" using next_slot_Suc[OF fresh] by (simp add: i h1)
    then have "slot_shape ?h ?i s" using parent older lease none by (auto simp: s1 slot_shape_def split: option.splits)
    moreover have "sl_parent s \<noteq> Some ?i" using parent none by auto
    then have "slot_kind ?h ?i = SlotPaused" using no_kids by (simp add: slot_kind_def kids)
    ultimately show ?thesis using True t kind by simp
  next
    case False
    then have o: "slots_of h j = Some t" using t by (simp add: s1)
    have "hv_next_slot_id h < hv_next_slot_id ?h" using next_slot_Suc[OF fresh] by (simp add: h1)
    then have "slot_shape ?h j t" using hv_invD(2)[OF inv o] by (auto simp: slot_shape_def s1 split: option.splits)
    moreover have "slot_kind ?h j = slot_kind h j" if "j \<notin> X" using that parent by (auto simp: slot_kind_def kids)
    ultimately show ?thesis using hv_invD(3)[OF inv o] by simp
  qed
  then show "hv_inv_except X ?h" using ok by (simp add: hv_inv_except_def h1)
qed

section \<open>Requests\<close>

text \<open>
  What every request keeps, while lease ids remain. The pool may be shrunk below the number of live slots, so
  their number is bounded by the largest pool there was, not by the present one.
\<close>

definition hv_good :: "nat \<Rightarrow> fake_hypervisor \<Rightarrow> bool" where
  "hv_good N h \<longleftrightarrow> hv_inv h \<and> length (hv_slots h) \<le> N \<and> unat (hv_slots_total h) \<le> N"

definition keeps_good :: "fake_hypervisor \<Rightarrow> fake_hypervisor \<Rightarrow> bool" where
  "keeps_good h h' \<longleftrightarrow> hv_next_slot_id h \<le> hv_next_slot_id h'
     \<and> (\<forall>N. hv_good N h \<longrightarrow> hv_next_slot_id h' \<noteq> - 1 \<longrightarrow> hv_good N h')"

lemma same_slots_keeps: "same_slots h h' \<Longrightarrow> keeps_good h h'"
  using same_slots_inv[of h h' "{}"] by (auto simp: keeps_good_def hv_good_def same_slots_def)

lemma keeps_good_trans: "keeps_good h1 h2 \<Longrightarrow> keeps_good h2 h3 \<Longrightarrow> keeps_good h1 h3"
proof -
  assume a: "keeps_good h1 h2" "keeps_good h2 h3"
  have "hv_next_slot_id h2 \<noteq> - 1" if "hv_next_slot_id h3 \<noteq> - 1"
    using a(2) that word_order.extremum_uniqueI[of "hv_next_slot_id h3"] by (auto simp: keeps_good_def)
  then show ?thesis using a order_trans[of "hv_next_slot_id h1" "hv_next_slot_id h2"] unfolding keeps_good_def by blast
qed

text \<open>A request that consults the fault injector first.\<close>

lemma after_fault:
  assumes "bind_st (hv_decide_fault E op r n h) k = (res, h')"
    and "\<And>d h1. same_slots h h1 \<Longrightarrow> k d h1 = (res, h') \<Longrightarrow> keeps_good h1 h'"
  shows "keeps_good h h'"
  using assms decide_fault_same[of E op r n h]
  by (auto simp: bind_st_eq intro: same_slots_keeps keeps_good_trans[OF same_slots_keeps])

lemma ensure_capacity_room:
  assumes "ensure_capacity h n = Ok ()" "n \<noteq> 0"
  shows "length (hv_slots h) + unat n \<le> unat (hv_slots_total h)"
proof -
  have len: "length (hv_slots h) < 2 ^ 32" and "\<not> saturating_sub (hv_slots_total h) (word_of_nat (length (hv_slots h))) < n"
    using assms by (auto simp: ensure_capacity_def Let_def split: if_splits)
  moreover have "unat (word_of_nat (length (hv_slots h)) :: u32) = length (hv_slots h)"
    using len by (simp add: unsigned_of_nat take_bit_nat_eq_self)
  ultimately have "unat n \<le> unat (hv_slots_total h) - length (hv_slots h)"
    by (simp add: word_less_nat_alt unat_saturating_sub not_less)
  moreover have "0 < unat n" using assms(2) by (simp add: unat_gt_0)
  ultimately show ?thesis by linarith
qed

lemma add_root_keeps:
  assumes "allocate_lease E h c e = (le, h1)" "ensure_capacity h 1 = Ok ()" "sl_lease s = le" "sl_parent s = None"
    "sl_state_kind s = SlotPaused"
  shows "keeps_good h (push_slot_event (put_slot h1 (le_slot_id le) s) (le_slot_id le))"
proof -
  let ?h = "put_slot h1 (le_slot_id le) s"
  have n: "hv_next_slot_id ?h = saturating_add (hv_next_slot_id h) 1" "hv_slots_total ?h = hv_slots_total h"
    using assms(1) by (auto simp: allocate_lease_def Let_def)
  have sat: "saturating_add (- 1) (1 :: u64) = - 1"
    by (simp add: saturating_add_def unsigned_minus_1_eq_mask mask_eq_exp_minus_1)
  have "hv_good N ?h" if g: "hv_good N h" "hv_next_slot_id ?h \<noteq> - 1" for N
  proof -
    have "hv_next_slot_id h \<noteq> - 1" using g(2) n(1) sat by auto
    from add_slot_inv[OF _ assms(1,3,5) _ this, of "{}"] g(1) assms(4)
    have "hv_inv ?h" "length (hv_slots ?h) = Suc (length (hv_slots h))" by (auto simp: hv_good_def)
    then show ?thesis using ensure_capacity_room[OF assms(2)] n(2) g(1) by (simp add: hv_good_def)
  qed
  moreover have "hv_next_slot_id h \<le> hv_next_slot_id ?h"
    using next_slot_Suc[of "hv_next_slot_id h"] n(1) sat by (cases "hv_next_slot_id h = - 1") auto
  ultimately have "keeps_good h ?h" by (simp add: keeps_good_def)
  then show ?thesis using keeps_good_trans same_slots_keeps push_slot_event_same by blast
qed

lemma create_vm_keeps: "create_vm E r h = (res, h') \<Longrightarrow> keeps_good h h'"
  unfolding create_vm_def
proof (erule after_fault, goal_cases)
  case (1 d h1)
  obtain le h2 where a: "allocate_lease E h1 (cv_config r) (cv_entropy_seed r) = (le, h2)" by fastforce
  show ?case
  proof (cases "ensure_capacity h1 1")
    case (Ok u)
    then show ?thesis using 1(2) a add_root_keeps[OF a, of "slot_new_root le (cv_config r) (initial_state (hv_world h2))"]
      by (auto simp: slot_new_root_def)
  qed (use 1(2) same_slots_keeps[OF same_slots_refl] in auto)
qed

lemma restore_snapshot_keeps: "restore_snapshot E r h = (res, h') \<Longrightarrow> keeps_good h h'"
  unfolding restore_snapshot_def
proof (erule after_fault, goal_cases)
  case (1 d h1)
  show ?case
  proof (cases "ensure_capacity h1 1")
    case (Ok u)
    show ?thesis
    proof (cases "hm_get (hv_snapshots h1) (rs_snapshot r)")
      case (Some rec)
      obtain le h2 where a: "allocate_lease E h1 (sr_config rec) (case_option zero_entropy_seed id (rs_entropy_seed r)) = (le, h2)"
        by fastforce
      show ?thesis using 1(2) a Ok Some add_root_keeps[OF a, of "slot_from_snapshot le (rs_snapshot r) rec"]
        by (auto simp: slot_from_snapshot_def)
    qed (use 1(2) Ok same_slots_keeps[OF same_slots_refl] in auto)
  qed (use 1(2) same_slots_keeps[OF same_slots_refl] in auto)
qed

lemma find_slot_Ok: "find_slot h le = Ok s \<longleftrightarrow> slots_of h (le_slot_id le) = Some s \<and> le_token (sl_lease s) = le_token le"
  by (auto simp: find_slot_def slots_of_def split: option.splits)

lemma find_slot_no_Panic: "find_slot h le \<noteq> Panic m"
  by (auto simp: find_slot_def split: option.splits)

text \<open>A request that replaces a paused slot by a paused slot with the same lease and parent.\<close>

lemma replace_paused_keeps:
  assumes "slots_of h i = Some s" "sl_lease s' = sl_lease s" "sl_parent s' = sl_parent s" "sl_state_kind s' = sl_state_kind s"
  shows "keeps_good h (put_slot h i s')"
proof -
  have "hv_good N (put_slot h i s')" if g: "hv_good N h" for N
  proof -
    have inv: "hv_inv h" using g by (simp add: hv_good_def)
    have "sl_state_kind s' = slot_kind h i" using hv_invD(3)[OF inv assms(1)] assms(4) by simp
    then have "hv_inv (put_slot h i s')" by (intro put_slot_inv[OF inv assms(1-3)]) auto
    moreover have "length (hv_slots (put_slot h i s')) = length (hv_slots h)"
      using hv_invD(1)[OF inv] assms(1) by (simp add: put_slot_def hm_length_insert slots_of_def)
    ultimately show ?thesis using g by (simp add: hv_good_def)
  qed
  then show ?thesis by (simp add: keeps_good_def)
qed

lemma schedule_events_fields:
  "schedule_events s es = (r, s') \<Longrightarrow> sl_lease s' = sl_lease s \<and> sl_parent s' = sl_parent s \<and> sl_state_kind s' = sl_state_kind s"
  by (induction s es rule: schedule_events.induct) (auto simp: Let_def split: option.splits)

definition same_handle :: "hv_slot \<Rightarrow> hv_slot \<Rightarrow> bool" where
  "same_handle s s' \<longleftrightarrow> sl_lease s' = sl_lease s \<and> sl_parent s' = sl_parent s \<and> sl_state_kind s' = sl_state_kind s"

lemma advance_fields:
  "advance_frames w n cap s = (r1, s1) \<Longrightarrow> same_handle s s1"
  "advance_icount_budget b cap s = (r2, s2) \<Longrightarrow> same_handle s s2"
  "advance_vns_budget v s = (r3, s3) \<Longrightarrow> same_handle s s3"
proof -
  obtain f reason where f: "frames_to_run s n cap = (f, reason)" by fastforce
  show "advance_frames w n cap s = (r1, s1) \<Longrightarrow> same_handle s s1"
    unfolding advance_frames_def f drain_due_actions_def by (auto simp: bind_st_eq Let_def same_handle_def)
  show "advance_icount_budget b cap s = (r2, s2) \<Longrightarrow> same_handle s s2"
    unfolding advance_icount_budget_def by (auto simp: bind_st_eq Let_def same_handle_def split: prod.splits)
  show "advance_vns_budget v s = (r3, s3) \<Longrightarrow> same_handle s s3"
    unfolding advance_vns_budget_def by (auto simp: bind_st_eq same_handle_def)
qed

lemma run_slot_fields: "run_slot w until cap s = (r, s') \<Longrightarrow> same_handle s s'"
  by (cases until) (auto simp: run_slot_def bind_st_eq dest: advance_fields split: if_splits, simp_all add: same_handle_def)

lemma inject_inputs_keeps: "inject_inputs E r h = (res, h') \<Longrightarrow> keeps_good h h'"
  unfolding inject_inputs_def
proof (erule after_fault, goal_cases)
  case (1 d h1)
  let ?i = "le_slot_id (ii_lease r)"
  have refl: "keeps_good h1 h1" by (rule same_slots_keeps) simp
  show ?case
  proof (cases "find_slot h1 (ii_lease r)")
    case (Ok s)
    obtain res1 s1 where e: "schedule_events s (ii_events r) = (res1, s1)" by fastforce
    have s: "slots_of h1 ?i = Some s" using Ok by (simp add: find_slot_Ok)
    have "keeps_good h1 (put_slot h1 ?i s1)" "keeps_good h1 (put_slot h1 ?i (s1\<lparr>sl_pending_actions := sort_pending (sl_pending_actions s1)\<rparr>))"
      using schedule_events_fields[OF e] by (auto intro!: replace_paused_keeps[OF s])
    then show ?thesis using 1(2) Ok e refl by (auto simp: bind_st_eq Let_def)
  qed (use 1(2) refl find_slot_no_Panic in \<open>auto simp: bind_st_eq\<close>)
qed

lemma hv_run_keeps: "hv_run E r h = (res, h') \<Longrightarrow> keeps_good h h'"
  unfolding hv_run_def
proof (erule after_fault, goal_cases)
  case (1 d h1)
  let ?i = "le_slot_id (rr_lease r)"
  have refl: "keeps_good h1 h1" by (rule same_slots_keeps) simp
  show ?case
  proof (cases "find_slot h1 (rr_lease r)")
    case (Ok s)
    have s: "slots_of h1 ?i = Some s" using Ok by (simp add: find_slot_Ok)
    let ?s = "s\<lparr>sl_state_kind := SlotRunning\<rparr>"
    let ?h = "push_slot_event (put_slot h1 ?i ?s) ?i"
    obtain res1 s1 where e: "run_slot (hv_world ?h) (rr_until r) (rr_hard_icount_cap r) ?s = (res1, s1)" by fastforce
    let ?t = "s1\<lparr>sl_state_kind := SlotPaused\<rparr>"
    have "same_slots (put_slot h1 ?i ?t) (put_slot ?h ?i ?t)"
      by (auto simp: same_slots_def push_slot_event_def put_slot_def hm_insert_def split: option.splits)
    then have step: "keeps_good (put_slot h1 ?i ?t) (push_slot_event (put_slot ?h ?i ?t) ?i)"
      using same_slots_keeps same_slots_trans push_slot_event_same by blast
    show ?thesis
    proof (cases "ensure_paused s ''run''")
      case paused: (Ok u)
      then have "sl_state_kind s = SlotPaused" by (auto simp: ensure_paused_def split: if_splits)
      then have "keeps_good h1 (put_slot h1 ?i ?t)"
        using run_slot_fields[OF e] by (intro replace_paused_keeps[OF s]) (auto simp: same_handle_def)
      then have "keeps_good h1 (push_slot_event (put_slot ?h ?i ?t) ?i)" using step by (rule keeps_good_trans)
      then show ?thesis using 1(2) Ok e refl paused by (auto simp: bind_st_eq Let_def split: prod.splits)
    qed (use 1(2) refl Ok in \<open>auto simp: bind_st_eq ensure_paused_def split: if_splits\<close>)
  qed (use 1(2) refl find_slot_no_Panic in \<open>auto simp: bind_st_eq\<close>)
qed

lemma take_snapshot_same: "take_snapshot E r h = (res, h') \<Longrightarrow> same_slots h h'"
  using decide_fault_same[of E "''take_snapshot''" "RqTakeSnapshot r" 0 h]
  by (auto simp: take_snapshot_def bind_st_eq Let_def same_slots_def)

lemma reads_same:
  "list_slots E h = (r1, h1) \<Longrightarrow> same_slots h h1"
  "watch_slots E h = (r2, h2) \<Longrightarrow> same_slots h h2"
  "worker_info E h = (r3, h3) \<Longrightarrow> same_slots h h3"
proof -
  show "list_slots E h = (r1, h1) \<Longrightarrow> same_slots h h1"
    by (auto simp: list_slots_def bind_st_eq Let_def dest: decide_fault_same)
  show "watch_slots E h = (r2, h2) \<Longrightarrow> same_slots h h2"
    by (auto simp: watch_slots_def bind_st_eq Let_def same_slots_def dest!: decide_fault_same)
  show "worker_info E h = (r3, h3) \<Longrightarrow> same_slots h h3"
    by (auto simp: worker_info_def bind_st_eq Let_def dest: decide_fault_same)
qed

lemma maintenance_same:
  "same_slots h (snd (retain_live_snapshots h X))" "same_slots h (snd (compact_consumed_watch_events h))"
  by (auto simp: retain_live_snapshots_def compact_consumed_watch_events_def same_slots_def Let_def)

section \<open>Forking\<close>

lemma saturating_Suc_min: "unat (saturating_add x 1 :: u64) = min (Suc (unat x)) (2 ^ 64 - 1)"
  by (simp add: unat_saturating_add)

text \<open>The children are fresh slots below the forked one, which is exempt until it is frozen.\<close>

lemma fork_children_next:
  "fork_children E p i es h cs = (cs', h') \<Longrightarrow> unat (hv_next_slot_id h') = min (unat (hv_next_slot_id h) + length es) (2 ^ 64 - 1)
    \<and> hv_slots_total h' = hv_slots_total h"
proof (induction es arbitrary: h cs)
  case Nil
  have "unat (hv_next_slot_id h) < 2 ^ 64" by (rule less_le_trans[OF unsigned_less]) simp
  then show ?case using Nil by simp
next
  case (Cons e es)
  obtain le h1 where a: "allocate_lease E h (sl_config p) e = (le, h1)" by fastforce
  then have "hv_next_slot_id h1 = saturating_add (hv_next_slot_id h) 1" "hv_slots_total h1 = hv_slots_total h"
    by (auto simp: allocate_lease_def Let_def)
  then show ?case using Cons.IH[of "put_slot h1 (le_slot_id le) (clone_as_child p le i)"] Cons.prems a
    by (simp add: saturating_Suc_min)
qed

lemma fork_children_inv:
  assumes "fork_children E p i es h cs = (cs', h')" "hv_inv_except {i} h" "slots_of h i = Some q"
    "unat (hv_next_slot_id h) + length es < 2 ^ 64 - 1"
  shows "hv_inv_except {i} h' \<and> slots_of h' i = Some q \<and> (es \<noteq> [] \<or> kids_of h i \<noteq> {} \<longrightarrow> kids_of h' i \<noteq> {})
    \<and> length (hv_slots h') = length (hv_slots h) + length es"
  using assms
proof (induction es arbitrary: h cs)
  case (Cons e es)
  obtain le h1 where a: "allocate_lease E h (sl_config p) e = (le, h1)" by fastforce
  let ?s = "clone_as_child p le i" and ?h = "put_slot h1 (le_slot_id le) (clone_as_child p le i)"
  have n: "hv_next_slot_id h \<noteq> - 1"
    using Cons.prems(4) by (auto simp: unsigned_minus_1_eq_mask mask_eq_exp_minus_1)
  have c: "sl_lease ?s = le" "sl_state_kind ?s = SlotPaused" "sl_parent ?s = Some i" by (simp_all add: clone_as_child_def)
  note add = add_slot_inv[OF Cons.prems(2) a c(1,2) _ n]
  have add': "hv_inv_except {i} ?h" "slots_of h (le_slot_id le) = None" "slots_of ?h = (slots_of h)(le_slot_id le \<mapsto> ?s)"
    "length (hv_slots ?h) = Suc (length (hv_slots h))" "hv_next_slot_id h1 = saturating_add (hv_next_slot_id h) 1"
    using add c(3) Cons.prems(3) by simp_all
  have q: "slots_of ?h i = Some q" using add'(2,3) Cons.prems(3) by (cases "i = le_slot_id le") auto
  have "kids_of ?h i \<noteq> {}" using add'(3) c(3) by (auto simp: kids_of_def simp del: slots_of_put)
  moreover have "unat (hv_next_slot_id ?h) + length es < 2 ^ 64 - 1"
    using Cons.prems(4) by (simp add: add'(5) saturating_Suc_min)
  ultimately show ?case using Cons.IH[OF _ add'(1) q, of "cs @ [le]"] Cons.prems(1) a add'(4) by (simp del: slots_of_put)
qed simp

lemma fork_freezes:
  assumes c: "fork_children E p i es h cs = (cs', h')" and p: "slots_of h i = Some p" and g: "hv_good N h"
    and n: "hv_next_slot_id h' \<noteq> - 1" and es: "es \<noteq> []" and room: "length (hv_slots h) + length es \<le> unat (hv_slots_total h)"
  shows "slots_of h' i = Some p \<and> hv_good N (put_slot h' i (p\<lparr>sl_state_kind := SlotFrozen\<rparr>))"
proof -
  have "unat (hv_next_slot_id h') \<noteq> 2 ^ 64 - 1"
    using n by (auto simp: word_unat_eq_iff unsigned_minus_1_eq_mask mask_eq_exp_minus_1)
  then have small: "unat (hv_next_slot_id h) + length es < 2 ^ 64 - 1" using fork_children_next[OF c] by linarith
  have inv: "hv_inv_except {i} h" using g by (auto simp: hv_good_def hv_inv_except_def)
  from fork_children_inv[OF c inv p small] es have h': "hv_inv_except {i} h'" "slots_of h' i = Some p" "kids_of h' i \<noteq> {}"
    "length (hv_slots h') = length (hv_slots h) + length es" by auto
  let ?h = "put_slot h' i (p\<lparr>sl_state_kind := SlotFrozen\<rparr>)"
  have "hv_inv ?h" using h'(3) by (intro put_slot_inv[OF h'(1,2)]) (auto simp: slot_kind_def)
  moreover have "length (hv_slots ?h) = length (hv_slots h')"
    using hv_invD(1)[OF h'(1)] h'(2) by (simp add: put_slot_def hm_length_insert slots_of_def)
  ultimately show ?thesis using h' room g fork_children_next[OF c] by (simp add: hv_good_def)
qed

lemma fork_children_mono:
  assumes "fork_children E p i es h cs = (cs', h')"
  shows "hv_next_slot_id h \<le> hv_next_slot_id h'"
proof -
  have "unat (hv_next_slot_id h) < 2 ^ LENGTH(64)" by (rule unsigned_less)
  then show ?thesis using fork_children_next[OF assms] by (simp add: word_le_nat_alt)
qed

lemma fork_keeps:
  assumes f: "fork E r h = (res, h')"
  shows "keeps_good h h'"
proof (cases "fork_validate r")
  case v: (Ok u)
  let ?i = "le_slot_id (fk_parent r)"
  have refl: "keeps_good x x" for x by (rule same_slots_keeps) simp
  have v': "fk_count r \<noteq> 0" "length (fk_entropy_seeds r) = unat (fk_count r)" "fk_entropy_seeds r \<noteq> []"
    using v by (auto simp: fork_validate_def unat_eq_zero split: if_splits)
  show ?thesis
  proof (rule after_fault[OF f[unfolded fork_def v bind_st.simps]], goal_cases)
    case (1 d h1)
    show ?case
    proof (cases "ensure_capacity h1 (fk_count r) = Ok () \<and> (\<exists>p. find_slot h1 (fk_parent r) = Ok p \<and> ensure_paused p ''fork'' = Ok ())")
      case True
      then obtain p where cap: "ensure_capacity h1 (fk_count r) = Ok ()" and fs: "find_slot h1 (fk_parent r) = Ok p"
        and pz: "ensure_paused p ''fork'' = Ok ()" by blast
      obtain cs h2 where c: "fork_children E p ?i (fk_entropy_seeds r) h1 [] = (cs, h2)" by fastforce
      have p: "slots_of h1 ?i = Some p" using fs by (simp add: find_slot_Ok)
      have room: "length (hv_slots h1) + length (fk_entropy_seeds r) \<le> unat (hv_slots_total h1)"
        using ensure_capacity_room[OF cap v'(1)] v'(2) by simp
      note freeze = fork_freezes[OF c p _ _ v'(3) room] and mono = fork_children_mono[OF c]
      show ?thesis
      proof (cases "hm_get (hv_slots h2) ?i")
        case None
        then have "h' = h2" using 1(2) cap fs pz c by simp
        then show ?thesis using freeze mono None by (auto simp: keeps_good_def slots_of_def)
      next
        case (Some q)
        let ?h3 = "put_slot h2 ?i (q\<lparr>sl_state_kind := SlotFrozen\<rparr>)"
        have k: "keeps_good h1 ?h3" using freeze mono Some by (auto simp: keeps_good_def slots_of_def)
        have "same_slots ?h3 (foldl (\<lambda>h le. push_slot_event h (le_slot_id le)) (push_slot_event ?h3 ?i) cs)"
          by (rule same_slots_trans[OF push_slot_event_same foldl_push_same])
        then show ?thesis using 1(2) cap fs pz c Some keeps_good_trans[OF k same_slots_keeps] by (simp add: Let_def)
      qed
    next
      case False
      then have "h' = h1" using 1(2) by (auto simp: bind_st_eq)
      then show ?thesis using refl by simp
    qed
  qed
qed (use f same_slots_keeps[OF same_slots_refl] in \<open>auto simp: fork_def\<close>)

section \<open>Destroying\<close>

lemma hm_remove_filter: "hm_remove m k = filter (\<lambda>e. fst e \<noteq> k) m"
  by (auto simp: hm_remove_def AList.delete_eq intro!: filter_cong)

lemma remove_slot_inv:
  fixes evs
  assumes inv: "hv_inv h" and s: "slots_of h i = Some s" and leaf: "kids_of h i = {}"
  defines "h' \<equiv> h\<lparr>hv_slots := hm_remove (hv_slots h) i, hv_watch_events := evs\<rparr>"
  shows "hv_inv_except (set_option (sl_parent s)) h'" "slots_of h' = (slots_of h)(i := None)"
    "length (hv_slots h') < length (hv_slots h)" "kids_of h' j = kids_of h j - {i}"
proof -
  have ok: "hm_ok (hv_slots h)" by (rule hv_invD(1)[OF inv])
  show s': "slots_of h' = (slots_of h)(i := None)" by (simp add: h'_def slots_of_def)
  have kids: "kids_of h' j = kids_of h j - {i}" for j by (auto simp: kids_of_def s')
  then show "kids_of h' j = kids_of h j - {i}" .
  have "(i, s) \<in> set (hv_slots h)" using s by (auto simp: slots_of_def dest: map_of_SomeD)
  then show "length (hv_slots h') < length (hv_slots h)"
    by (auto simp: h'_def hm_remove_filter intro!: length_filter_less)
  have fields: "hv_next_slot_id h' = hv_next_slot_id h" by (simp add: h'_def)
  have "slot_shape h' j t \<and> (j \<notin> set_option (sl_parent s) \<longrightarrow> sl_state_kind t = slot_kind h' j)"
    if t: "slots_of h' j = Some t" for j t
  proof -
    have j: "j \<noteq> i" "slots_of h j = Some t" using t by (auto simp: s' split: if_splits)
    have "sl_parent t \<noteq> Some i" using leaf j(2) by (auto simp: kids_of_def)
    then have "slot_shape h' j t"
      using hv_invD(2)[OF inv j(2)] by (auto simp: slot_shape_def s' fields split: option.splits)
    moreover have "slot_kind h' j = slot_kind h j" if "j \<notin> set_option (sl_parent s)"
    proof -
      have "i \<notin> kids_of h j" using that s by (auto simp: kids_of_def)
      then show ?thesis by (simp add: slot_kind_def kids)
    qed
    ultimately show ?thesis using hv_invD(3)[OF inv j(2)] by simp
  qed
  then show "hv_inv_except (set_option (sl_parent s)) h'" using ok by (simp add: hv_inv_except_def h'_def)
qed

lemma unfreeze_inv:
  assumes inv: "hv_inv_except {p} h" and q: "slots_of h p = Some q" "sl_state_kind q = SlotFrozen"
  shows "hv_inv (maybe_unfreeze_parent h p) \<and> length (hv_slots (maybe_unfreeze_parent h p)) = length (hv_slots h)
    \<and> hv_next_slot_id (maybe_unfreeze_parent h p) = hv_next_slot_id h
    \<and> hv_slots_total (maybe_unfreeze_parent h p) = hv_slots_total h"
proof -
  have ok: "hm_ok (hv_slots h)" by (rule hv_invD(1)[OF inv])
  show ?thesis
  proof (cases "kids_of h p = {}")
    case True
    let ?h = "put_slot h p (q\<lparr>sl_state_kind := SlotPaused\<rparr>)"
    have m: "maybe_unfreeze_parent h p = push_slot_event ?h p"
      using True q live_children_empty[OF ok] by (simp add: maybe_unfreeze_parent_def slots_of_def)
    have "hv_inv ?h" using True by (intro put_slot_inv[OF inv q(1)]) (auto simp: slot_kind_def)
    moreover have "length (hv_slots ?h) = length (hv_slots h)"
      using ok q(1) by (simp add: put_slot_def hm_length_insert slots_of_def)
    moreover have "same_slots ?h (push_slot_event ?h p)" by simp
    ultimately show ?thesis unfolding m using same_slots_inv[of ?h "push_slot_event ?h p" "{}"] by (simp add: same_slots_def)
  next
    case False
    then have "maybe_unfreeze_parent h p = h"
      using live_children_empty[OF ok] by (simp add: maybe_unfreeze_parent_def)
    moreover have "slot_kind h p = SlotFrozen" using False by (simp add: slot_kind_def)
    then have "hv_inv h" using inv q unfolding hv_inv_except_def by (metis option.inject singletonD)
    ultimately show ?thesis by simp
  qed
qed

lemma destroy_vm_keeps:
  assumes "destroy_vm E le h = (res, h')"
  shows "keeps_good h h'"
proof (rule after_fault[OF assms[unfolded destroy_vm_def]], goal_cases)
  case (1 d h1)
  let ?i = "le_slot_id le"
  have refl: "keeps_good h1 h1" by (rule same_slots_keeps) simp
  show ?case
  proof (cases "find_slot h1 le")
    case (Ok s)
    let ?h = "h1\<lparr>hv_slots := hm_remove (hv_slots h1) ?i, hv_watch_events := hv_watch_events h1 @ [empty_slot_info s]\<rparr>"
    let ?g = "case sl_parent s of None \<Rightarrow> ?h | Some p \<Rightarrow> maybe_unfreeze_parent ?h p"
    have s: "slots_of h1 ?i = Some s" using Ok by (simp add: find_slot_Ok)
    have n: "hv_next_slot_id ?g = hv_next_slot_id h1"
      by (auto simp: maybe_unfreeze_parent_def push_slot_event_def Let_def split: option.splits)
    have "hv_good N ?g" if g: "hv_good N h1" and lc: "live_children h1 ?i = []" for N
    proof -
      have inv: "hv_inv h1" using g by (simp add: hv_good_def)
      have leaf: "kids_of h1 ?i = {}" using live_children_empty[OF hv_invD(1)[OF inv]] lc by simp
      note rm = remove_slot_inv[OF inv s leaf, of "hv_watch_events h1 @ [empty_slot_info s]"]
      show ?thesis
      proof (cases "sl_parent s")
        case None
        then show ?thesis using rm(1,3) g by (simp add: hv_good_def)
      next
        case (Some p)
        then have p: "p < ?i" "slots_of h1 p \<noteq> None" using hv_invD(2)[OF inv s] by (auto simp: slot_shape_def)
        then obtain q where q: "slots_of h1 p = Some q" by blast
        have "?i \<in> kids_of h1 p" using s Some by (auto simp: kids_of_def)
        then have "sl_state_kind q = SlotFrozen" using hv_invD(3)[OF inv q] by (auto simp: slot_kind_def)
        moreover have "slots_of ?h p = Some q" using rm(2) q p(1) by auto
        ultimately show ?thesis using unfreeze_inv[of p ?h q] rm(1,3) Some g by (simp add: hv_good_def)
      qed
    qed
    then have "keeps_good h1 ?g" if "live_children h1 ?i = []" using that n by (auto simp: keeps_good_def)
    then show ?thesis using 1(2) Ok refl by (auto simp: Let_def split: if_splits)
  qed (use 1(2) refl in auto)
qed

section \<open>Reclaiming a session\<close>

lemma reclaim_pass:
  assumes "hm_ok (hv_slots h)" "distinct is" "set is \<subseteq> fst ` set (hv_slots h)"
  shows "\<exists>evs. foldl reclaim_slot h is = h\<lparr>hv_slots := filter (\<lambda>e. fst e \<notin> set is) (hv_slots h),
      hv_watch_events := hv_watch_events h @ evs\<rparr> \<and> map si_slot_id evs = is \<and> (\<forall>e \<in> set evs. si_state e = SlotEmpty)"
  using assms
proof (induction "is" arbitrary: h)
  case Nil
  then show ?case by (intro exI[of _ "[]"]) simp
next
  case (Cons i js)
  then obtain s where s: "hm_get (hv_slots h) i = Some s" by (auto simp: map_of_eq_None_iff dest: weak_map_of_SomeI)
  let ?ev = "(empty_slot_info s)\<lparr>si_slot_id := i\<rparr>"
  let ?h = "h\<lparr>hv_slots := hm_remove (hv_slots h) i, hv_watch_events := hv_watch_events h @ [?ev]\<rparr>"
  have r: "reclaim_slot h i = ?h" using s by (simp add: reclaim_slot_def)
  have "set js \<subseteq> fst ` set (hv_slots ?h)" using Cons.prems(2,3) by (fastforce simp: hm_remove_filter)
  then obtain evs where "foldl reclaim_slot ?h js = ?h\<lparr>hv_slots := filter (\<lambda>e. fst e \<notin> set js) (hv_slots ?h),
      hv_watch_events := hv_watch_events ?h @ evs\<rparr>" "map si_slot_id evs = js" "\<forall>e \<in> set evs. si_state e = SlotEmpty"
    using Cons.IH[of ?h] Cons.prems(1,2) by auto
  then show ?case using r
    by (intro exI[of _ "?ev # evs"]) (auto simp: hm_remove_filter empty_slot_info_def conj_commute)
qed

lemma reclaim_leaves_spec:
  assumes "hv_inv_except X h"
  shows "distinct (reclaim_leaves h)" "set (reclaim_leaves h) = {i. slots_of h i \<noteq> None \<and> kids_of h i = {}}"
    "hv_slots h \<noteq> [] \<Longrightarrow> reclaim_leaves h \<noteq> []"
proof -
  let ?m = "hm_sorted (hv_slots h)"
  have ok: "hm_ok (hv_slots h)" by (rule hv_invD(1)[OF assms])
  note srt = hm_sorted_props[OF ok]
  have "le_slot_id (sl_lease s) = i" if "(i, s) \<in> set ?m" for i s
    using that srt ok hv_invD(2)[OF assms, of i s] by (simp add: slots_of_def slot_shape_def)
  then have leaves: "reclaim_leaves h = map fst (filter (\<lambda>(i, s). live_children h i = []) ?m)"
    by (auto simp: reclaim_leaves_def filter_map comp_def intro!: map_cong filter_cong)
  show "distinct (reclaim_leaves h)" unfolding leaves using srt by (simp add: distinct_map_filter)
  have keys: "(\<exists>s. (i, s) \<in> set ?m) \<longleftrightarrow> slots_of h i \<noteq> None" for i
    using srt(3) ok by (auto simp: slots_of_def dest: map_of_SomeD)
  show leaf: "set (reclaim_leaves h) = {i. slots_of h i \<noteq> None \<and> kids_of h i = {}}"
    unfolding leaves using keys live_children_empty[OF ok] by (force simp: image_iff)
  show "reclaim_leaves h \<noteq> []" if ne: "hv_slots h \<noteq> []"
  proof -
    let ?D = "fst ` set (hv_slots h)"
    have "Max ?D \<in> ?D" using ne by (intro Max_in) auto
    then have D: "slots_of h (Max ?D) \<noteq> None" by (simp add: slots_of_def map_of_eq_None_iff)
    have "kids_of h (Max ?D) = {}"
    proof (rule ccontr)
      assume "kids_of h (Max ?D) \<noteq> {}"
      then obtain j t where t: "slots_of h j = Some t" "sl_parent t = Some (Max ?D)" by (auto simp: kids_of_def)
      have "j \<in> ?D" using t(1) by (force simp: slots_of_def dest: map_of_SomeD)
      then have "\<not> Max ?D < j" by (simp add: not_less)
      then show False using hv_invD(2)[OF assms t(1)] t(2) by (simp add: slot_shape_def)
    qed
    then show ?thesis using D leaf by auto
  qed
qed

text \<open>Every slot is announced empty exactly once, after all its children.\<close>

definition child_first :: "fake_hypervisor \<Rightarrow> slot_id list \<Rightarrow> bool" where
  "child_first h ids \<longleftrightarrow> (\<forall>k < length ids. kids_of h (ids ! k) \<subseteq> set (take k ids))"

lemma child_first_append:
  assumes "child_first h' js" "\<forall>i \<in> set is. kids_of h i = {}" "\<And>j. kids_of h j \<subseteq> set is \<union> kids_of h' j"
  shows "child_first h (is @ js)"
  unfolding child_first_def
proof (intro allI impI)
  fix k assume k: "k < length (is @ js)"
  show "kids_of h ((is @ js) ! k) \<subseteq> set (take k (is @ js))"
  proof (cases "k < length is")
    case True
    then show ?thesis using assms(2) by (simp add: nth_append)
  next
    case False
    then have "k - length is < length js" using k by auto
    then have "kids_of h' (js ! (k - length is)) \<subseteq> set (take (k - length is) js)" using assms(1) by (auto simp: child_first_def)
    then show ?thesis using assms(3)[of "js ! (k - length is)"] False by (auto simp: nth_append)
  qed
qed

lemma reclaim_pass_inv:
  fixes evs
  assumes inv: "hv_inv_except X h" and L: "\<forall>i \<in> L. kids_of h i = {}"
  defines "h' \<equiv> h\<lparr>hv_slots := filter (\<lambda>e. fst e \<notin> L) (hv_slots h), hv_watch_events := evs\<rparr>"
  shows "hv_inv_except UNIV h'" "kids_of h j \<subseteq> L \<union> kids_of h' j" "slots_of h' i = (if i \<in> L then None else slots_of h i)"
proof -
  have ok: "hm_ok (hv_slots h)" by (rule hv_invD(1)[OF inv])
  have m: "map_of (filter (\<lambda>e. fst e \<notin> L) m) i = (if i \<in> L then None else map_of m i)" for m :: "(slot_id \<times> hv_slot) list" and i
    by (induction m) auto
  show s': "slots_of h' i = (if i \<in> L then None else slots_of h i)" for i by (simp add: slots_of_def h'_def m)
  show "kids_of h j \<subseteq> L \<union> kids_of h' j" by (auto simp: kids_of_def s')
  have "slot_shape h' j t" if "slots_of h' j = Some t" for j t
  proof -
    have t: "slots_of h j = Some t" using that by (auto simp: s' split: if_splits)
    have "p \<notin> L" if "sl_parent t = Some p" for p using L t that by (auto simp: kids_of_def)
    moreover have "hv_next_slot_id h' = hv_next_slot_id h" by (simp add: h'_def)
    ultimately show ?thesis using hv_invD(2)[OF inv t] by (auto simp: slot_shape_def s' split: option.splits)
  qed
  moreover have "hm_ok (hv_slots h')" using ok by (simp add: h'_def distinct_map_filter)
  ultimately show "hv_inv_except UNIV h'" by (simp add: hv_inv_except_def)
qed

lemma reclaim_session_spec:
  assumes "hv_inv_except X h"
  shows "\<exists>evs. reclaim_session h = Some (h\<lparr>hv_slots := [], hv_watch_events := hv_watch_events h @ evs\<rparr>)
    \<and> distinct (map si_slot_id evs) \<and> set (map si_slot_id evs) = {i. slots_of h i \<noteq> None}
    \<and> child_first h (map si_slot_id evs) \<and> (\<forall>e \<in> set evs. si_state e = SlotEmpty)"
  using assms
proof (induction "length (hv_slots h)" arbitrary: h X rule: less_induct)
  case less
  show ?case
  proof (cases "hv_slots h = []")
    case True
    then have "h = h\<lparr>hv_slots := [], hv_watch_events := hv_watch_events h @ []\<rparr>" by simp
    then show ?thesis using True by (intro exI[of _ "[]"]) (simp add: reclaim_session.simps slots_of_def child_first_def)
  next
    case False
    note leaves = reclaim_leaves_spec[OF less.prems]
    let ?L = "reclaim_leaves h"
    have sub: "set ?L \<subseteq> fst ` set (hv_slots h)" using leaves(2) by (auto simp: slots_of_def map_of_eq_None_iff)
    from reclaim_pass[OF hv_invD(1)[OF less.prems] leaves(1) sub] obtain ev0 where
      pass: "foldl reclaim_slot h ?L = h\<lparr>hv_slots := filter (\<lambda>e. fst e \<notin> set ?L) (hv_slots h),
        hv_watch_events := hv_watch_events h @ ev0\<rparr>" (is "_ = ?h")
      and ev0: "map si_slot_id ev0 = ?L" "\<forall>e \<in> set ev0. si_state e = SlotEmpty" by blast
    have noKids: "\<forall>i \<in> set ?L. kids_of h i = {}" using leaves(2) by auto
    note after = reclaim_pass_inv[OF less.prems noKids, where evs = "hv_watch_events h @ ev0"]
    obtain e where e: "e \<in> set (hv_slots h)" "fst e \<in> set ?L" using leaves(3)[OF False] sub by (cases ?L) auto
    then have "length (hv_slots ?h) < length (hv_slots h)" by (auto intro!: length_filter_less[OF e(1)])
    from less.hyps[OF this after(1)] obtain ev1 where
      ev1: "reclaim_session ?h = Some (?h\<lparr>hv_slots := [], hv_watch_events := hv_watch_events ?h @ ev1\<rparr>)"
        "distinct (map si_slot_id ev1)" "set (map si_slot_id ev1) = {i. slots_of ?h i \<noteq> None}"
        "child_first ?h (map si_slot_id ev1)" "\<forall>e \<in> set ev1. si_state e = SlotEmpty" by blast
    have "reclaim_session h = Some (h\<lparr>hv_slots := [], hv_watch_events := hv_watch_events h @ ev0 @ ev1\<rparr>)"
      using False pass ev1(1) reclaim_session.simps[of h] by simp
    moreover have ids: "set (map si_slot_id ev1) = {i. slots_of h i \<noteq> None \<and> i \<notin> set ?L}"
      unfolding ev1(3) after(3) by auto
    have "distinct (?L @ map si_slot_id ev1)" "set (?L @ map si_slot_id ev1) = {i. slots_of h i \<noteq> None}"
      using leaves(1,2) ev1(2) ids by auto
    moreover have "child_first h (?L @ map si_slot_id ev1)"
      using noKids after(2) by (intro child_first_append[OF ev1(4)]) auto
    ultimately show ?thesis using ev0 ev1(5) by (intro exI[of _ "ev0 @ ev1"]) auto
  qed
qed

lemma foldl_reclaim_next: "hv_next_slot_id (foldl reclaim_slot h is) = hv_next_slot_id h"
  by (induction "is" arbitrary: h) (simp_all add: reclaim_slot_def split: option.splits)

lemma reclaim_session_next:
  assumes "reclaim_session h = Some h'"
  shows "hv_next_slot_id h' = hv_next_slot_id h"
proof (rule reclaim_session.raw_induct[where P = "\<lambda>h h'. hv_next_slot_id h' = hv_next_slot_id h", OF _ assms], goal_cases)
  case (1 rec h y)
  then show ?case using foldl_reclaim_next[of h "reclaim_leaves h"] by (fastforce split: if_splits)
qed

section \<open>Every sequence of requests\<close>

inductive hv_request :: "hv_env \<Rightarrow> fake_hypervisor \<Rightarrow> fake_hypervisor \<Rightarrow> bool" for E where
  rq_create: "create_vm E r h = (res, h') \<Longrightarrow> hv_request E h h'"
| rq_restore: "restore_snapshot E r h = (res, h') \<Longrightarrow> hv_request E h h'"
| rq_fork: "fork E r h = (res, h') \<Longrightarrow> hv_request E h h'"
| rq_inject: "inject_inputs E r h = (res, h') \<Longrightarrow> hv_request E h h'"
| rq_run: "hv_run E r h = (res, h') \<Longrightarrow> hv_request E h h'"
| rq_snapshot: "take_snapshot E r h = (res, h') \<Longrightarrow> hv_request E h h'"
| rq_destroy: "destroy_vm E le h = (res, h') \<Longrightarrow> hv_request E h h'"
| rq_list: "list_slots E h = (res, h') \<Longrightarrow> hv_request E h h'"
| rq_watch: "watch_slots E h = (res, h') \<Longrightarrow> hv_request E h h'"
| rq_info: "worker_info E h = (res, h') \<Longrightarrow> hv_request E h h'"
| rq_retain: "hv_request E h (snd (retain_live_snapshots h X))"
| rq_compact: "hv_request E h (snd (compact_consumed_watch_events h))"

text \<open>\<open>N\<close> bounds every pool size the worker was ever given.\<close>

inductive hv_reachable :: "hv_env \<Rightarrow> nat \<Rightarrow> fake_hypervisor \<Rightarrow> bool" for E N where
  hr_new: "unat n \<le> N \<Longrightarrow> hv_reachable E N (with_world_slots_and_fault_plan w n plan)"
| hr_request: "hv_reachable E N h \<Longrightarrow> hv_request E h h' \<Longrightarrow> hv_reachable E N h'"
| hr_resize: "hv_reachable E N h \<Longrightarrow> unat n \<le> N \<Longrightarrow> hv_reachable E N (set_slots_total h n)"
| hr_reclaim: "hv_reachable E N h \<Longrightarrow> reclaim_session h = Some h' \<Longrightarrow> hv_reachable E N h'"

lemma hv_request_keeps: "hv_request E h h' \<Longrightarrow> keeps_good h h'"
  by (induction rule: hv_request.induct)
    (auto intro: create_vm_keeps restore_snapshot_keeps fork_keeps inject_inputs_keeps hv_run_keeps destroy_vm_keeps
       same_slots_keeps take_snapshot_same reads_same maintenance_same)

lemma hv_reachable_good:
  assumes "hv_reachable E N h" "hv_next_slot_id h \<noteq> - 1"
  shows "hv_good N h"
  using assms
proof (induction rule: hv_reachable.induct)
  case (hr_new n w plan)
  then show ?case by (simp add: with_world_slots_and_fault_plan_def hv_good_def hv_inv_except_def slots_of_def)
next
  case (hr_request h h')
  have k: "keeps_good h h'" by (rule hv_request_keeps[OF hr_request(2)])
  then have "hv_next_slot_id h \<noteq> - 1"
    using hr_request.prems word_order.extremum_uniqueI[of "hv_next_slot_id h'"] by (auto simp: keeps_good_def)
  then show ?case using k hr_request by (auto simp: keeps_good_def)
next
  case (hr_resize h n)
  let ?h = "set_slots_total h n"
  have "slots_of ?h = slots_of h" "kids_of ?h = kids_of h" "hv_slots ?h = hv_slots h" "hv_next_slot_id ?h = hv_next_slot_id h"
    by (simp_all add: set_slots_total_def slots_of_def kids_of_def fun_eq_iff)
  then show ?case using hr_resize
    by (simp add: hv_good_def hv_inv_except_def slot_shape_def slot_kind_def cong: option.case_cong)
      (simp add: set_slots_total_def)
next
  case (hr_reclaim h h')
  show ?case
  proof (cases "hv_next_slot_id h = - 1")
    case False
    then have "hv_good N h" using hr_reclaim.IH by blast
    then obtain evs where "h' = h\<lparr>hv_slots := [], hv_watch_events := hv_watch_events h @ evs\<rparr>"
      using reclaim_session_spec[of "{}" h] hr_reclaim.hyps(2) by (auto simp: hv_good_def)
    then show ?thesis using \<open>hv_good N h\<close> by (simp add: hv_good_def hv_inv_except_def slots_of_def)
  next
    case True
    have "hv_next_slot_id h' = hv_next_slot_id h" by (rule reclaim_session_next[OF hr_reclaim.hyps(2)])
    then show ?thesis using True hr_reclaim.prems by simp
  qed
qed

section \<open>The instruction cap\<close>

abbreviation slot_icount :: "hv_slot \<Rightarrow> nat" where
  "slot_icount s \<equiv> unat (guest_instructions_get (sl_icount s))"

lemma frame_cost: "unat (saturating_mul (ucast (n :: u32)) ICOUNT_PER_FRAME) = unat n * 1000"
proof -
  have n: "unat n < 2 ^ 32" using unsigned_less[of n] by simp
  have "unat (ucast n :: u64) = unat n" by simp
  then show ?thesis using n
    by (simp add: saturating_mul_def ICOUNT_PER_FRAME_def unat_word_ariths)
qed

lemma min_u32_small:
  assumes "unat v < 2 ^ 32"
  shows "unat (min_u32 v) = unat v"
proof -
  have "v \<le> 0xFFFFFFFF" using assms by (simp add: word_le_nat_alt)
  then have "min v 0xFFFFFFFF = v" by simp
  then show ?thesis using assms by (simp add: min_u32_def unsigned_ucast_eq take_bit_nat_eq_self)
qed

lemma frames_to_run_cap:
  assumes "frames_to_run s n (Some c) = (f, reason)"
  defines "limit \<equiv> unat (guest_instructions_get c)"
  shows "slot_icount s + unat f * 1000 \<le> max (slot_icount s) limit"
    "reason = HardCap \<Longrightarrow> limit < slot_icount s + unat f * 1000 + 1000"
proof -
  let ?rem = "guest_instructions_get c - guest_instructions_get (sl_icount s)"
  consider "limit \<le> slot_icount s" "f = 0"
    | "slot_icount s < limit" "unat ?rem < unat n * 1000" "f = min_u32 (?rem div ICOUNT_PER_FRAME)"
    | "slot_icount s < limit" "unat n * 1000 \<le> unat ?rem" "f = n" "reason = BudgetReached"
    using assms frame_cost[of n]
    by (auto simp: frames_to_run_def Let_def word_le_nat_alt word_less_nat_alt not_le not_less split: if_splits)
  then have "slot_icount s + unat f * 1000 \<le> max (slot_icount s) limit
    \<and> (reason = HardCap \<longrightarrow> limit < slot_icount s + unat f * 1000 + 1000)"
  proof cases
    case 2
    have rem: "unat ?rem = limit - slot_icount s" using 2(1) by (simp add: limit_def unat_sub word_le_nat_alt)
    have "unat (?rem div ICOUNT_PER_FRAME) = unat ?rem div 1000" by (simp add: unat_div ICOUNT_PER_FRAME_def)
    moreover have "unat n < 2 ^ 32" using unsigned_less[of n] by simp
    then have "unat ?rem div 1000 < 2 ^ 32" using 2(2) by linarith
    ultimately have "unat f = unat ?rem div 1000" using 2(3) min_u32_small by simp
    then show ?thesis using rem 2(1) by (simp add: max_def) linarith
  next
    case 3
    have "unat ?rem = limit - slot_icount s" using 3(1) by (simp add: limit_def unat_sub word_le_nat_alt)
    then show ?thesis using 3 by (simp add: max_def)
  qed simp
  then show "slot_icount s + unat f * 1000 \<le> max (slot_icount s) limit"
    "reason = HardCap \<Longrightarrow> limit < slot_icount s + unat f * 1000 + 1000" by auto
qed

lemma checked_add_unat: "checked_add x y = Some (z :: 'a::len word) \<Longrightarrow> unat z = unat x + unat y"
  by (auto simp: checked_add_def unat_add_no_overflow split: if_splits)

definition within_cap :: "hv_slot \<Rightarrow> guest_instructions \<Rightarrow> stop_reason \<Rightarrow> hv_slot \<Rightarrow> bool" where
  "within_cap s c reason s' \<longleftrightarrow> slot_icount s \<le> slot_icount s'
     \<and> slot_icount s' \<le> max (slot_icount s) (unat (guest_instructions_get c))
     \<and> (reason = HardCap \<longrightarrow> unat (guest_instructions_get c) < slot_icount s' + unat ICOUNT_PER_FRAME)"

lemma advance_frames_cap:
  assumes "advance_frames w n (Some c) s = (Ok (f, reason), s')"
  shows "within_cap s c reason s'"
proof -
  obtain g k where g: "frames_to_run s n (Some c) = (g, k)" by fastforce
  from assms have "g = f \<and> k = reason \<and> slot_icount s' = slot_icount s + unat f * 1000"
    unfolding advance_frames_def g drain_due_actions_def
    by (auto simp: bind_st_eq Let_def res_simps frame_cost dest!: checked_add_unat)
  then have f: "frames_to_run s n (Some c) = (f, reason)" and "slot_icount s' = slot_icount s + unat f * 1000"
    using g by auto
  then show ?thesis using frames_to_run_cap[OF f] by (auto simp: within_cap_def ICOUNT_PER_FRAME_def)
qed

lemma advance_icount_cap:
  assumes "advance_icount_budget b (Some c) s = (Ok reason, s')"
  shows "within_cap s c reason s'"
proof -
  have "unat (guest_instructions_get c - guest_instructions_get (sl_icount s))
      = unat (guest_instructions_get c) - slot_icount s" if "slot_icount s < unat (guest_instructions_get c)"
    using that by (simp add: unat_sub word_le_nat_alt)
  then show ?thesis using assms
    by (auto simp: advance_icount_budget_def bind_st_eq Let_def res_simps within_cap_def ICOUNT_PER_FRAME_def
        word_le_nat_alt word_less_nat_alt not_le not_less dest!: checked_add_unat split: if_splits)
qed

lemma run_slot_cap:
  assumes "run_slot w until (Some c) s = (Ok (reason, n, ev), s')"
  shows "within_cap s c reason s'"
proof (cases until)
  case (UntilGoal g)
  have "within_cap s c GoalSatisfied t" if "within_cap s c k t" for k t using that by (simp add: within_cap_def)
  then show ?thesis using assms UntilGoal advance_frames_cap
    by (fastforce simp: run_slot_def bind_st_eq within_cap_def split: if_splits)
qed (use assms advance_frames_cap advance_icount_cap in
    \<open>auto simp: run_slot_def bind_st_eq advance_vns_budget_def within_cap_def res_simps\<close>)

section \<open>Restoring a snapshot\<close>

text \<open>A slot with another lease, base and parent.\<close>

definition rehandle :: "lease \<Rightarrow> snapshot_ref option \<Rightarrow> slot_id option \<Rightarrow> hv_slot \<Rightarrow> hv_slot" where
  "rehandle le b p s = s\<lparr>sl_lease := le, sl_base := b, sl_parent := p\<rparr>"

lemma rehandle_fields [simp]:
  "sl_state (rehandle le b p s) = sl_state s" "sl_icount (rehandle le b p s) = sl_icount s"
  "sl_vns (rehandle le b p s) = sl_vns s" "sl_frame_counter (rehandle le b p s) = sl_frame_counter s"
  "sl_pending_actions (rehandle le b p s) = sl_pending_actions s"
  by (simp_all add: rehandle_def)

lemma bind_st_apsnd:
  assumes "\<And>x t. f x (g t) = apsnd g (f' x t)"
  shows "bind_st (apsnd g rs) f = apsnd g (bind_st rs f')"
  using assms by (cases rs; cases "fst rs") auto

lemma advance_rehandle:
  "advance_frames w n cap (rehandle le b p s) = apsnd (rehandle le b p) (advance_frames w n cap s)"
  "advance_icount_budget i cap (rehandle le b p s) = apsnd (rehandle le b p) (advance_icount_budget i cap s)"
  "advance_vns_budget v (rehandle le b p s) = apsnd (rehandle le b p) (advance_vns_budget v s)"
proof -
  obtain f k where f: "frames_to_run s n cap = (f, k)" by fastforce
  have f': "frames_to_run (rehandle le b p s) n cap = (f, k)" using f by (cases cap) (simp_all add: frames_to_run_def)
  show "advance_frames w n cap (rehandle le b p s) = apsnd (rehandle le b p) (advance_frames w n cap s)"
    unfolding advance_frames_def f f' drain_due_actions_def
    by (simp add: Let_def ok_or_def rehandle_def split: option.split)
  show "advance_icount_budget i cap (rehandle le b p s) = apsnd (rehandle le b p) (advance_icount_budget i cap s)"
    unfolding advance_icount_budget_def
    by (cases cap) (simp_all add: Let_def ok_or_def rehandle_def split: option.split)
  show "advance_vns_budget v (rehandle le b p s) = apsnd (rehandle le b p) (advance_vns_budget v s)"
    unfolding advance_vns_budget_def by (simp add: ok_or_def rehandle_def split: option.split)
qed

lemma run_slot_rehandle:
  "run_slot w until cap (rehandle le b p s) = apsnd (rehandle le b p) (run_slot w until cap s)"
  by (cases until) (auto simp: run_slot_def advance_rehandle intro!: bind_st_apsnd)

lemma take_snapshot_Ok:
  assumes "take_snapshot E r h = (Ok resp, h1)"
  shows "\<exists>s. find_slot h (ts_lease r) = Ok s \<and> sl_state_kind s = SlotPaused
    \<and> hm_get (hv_snapshots h1) (tsr_snapshot resp) = Some (snapshot_record_of E s)
    \<and> tsr_state_hash resp = grid_state_hash (he_blake3 E) (sl_state s) \<and> tsr_frame_counter resp = sl_frame_counter s"
proof -
  obtain d h0 where f: "hv_decide_fault E ''take_snapshot'' (RqTakeSnapshot r) 0 h = (Ok d, h0)"
    using assms by (auto simp: take_snapshot_def bind_st_eq)
  have find: "find_slot h0 le = find_slot h le" for le
    using decide_fault_same[OF f] by (simp add: find_slot_def same_slots_def)
  obtain s where s: "find_slot h (ts_lease r) = Ok s" "ensure_paused s ''take snapshot'' = Ok ()"
    using assms[unfolded take_snapshot_def f bind_st.simps find] by (auto simp: bind_st_eq)
  obtain c where c: "capture_response_of (sl_state s) (sl_frame_counter s) (ts_capture r) = Ok c"
    using assms[unfolded take_snapshot_def f bind_st.simps find s] by (auto simp: bind_st_eq Let_def)
  show ?thesis
    using assms[unfolded take_snapshot_def f bind_st.simps find s Let_def c] s
    by (auto simp: ensure_paused_def split: if_splits)
qed

lemma restore_snapshot_Ok:
  assumes "restore_snapshot E r h = (Ok resp, h')" "hm_get (hv_snapshots h) (rs_snapshot r) = Some rec"
  shows "find_slot h' (rsr_lease resp) = Ok (slot_from_snapshot (rsr_lease resp) (rs_snapshot r) rec)
    \<and> rsr_state_hash resp = grid_state_hash (he_blake3 E) (sr_state rec) \<and> rsr_frame_counter resp = sr_frame_counter rec"
proof -
  obtain d h1 where f: "hv_decide_fault E ''restore_snapshot'' (RqRestoreSnapshot r) 0 h = (Ok d, h1)"
    using assms(1) by (auto simp: restore_snapshot_def bind_st_eq)
  have "hv_snapshots h1 = hv_snapshots h"
    using f by (auto simp: hv_decide_fault_def Let_def split: res.splits prod.splits option.splits)
  moreover obtain le h2 where a: "allocate_lease E h1 (sr_config rec) (case_option zero_entropy_seed id (rs_entropy_seed r)) = (le, h2)"
    by fastforce
  moreover have "find_slot (push_slot_event (put_slot h2 (le_slot_id le) t) (le_slot_id le)) le = Ok t"
    if "sl_lease t = le" for t
    using that push_slot_event_same[of "put_slot h2 (le_slot_id le) t" "le_slot_id le"]
    by (simp add: find_slot_Ok slots_of_def same_slots_def put_slot_def)
  ultimately show ?thesis using assms f
    by (auto simp: restore_snapshot_def bind_st_eq slot_from_snapshot_def)
qed

section \<open>An example worker\<close>

text \<open>A worker with two slots and no faults; the parameters are constant functions.\<close>

definition example_env :: hv_env where
  "example_env = \<lparr>he_blake3 = (\<lambda>_. []), he_request_identity = (\<lambda>_. []), he_config_bytes = (\<lambda>_. []),
     he_input_log_bytes = (\<lambda>_. [])\<rparr>"

definition example_worker :: fake_hypervisor where
  "example_worker = with_world_slots_and_fault_plan three_room 2 (plan_disabled 0)"

definition example_config :: machine_config where
  "example_config = \<lparr>mc_version = 1, mc_mem_bytes = 4096, mc_vcpus = 1, mc_clock_num = 1, mc_clock_den = 1,
     mc_base_image_hash = Digest32 [], mc_boot = BootElf \<lparr>eb_kernel_hash = Digest32 [], eb_cmdline = []\<rparr>,
     mc_epoch_len = GuestInstructions 1, mc_hash_epochs = FinalOnly, mc_skid_margin = 0\<rparr>"

definition example_lease :: lease where
  "example_lease = \<lparr>le_slot_id = SlotId 1, le_token = LeaseToken []\<rparr>"

definition example_live :: fake_hypervisor where
  "example_live = snd (create_vm example_env \<lparr>cv_config = example_config, cv_entropy_seed = EntropySeed []\<rparr> example_worker)"

lemma decide_fault_none:
  assumes "hv_fault_injector h = \<lparr>inj_plan = plan_disabled sd, inj_attempts = as, inj_stats = st\<rparr>"
    "hm_get as (TgtHypervisor, op) = None"
  shows "hv_decide_fault E op r n h = (Ok no_fault, h\<lparr>hv_fault_injector := \<lparr>inj_plan = plan_disabled sd,
    inj_attempts = hm_insert as (TgtHypervisor, op) 1, inj_stats = record_stats st no_fault\<rparr>, hv_last_fault := Some no_fault\<rparr>)"
  using assms by (simp add: hv_decide_fault_def injector_decide_def attempt_of_def add_or_panic_def Let_def decide_disabled
      decision_client_error_def no_fault_def)

lemma example_worker_injector:
  "hv_fault_injector example_worker = \<lparr>inj_plan = plan_disabled 0, inj_attempts = [], inj_stats = inj_stats (injector_new (plan_disabled 0))\<rparr>"
  by (simp add: example_worker_def with_world_slots_and_fault_plan_def injector_new_def)

lemma example_worker_fields:
  "hv_slots example_worker = []" "hv_next_slot_id example_worker = 1" "hv_slots_total example_worker = 2"
  "hv_world example_worker = three_room" "hv_snapshots example_worker = []"
  by (simp_all add: example_worker_def with_world_slots_and_fault_plan_def)

lemma example_live_facts:
  "hv_slots example_live = [(SlotId 1, slot_new_root example_lease example_config (initial_state three_room))]"
  "hv_next_slot_id example_live = 2" "hv_slots_total example_live = 2" "hv_world example_live = three_room"
  "hv_snapshots example_live = []"
  "\<exists>st. hv_fault_injector example_live = \<lparr>inj_plan = plan_disabled 0, inj_attempts = [((TgtHypervisor, ''create_vm''), 1)], inj_stats = st\<rparr>"
  by (simp_all add: example_live_def create_vm_def decide_fault_none[OF example_worker_injector] example_worker_fields
      ensure_capacity_def saturating_sub_def allocate_lease_def put_slot_def hm_insert_def push_slot_event_def
      saturating_add_def lease_token_of_def example_env_def example_lease_def Let_def)

lemma example_live_reachable: "hv_reachable example_env 2 example_live"
proof -
  have "hv_reachable example_env 2 example_worker" unfolding example_worker_def by (rule hr_new) simp
  then show ?thesis unfolding example_live_def by (metis hr_request rq_create prod.collapse)
qed

lemma example_live_injector:
  obtains st where "hv_fault_injector example_live
    = \<lparr>inj_plan = plan_disabled 0, inj_attempts = [((TgtHypervisor, ''create_vm''), 1)], inj_stats = st\<rparr>"
  using example_live_facts(6) by blast

lemma example_find: "find_slot h example_lease = Ok (slot_new_root example_lease example_config (initial_state three_room))"
  if "hv_slots h = hv_slots example_live" for h
  by (simp add: that find_slot_def example_live_facts example_lease_def slot_new_root_def)

definition example_run :: run_request where
  "example_run = \<lparr>rr_lease = example_lease, rr_until = FrameBudget (FrameCount 5),
     rr_hard_icount_cap = Some (GuestInstructions 2500), rr_capture = None\<rparr>"

lemma example_run_slot:
  "run_slot three_room (FrameBudget (FrameCount 5)) (Some (GuestInstructions 2500))
     ((slot_new_root le c st)\<lparr>sl_state_kind := k\<rparr>)
   = (Ok (HardCap, 2, None), (slot_new_root le c st)\<lparr>sl_state_kind := k, sl_frame_counter := FrameCount 2,
        sl_icount := GuestInstructions 2000, sl_vns := 2 * VNS_PER_FRAME\<rparr>)"
  by (simp add: run_slot_def advance_frames_def frames_to_run_def slot_new_root_def saturating_mul_def ICOUNT_PER_FRAME_def
      min_u32_def checked_add_def drain_due_actions_def sort_pending_def VNS_PER_FRAME_def Let_def)

lemma slot_new_root_kind [simp]: "sl_state_kind (slot_new_root le c st) = SlotPaused"
  by (simp add: slot_new_root_def)

lemma push_slot_event_world [simp]: "hv_world (push_slot_event h i) = hv_world h"
  by (simp add: push_slot_event_def split: option.split)

lemma example_run_Ok:
  "\<exists>resp h'. hv_run example_env example_run example_live = (Ok resp, h') \<and> rrr_reason resp = HardCap
     \<and> rrr_icount resp = GuestInstructions 2000"
proof -
  obtain st where st: "hv_fault_injector example_live
    = \<lparr>inj_plan = plan_disabled 0, inj_attempts = [((TgtHypervisor, ''create_vm''), 1)], inj_stats = st\<rparr>"
    by (rule example_live_injector)
  show ?thesis
    by (simp add: hv_run_def decide_fault_none[OF st] example_run_def validate_capture_spec_def example_find ensure_paused_def
        example_live_facts(4) example_run_slot capture_response_of_def Let_def)
qed

text \<open>The example snapshot and its restore, with a slot to spare.\<close>

definition example_take :: take_snapshot_request where
  "example_take = \<lparr>ts_lease = example_lease, ts_seal_input_log = False, ts_capture = None\<rparr>"

definition example_restore :: restore_snapshot_request where
  "example_restore = \<lparr>rs_snapshot = SnapshotRef [], rs_entropy_seed = None\<rparr>"

lemma example_take_restore:
  "\<exists>resp h1 resp2 h3. take_snapshot example_env example_take example_live = (Ok resp, h1) \<and> tsr_snapshot resp = SnapshotRef []
     \<and> restore_snapshot example_env example_restore h1 = (Ok resp2, h3) \<and> le_slot_id (rsr_lease resp2) = SlotId 2"
proof -
  obtain st where st: "hv_fault_injector example_live
    = \<lparr>inj_plan = plan_disabled 0, inj_attempts = [((TgtHypervisor, ''create_vm''), 1)], inj_stats = st\<rparr>"
    by (rule example_live_injector)
  obtain resp h1 where t: "take_snapshot example_env example_take example_live = (Ok resp, h1)" "tsr_snapshot resp = SnapshotRef []"
    and h1: "hv_slots h1 = hv_slots example_live" "hv_slots_total h1 = 2" "hv_next_slot_id h1 = 2"
      "hm_get (hv_snapshots h1) (SnapshotRef []) \<noteq> None" "\<exists>st. hv_fault_injector h1 = \<lparr>inj_plan = plan_disabled 0,
        inj_attempts = [((TgtHypervisor, ''create_vm''), 1), ((TgtHypervisor, ''take_snapshot''), 1)], inj_stats = st\<rparr>"
    by (simp add: take_snapshot_def decide_fault_none[OF st] example_take_def example_find ensure_paused_def
        capture_response_of_def example_live_facts(2-5) snapshot_ref_of_def example_env_def hm_insert_def Let_def)
  then show ?thesis
    by (auto simp: restore_snapshot_def decide_fault_none example_restore_def ensure_capacity_def saturating_sub_def
        example_live_facts(1) allocate_lease_def Let_def)
qed

section \<open>Properties\<close>

text \<open>C17: The slot table of the fake worker is consistent after every sequence of requests, injected faults, resizes and
  session reclaims, as long as lease ids remain: keys are unique, a slot is filed under the id of its lease,
  its parent is a live, older slot, and it is frozen exactly while it has live children; no more slots are
  live than the largest pool allowed.\<close>

theorem hypervisor_reachable_inv:
  assumes "hv_reachable E N h" "hv_next_slot_id h \<noteq> - 1"
  shows "hv_inv h \<and> length (hv_slots h) \<le> N"
  using hv_reachable_good[OF assms] by (simp add: hv_good_def)

theorem hypervisor_reachable_inv_witness:
  "hv_inv example_live \<and> length (hv_slots example_live) = 1 \<and> length (hv_slots example_live) \<le> 2"
  using hypervisor_reachable_inv[OF example_live_reachable] by (simp add: example_live_facts)

text \<open>C19: Reclaiming a session ends. From every reachable state the loop of passes returns with an empty slot table and
  nothing else changed but the watch events, which gain exactly one event per live slot, each of them the
  empty state, and a slot is announced only after all its children.\<close>

theorem reclaim_session_empties:
  assumes "hv_reachable E N h" "hv_next_slot_id h \<noteq> - 1"
  shows "\<exists>evs. reclaim_session h = Some (h\<lparr>hv_slots := [], hv_watch_events := hv_watch_events h @ evs\<rparr>)
    \<and> distinct (map si_slot_id evs) \<and> set (map si_slot_id evs) = {i. slots_of h i \<noteq> None}
    \<and> child_first h (map si_slot_id evs) \<and> (\<forall>e \<in> set evs. si_state e = SlotEmpty)"
  using hv_reachable_good[OF assms] by (intro reclaim_session_spec[of "{}"]) (simp add: hv_good_def)

theorem reclaim_session_empties_witness:
  "\<exists>h'. reclaim_session example_live = Some h' \<and> hv_slots h' = [] \<and> SlotId 1 \<in> set (map si_slot_id (hv_watch_events h'))"
proof -
  have "slots_of example_live (SlotId 1) \<noteq> None" by (simp add: slots_of_def example_live_facts)
  then show ?thesis using reclaim_session_empties[OF example_live_reachable] by (fastforce simp: example_live_facts)
qed

text \<open>C18: A snapshot restores what was saved. After a successful \<open>take_snapshot\<close>, a successful restore of the returned
  reference from any state that still holds the entry gives a paused slot that differs from the snapshotted
  one only in its lease, its base and its parent; the reported state hash and frame counter agree, and every
  run of the restored slot has the result and the final machine state of the same run of the original.\<close>

theorem snapshot_restore_roundtrip:
  assumes take: "take_snapshot E r h = (Ok resp, h1)"
    and kept: "hm_get (hv_snapshots h2) (tsr_snapshot resp) = hm_get (hv_snapshots h1) (tsr_snapshot resp)"
    and restore: "restore_snapshot E r2 h2 = (Ok resp2, h3)" "rs_snapshot r2 = tsr_snapshot resp"
  shows "\<exists>s s'. find_slot h (ts_lease r) = Ok s \<and> find_slot h3 (rsr_lease resp2) = Ok s'
    \<and> s' = s\<lparr>sl_lease := rsr_lease resp2, sl_base := Some (tsr_snapshot resp), sl_parent := None\<rparr>
    \<and> rsr_state_hash resp2 = tsr_state_hash resp \<and> rsr_frame_counter resp2 = tsr_frame_counter resp
    \<and> (\<forall>w until cap. run_slot w until cap s' = apsnd (rehandle (rsr_lease resp2) (Some (tsr_snapshot resp)) None)
         (run_slot w until cap s))"
proof -
  obtain s where s: "find_slot h (ts_lease r) = Ok s" "sl_state_kind s = SlotPaused"
    "hm_get (hv_snapshots h1) (tsr_snapshot resp) = Some (snapshot_record_of E s)"
    "tsr_state_hash resp = grid_state_hash (he_blake3 E) (sl_state s)" "tsr_frame_counter resp = sl_frame_counter s"
    using take_snapshot_Ok[OF take] by blast
  let ?s = "rehandle (rsr_lease resp2) (Some (tsr_snapshot resp)) None s"
  have "slot_from_snapshot (rsr_lease resp2) (tsr_snapshot resp) (snapshot_record_of E s) = ?s"
    using s(2) by (cases s) (simp add: slot_from_snapshot_def snapshot_record_of_def rehandle_def)
  then have "find_slot h3 (rsr_lease resp2) = Ok ?s" "rsr_state_hash resp2 = tsr_state_hash resp"
    "rsr_frame_counter resp2 = tsr_frame_counter resp"
    using restore_snapshot_Ok[OF restore(1), of "snapshot_record_of E s"] restore(2) s kept
    by (simp_all add: snapshot_record_of_def)
  then show ?thesis using s(1) run_slot_rehandle by (intro exI[of _ s] exI[of _ ?s]) (simp add: rehandle_def)
qed

theorem snapshot_restore_roundtrip_witness:
  "\<exists>resp h1 resp2 h3 s'. take_snapshot example_env example_take example_live = (Ok resp, h1)
     \<and> restore_snapshot example_env example_restore h1 = (Ok resp2, h3) \<and> find_slot h3 (rsr_lease resp2) = Ok s'
     \<and> sl_state s' = initial_state three_room \<and> rsr_state_hash resp2 = tsr_state_hash resp"
proof -
  obtain resp h1 resp2 h3 where t: "take_snapshot example_env example_take example_live = (Ok resp, h1)" "tsr_snapshot resp = SnapshotRef []"
    and r: "restore_snapshot example_env example_restore h1 = (Ok resp2, h3)"
    using example_take_restore by blast
  have "rs_snapshot example_restore = tsr_snapshot resp" by (simp add: t(2) example_restore_def)
  from snapshot_restore_roundtrip[OF t(1) refl r this] t(1) r show ?thesis
    using example_find[of example_live] by (auto simp: example_take_def slot_new_root_def)
qed

text \<open>C31: A run respects its hard instruction cap. The instruction counter never goes back, never passes the cap (or
  stays where it was, if it was past it already), and a run that reports the cap stopped within one frame of it.\<close>

theorem run_respects_cap:
  assumes "hv_run E r h = (Ok resp, h')" "rr_hard_icount_cap r = Some c" "find_slot h (rr_lease r) = Ok s"
  defines "start \<equiv> unat (guest_instructions_get (sl_icount s))" and "stop \<equiv> unat (guest_instructions_get (rrr_icount resp))"
    and "limit \<equiv> unat (guest_instructions_get c)"
  shows "start \<le> stop \<and> stop \<le> max start limit \<and> (rrr_reason resp = HardCap \<longrightarrow> limit < stop + unat ICOUNT_PER_FRAME)"
proof -
  obtain d h1 where f: "hv_decide_fault E ''run'' (RqRun r) 0 h = (Ok d, h1)"
    using assms(1) by (auto simp: hv_run_def bind_st_eq)
  have "find_slot h1 (rr_lease r) = Ok s"
    using decide_fault_same[OF f] assms(3) by (simp add: find_slot_def same_slots_def)
  then obtain w ran where ran: "run_slot w (rr_until r) (Some c) (s\<lparr>sl_state_kind := SlotRunning\<rparr>)
      = (Ok (rrr_reason resp, rrr_frames_elapsed resp, rrr_sdk_event resp), ran)" and "sl_icount ran = rrr_icount resp"
    using assms(1)[unfolded hv_run_def f bind_st.simps] assms(2)
    by (auto simp: bind_st_eq Let_def split: prod.splits)
  then show ?thesis using run_slot_cap[OF ran] by (simp add: within_cap_def start_def stop_def limit_def)
qed

theorem run_respects_cap_witness:
  "\<exists>resp h'. hv_run example_env example_run example_live = (Ok resp, h') \<and> rrr_reason resp = HardCap
     \<and> unat (guest_instructions_get (rrr_icount resp)) \<le> 2500
     \<and> 2500 < unat (guest_instructions_get (rrr_icount resp)) + unat ICOUNT_PER_FRAME"
proof -
  obtain resp h' where r: "hv_run example_env example_run example_live = (Ok resp, h')" "rrr_reason resp = HardCap"
    using example_run_Ok by blast
  have "rr_hard_icount_cap example_run = Some (GuestInstructions 2500)" by (simp add: example_run_def)
  from run_respects_cap[OF r(1) this] r example_find[of example_live] show ?thesis
    by (auto simp: example_run_def slot_new_root_def)
qed

end
