(* ===== verification/Spec2Isabelle.thy ===== *)
theory Spec2Isabelle
  imports Commit Staged_Policy Feature_Layout Checkpoint Store_Facts Events Hypervisor_Facts
begin

text \<open>
  A verification development for the exploration orchestrator, a service that searches the state space of a
  deterministic guest. The orchestrator keeps a tree of snapshots. In every round it selects a frontier node,
  lets a synthesizer propose input bursts, runs them on worker slots from the node's snapshot, has the results
  scored, and commits the children that are worth keeping. It writes its progress to a snapshot store as
  checkpoints and write-ahead entries, and reports events to an observatory. The parts below are the search
  core (\<open>crates/orch-core\<close>), the boundaries to the services (\<open>crates/orch-clients\<close>), the codec of the durable state
  (\<open>crates/orch-checkpoint\<close>), the retry policy (\<open>crates/orch-sched\<close>), the event emitter (\<open>crates/orch-server\<close>) and
  the deterministic in-memory services the system is tested against (\<open>crates/orch-fakes\<close>).

  \<^bold>\<open>Conventions.\<close> A Rust call ends in \<open>Ok\<close>, \<open>Err\<close> or \<open>Panic\<close> (\<open>res\<close>, theory \<open>Prelude\<close>). A function that may mutate its
  state before it fails returns the outcome and the state it left. Integers keep their width as words; checked,
  saturating and panicking arithmetic is written out. An \<open>f64\<close> is its 64 bits and the operations round as IEEE 754
  says (\<open>Float64\<close>). Hash maps and ordered maps are association lists with distinct keys (\<open>Hash_Map\<close>); what the code
  reads in sorted order is the sorted listing. Code that is not part of the repository is a parameter: BLAKE3,
  the ChaCha generator, \<open>log\<close>, \<open>exp\<close> and \<open>sqrt\<close> of \<open>libm\<close>, the \<open>postcard\<close> serializer and the serializer behind request
  identities. What is used of them is stated as a hypothesis (\<open>log_laws\<close>, \<open>exp_laws\<close>, \<open>sqrt_laws\<close>, \<open>codec_laws\<close>).
  Plain additions such as \<open>counter += 1\<close> are modelled with overflow checks on, as in a debug build: they panic where
  a release build would wrap. The theorems about them exclude the overflow by a hypothesis or by the outcome.

  \<^bold>\<open>The search core.\<close>
  \<^item> \<open>Types\<close>: \<open>types.rs\<close> and \<open>config_rejections.rs\<close>. Identifiers, finite floats, scores, the experiment
    configuration and its validation.
  \<^item> \<open>Search_Tree\<close>: \<open>tree.rs\<close>. Node records and the two parallel vectors. Every tree built by the operations is
    well formed, inserting a child changes exactly the child and its parent, and the walk to the root ends at it.
  \<^item> \<open>Frontier_Set\<close>: \<open>frontier.rs\<close>. The indexed vector refines a finite set (locale \<open>id_set\<close>); listings are canonical.
  \<^item> \<open>Mirror\<close>: \<open>mirror.rs\<close>. Cell counts, novelty and the table of seen states, both instances of \<open>snapshot_map\<close>.
  \<^item> \<open>Rng\<close>: \<open>rng.rs\<close>. Derived streams are separated, a unit draw lies in [0, 1).
  \<^item> \<open>Plateau\<close>: \<open>plateau.rs\<close>. The stall detector and the escalation ladder: the level follows the completed windows,
    an improvement resets it.
  \<^item> \<open>Commit\<close>: \<open>commit.rs\<close>. The whole of \<open>commit_batch\<close>: it keeps the invariant that links tree, frontier, counts, seen
    table and streaks also when it fails, it succeeds when the counters have room, and its effect on every
    part is described.
  \<^item> \<open>Policy\<close>, \<open>Softmax_Policy\<close>, \<open>Ucb_Policy\<close>, \<open>Staged_Policy\<close>: \<open>policy/\<close>. Candidate scoring and the three policies under the
    contract \<open>selection_policy\<close>; what each of them chooses, and that it does choose.
  \<^item> \<open>Feature_Map\<close>, \<open>Feature_Layout\<close>: \<open>compile.rs\<close>. Compiled layouts are the canonical cover of the declared features,
    fields read the bytes of their features, and coarsening keeps the layout.

  \<^bold>\<open>Services and durable state.\<close>
  \<^item> \<open>Client\<close>: \<open>orch-clients/src/lib.rs\<close>, \<open>runtime_reasons.rs\<close> and \<open>orch-sched/src/retry.rs\<close>. The retry loop returns after a
    bounded number of attempts, with the delays of the policy.
  \<^item> \<open>Checkpoint\<close>: \<open>orch-checkpoint\<close>. Round trip of the codec, and what a decoded checkpoint is guaranteed to satisfy.
  \<^item> \<open>Fault\<close>: \<open>orch-fakes/src/fault.rs\<close>. Well-formed fault decisions.
  \<^item> \<open>Store_Api\<close>, \<open>Snapshot_Store\<close>, \<open>Store_Facts\<close>: the store boundary and the in-memory store. Its node graph stays a forest
    under every request and fault, a compare-and-swap has one winner until the key is deleted (locale \<open>metadata_service\<close>), creating a node is
    idempotent, and the walks to the root and over a subtree end with the right nodes.
  \<^item> \<open>Events\<close>: observatory boundary, recording sink and the bounded emitter of \<open>orch-server/src/events.rs\<close>, proved
    against the contract \<open>recording_sink\<close>: no event is lost without being counted.
  \<^item> \<open>Grid\<close>: \<open>orch-fakes/src/grid.rs\<close>, the guest of the fake worker and its two fixtures.
  \<^item> \<open>Worker_Api\<close>, \<open>Fake_Hypervisor\<close>, \<open>Hypervisor_Facts\<close>: the worker boundary and the fake worker. The slot table stays
    consistent, snapshots restore what was saved, runs respect their instruction cap, and reclaiming a
    session ends with an empty table.

  This theory adds what spans the core: selection followed by commit, round after round.

  \<^bold>\<open>Termination.\<close> Loops over data are structural recursion. Loops that may run forever in principle are partial
  functions with value \<open>None\<close> for a run that does not end: the walk to the root of the tree, the path and subtree
  walks of the store and \<open>reclaim_session\<close>; that they return is proved from the invariants. The retry loop is a
  function whose attempts are a measure. No definition uses fuel. Theorems that need
  counters not to overflow say so (\<open>headroom\<close>, lengths below \<open>2 ^ 64\<close>, lease ids left).

  \<^bold>\<open>Not modelled.\<close> The experiment runner (\<open>orch-server/src/experiment.rs\<close>), the job driver, pipeline and slot pool of
  \<open>orch-sched\<close> and the job retry of \<open>retry.rs\<close> are concurrent tasks on the tokio runtime; the gRPC and HTTP surfaces,
  bring-up, metrics and the daemon are input and output; \<open>orch-proto\<close> is generated code. The synthesizer driver
  (\<open>orch-driver\<close>), the scorer and synthesizer boundaries with their fakes, transcripts and \<open>orch-simstate\<close> are left
  out. YAML and serde decoding is outside. Texts of error messages are kept where the code compares or
  classifies them, and abbreviated elsewhere.
\<close>

section \<open>Selection and commit together\<close>

text \<open>The context that \<open>build_intent\<close> hands to the policy: the parts of the commit state, the knobs and the
  selection settings.\<close>

definition search_context ::
  "commit_state \<Rightarrow> plateau_knobs \<Rightarrow> selection_config \<Rightarrow> backtrack_knobs option \<Rightarrow> policy_context" where
  "search_context s k sel bt = with_backtrack (policy_context_new (cs_tree s) (cs_frontier s) (cs_cell_mirror s) k sel) bt"

lemma search_context_fields [simp]:
  "pc_tree (search_context s k sel bt) = cs_tree s" "pc_frontier (search_context s k sel bt) = cs_frontier s"
  "pc_selection (search_context s k sel bt) = sel" "pc_backtrack (search_context s k sel bt) = bt"
  by (simp_all add: search_context_def with_backtrack_def policy_context_new_def)

lemma search_context_ok: "commit_inv s \<Longrightarrow> context_ok (search_context s k sel bt)"
  by (auto simp: commit_inv_def core_inv_def context_ok_def live_def)

text \<open>C5: One round of the search succeeds and leaves a state for the next one. The conditions are: the commit state is
  consistent and its counters have room for the batch below every candidate; there are between one and
  \<open>2 ^ 53\<close> candidates; the commit rules and the selection weights pass their validation; the four priority
  weights and the factor of the backtrack bonus, if there is one, are at most \<open>2 ^ 1000\<close>, a bound that the
  validation does not check and without which a priority may overflow; the scores of the children are valid;
  \<open>log\<close> and \<open>exp\<close> satisfy their laws; and the random stream has a draw left. Then the softmax policy, run on the
  context taken from that state, returns a live candidate, committing the batch below it succeeds, and the
  state reached is consistent again and gives the next round a context of the same kind.\<close>

theorem select_then_commit:
  fixes s k sel bt
  defines "c \<equiv> search_context s k sel bt"
  assumes inv: "commit_inv s" and rules: "validate_rules rules = Ok ()"
    and scores: "\<forall>ch \<in> set chs. score_ok (np_score (sc_payload ch))"
    and room: "\<forall>p \<in> set (candidate_ids c). headroom s p (length chs)"
    and sel: "validate_selection_weights sel = Ok ()" "weights_bounded c" "candidate_ids c \<noteq> []" "length (candidate_ids c) \<le> 2 ^ 53"
    and lm: "log_laws lm" "exp_laws lm" and draws: "unat (dr_draws r) + 1 < 2 ^ 64"
  shows "\<exists>ch r' out s'. softmax_select lm G SoftmaxPolicy c r = (Ok ch, r') \<and> sc_selected ch \<in> live (cs_tree s)
    \<and> commit_batch s (sc_selected ch) chs rules = (Ok out, s') \<and> commit_inv s' \<and> context_ok (search_context s' k sel bt)"
proof -
  have ok: "context_ok c" unfolding c_def by (rule search_context_ok[OF inv])
  have w: "validate_selection_weights (pc_selection c) = Ok ()" using sel(1) by (simp add: c_def)
  obtain ch r' where ch: "softmax_select lm G SoftmaxPolicy c r = (Ok ch, r')" "sc_selected ch \<in> frontier_ids (pc_frontier c)"
    "candidate_in (pc_tree c) (sc_selected ch)"
    using softmax_select_chooses[OF ok w sel(3,4) lm sel(2) draws, of G] by blast
  then have mem: "sc_selected ch \<in> set (candidate_ids c)" using context_candidates(4)[OF ok] by blast
  then have h: "headroom s (sc_selected ch) (length chs)" using room by blast
  obtain out s' where s': "commit_batch s (sc_selected ch) chs rules = (Ok out, s')"
    using commit_batch_total[OF inv rules scores h] by blast
  have "length (records (cs_tree s)) + length chs < 2 ^ 64" using h by (simp add: headroom_def)
  then have "commit_inv s'" using commit_batch_stages[OF s' _ inv _ scores] by blast
  moreover have "sc_selected ch \<in> live (cs_tree s)" using ch(2) inv by (simp add: c_def commit_inv_def)
  ultimately show ?thesis using ch(1) s' search_context_ok by blast
qed

lemma example_search_candidates:
  "set (candidate_ids (search_context example_state k sel bt)) = {ROOT}"
  "candidate_ids (search_context example_state k sel bt) = [ROOT]"
proof -
  let ?c = "search_context example_state k sel bt"
  note cand = context_candidates[OF search_context_ok[OF example_state_inv]]
  show s: "set (candidate_ids ?c) = {ROOT}"
    unfolding cand(4) by (auto simp: example_state_def candidate_in_def example_get_root
        node_record_root_def node_record_new_def is_frontier_candidate_def)
  then have "{i \<in> frontier_ids (pc_frontier ?c). candidate_in (pc_tree ?c) i} = {ROOT}" using cand(4) by simp
  then show "candidate_ids ?c = [ROOT]" unfolding candidate_ids_def by simp
qed

theorem select_then_commit_witness:
  "\<exists>ch r' out s'. softmax_select example_libm counter_generator SoftmaxPolicy
       (search_context example_state (from_plateau_config plateau_config_default) example_selection None)
       (rng_selection (\<lambda>_. replicate 32 0) counter_generator 5 1) = (Ok ch, r')
     \<and> commit_batch example_state (sc_selected ch) [example_dup, example_goal] example_rules = (Ok out, s') \<and> commit_inv s'"
proof -
  let ?c = "search_context example_state (from_plateau_config plateau_config_default) example_selection None"
  have b: "weights_bounded ?c" using example_bounded by (simp add: weights_bounded_def example_context_def)
  have d: "unat (dr_draws (rng_selection (\<lambda>_. replicate 32 0) counter_generator 5 1)) + 1 < 2 ^ 64"
    by (simp add: rng_selection_def rng_new_def rng_from_spec_def)
  have room: "\<forall>p \<in> set (candidate_ids ?c). headroom example_state p (length [example_dup, example_goal])"
    using example_headroom by (simp add: example_search_candidates numeral_2_eq_2)
  have "candidate_ids ?c \<noteq> []" "length (candidate_ids ?c) \<le> 2 ^ 53" by (simp_all add: example_search_candidates(2))
  from select_then_commit[OF example_state_inv example_rules_ok example_scores room example_weights b this example_laws d, of counter_generator]
  show ?thesis by blast
qed

end
